(* ===== verification/Prelude.thy ===== *)
theory Prelude
  imports Main "HOL-Library.Word"
begin

text \<open>
  Shared vocabulary of the TinyOS development: names for the kernel's fixed-width
  integers (\<^verbatim>\<open>stdint.h\<close>), the generic lemmas on machine words, lists
  and finite sets that the component theories use, and the collections of facts the
  component proofs are driven by.
\<close>

section \<open>Machine integers\<close>

type_synonym u8 = "8 word"
type_synonym u16 = "16 word"
type_synonym u32 = "32 word"
type_synonym u64 = "64 word"

text \<open>
  \<open>step_simps\<close> collects the equations that compute one step of a loop body, \<open>wlp_rules\<close> those
  that push a postcondition through the constructs of the option monad,
  \<open>inv_intros\<close> the introduction rules for component invariants, and
  \<open>frame_rules\<close> the facts that say which part of a state an operation leaves alone.
\<close>

named_theorems step_simps
named_theorems wlp_rules
named_theorems inv_intros
named_theorems frame_rules

unbundle bit_operations_syntax

section \<open>Words\<close>

lemma unat_u32_of_nat [simp]: "n < 4294967296 \<Longrightarrow> unat (of_nat n :: u32) = n"
  by (simp add: unat_of_nat take_bit_eq_mod)

lemma unat_u32_less [simp]: "unat (x :: u32) < 4294967296"
  by (rule order.strict_trans2 [OF unsigned_less]) simp

lemma sint_u32_small:
  assumes "unat (x :: u32) < 2147483648"
  shows "sint x = int (unat x)"
proof -
  have "int (unat x) < 2147483648" using assms by linarith
  then have "uint x < 2147483648" by (simp only: of_nat_unat)
  moreover have "- 2147483648 \<le> uint x" using uint_ge_0 [of x] by linarith
  ultimately have "signed_take_bit 31 (uint x) = uint x"
    by (intro signed_take_bit_int_eq_self) simp_all
  then show ?thesis by (simp add: sint_uint)
qed

lemma unat_u16_less [simp]: "unat (x :: u16) < 65536"
  by (rule order.strict_trans2 [OF unsigned_less]) simp

lemma unat_u8_less [simp]: "unat (x :: u8) < 256"
  by (rule order.strict_trans2 [OF unsigned_less]) simp

lemma unat_u32_mult_of_nat:
  "n * unat k < 4294967296 \<Longrightarrow> unat (of_nat n * k :: u32) = n * unat (k :: u32)"
proof (cases "unat k = 0")
  case True
  then show ?thesis by (simp add: unat_eq_zero)
next
  case False
  assume a: "n * unat k < 4294967296"
  have "n \<le> n * unat k" using False by simp
  then have "n < 4294967296" using a by linarith
  with a show ?thesis by (simp add: unat_word_ariths)
qed

lemma unat_u32_add_no_wrap:
  "unat a + unat b < 4294967296 \<Longrightarrow> unat (a + b :: u32) = unat a + unat b"
  by (simp add: unat_word_ariths)

lemma unat_u32_dec: "x \<noteq> 0 \<Longrightarrow> unat (x - 1 :: u32) = unat x - 1"
  by (rule unat_minus_one)

lemma unat_u32_inc: "unat x + 1 < 4294967296 \<Longrightarrow> unat (x + 1 :: u32) = unat x + 1"
  using unat_u32_add_no_wrap [of x 1] by simp

lemma unat_u32_max_minus: "unat (0xFFFFFFFF - x :: u32) = 4294967295 - unat x"
proof -
  have "x \<le> 0xFFFFFFFF"
    using unat_u32_less [of x] by (simp add: word_le_nat_alt del: unat_u32_less)
  then show ?thesis by (simp add: unat_sub)
qed

text \<open>One bit of a word tested the way the C code tests it, by shifting and masking.\<close>

lemma drop_bit_and_1_iff: "drop_bit n w AND 1 \<noteq> 0 \<longleftrightarrow> bit (w :: 'a::len word) n"
  by (simp add: and_one_eq bit_iff_odd_drop_bit odd_iff_mod_2_eq_one mod2_eq_if)

text \<open>Setting and clearing one bit: the mask \<open>push_bit n 1\<close> is in simp normal form \<open>2 ^ n\<close>.\<close>

lemma bit_or_mask_1:
  "bit (w OR 2 ^ n :: 'a::len word) m \<longleftrightarrow> bit w m \<or> (m = n \<and> m < LENGTH('a))"
  by (auto simp: bit_simps)

lemma bit_and_not_mask_1:
  "bit (w AND NOT (2 ^ n) :: 'a::len word) m \<longleftrightarrow> bit w m \<and> m \<noteq> n"
  using bit_imp_le_length by (auto simp: bit_simps)

text \<open>Rounding down to a multiple of a power of two with a mask.\<close>

lemma unat_and_not_mask:
  "unat (a AND NOT (mask k) :: 'a::len word) = unat a div 2 ^ k * 2 ^ k"
proof -
  have "a AND NOT (mask k) = push_bit k (drop_bit k a)"
    using bit_imp_le_length [of a] by (auto intro!: bit_word_eqI simp: bit_simps)
  moreover have "unat a div 2 ^ k * 2 ^ k < 2 ^ LENGTH('a)"
    using unsigned_less [of a] by (rule order.strict_trans1 [rotated]) simp
  ultimately show ?thesis
    by (simp only: unsigned_push_bit_eq unat_drop_bit_eq)
       (simp add: push_bit_eq_mult drop_bit_eq_div take_bit_eq_mod)
qed

section \<open>Byte and bit positions\<close>

lemma div_mod_8_eq_iff: "m div 8 = n div 8 \<and> m mod 8 = n mod 8 \<longleftrightarrow> m = (n :: nat)"
  by (metis div_mult_mod_eq)

section \<open>First match in an interval\<close>

lemma find_upt_Cons:
  "a < c \<Longrightarrow> find P [a..<c] = (if P a then Some a else find P [Suc a..<c])"
  by (simp add: upt_conv_Cons)

lemma find_upt_skip:
  assumes "a \<le> b" and "\<And>x. a \<le> x \<Longrightarrow> x < b \<Longrightarrow> \<not> P x"
  shows "find P [a..<c] = find P [b..<c]"
  using assms
proof (induction b rule: dec_induct)
  case base
  show ?case by simp
next
  case (step n)
  then have "find P [a..<c] = find P [n..<c]" by simp
  also have "\<dots> = find P [Suc n..<c]"
    using step by (cases "n < c") (auto simp: find_upt_Cons)
  finally show ?case .
qed

lemma find_upt_SomeD:
  "find P [a..<c] = Some n \<Longrightarrow> a \<le> n \<and> n < c \<and> P n \<and> (\<forall>m. a \<le> m \<and> m < n \<longrightarrow> \<not> P m)"
  by (fastforce simp: find_Some_iff le_iff_add nth_append)

lemma find_upt_NoneD: "find P [a..<c] = None \<Longrightarrow> a \<le> m \<Longrightarrow> m < c \<Longrightarrow> \<not> P m"
  by (auto simp: find_None_iff)

section \<open>Computations that may not return\<close>

text \<open>
  A computation in the option monad read as a predicate transformer: \<open>wp m Q\<close> says that it
  returns and the result satisfies \<open>Q\<close>, \<open>wlp m Q\<close> that the result satisfies \<open>Q\<close> if it returns.
\<close>

definition wp :: "'a option \<Rightarrow> ('a \<Rightarrow> bool) \<Rightarrow> bool" where
  \<comment> \<open>the computation returns (it meets no dangling pointer) and the result satisfies \<open>Q\<close>\<close>
  "wp m Q \<longleftrightarrow> (case m of Some x \<Rightarrow> Q x | None \<Rightarrow> False)"

lemma wp_Some [step_simps]: "wp (Some x) Q = Q x"
  by (simp add: wp_def)

lemma wp_bind [step_simps]: "wp (Option.bind m f) Q = wp m (\<lambda>x. wp (f x) Q)"
  by (cases m) (simp_all add: wp_def)

lemma wp_map [step_simps]: "wp (map_option f m) Q = wp m (\<lambda>x. Q (f x))"
  by (cases m) (simp_all add: wp_def)

lemma wp_iff: "wp m Q \<longleftrightarrow> (\<exists>x. m = Some x \<and> Q x)"
  by (cases m) (simp_all add: wp_def)

lemma wp_if [step_simps]: "wp (if b then m else m') Q = (if b then wp m Q else wp m' Q)"
  by simp

definition wlp :: "'a option \<Rightarrow> ('a \<Rightarrow> bool) \<Rightarrow> bool" where
  \<comment> \<open>whenever the computation returns, the result satisfies \<open>Q\<close>\<close>
  "wlp m Q \<longleftrightarrow> (\<forall>x. m = Some x \<longrightarrow> Q x)"

lemma wlp_Some [wlp_rules]: "wlp (Some x) Q = Q x"
  by (simp add: wlp_def)

lemma wlp_bind [wlp_rules]: "wlp (Option.bind m f) Q \<longleftrightarrow> (\<forall>x. m = Some x \<longrightarrow> wlp (f x) Q)"
  by (cases m) (simp_all add: wlp_def)

lemma wlp_map [wlp_rules]: "wlp (map_option f m) Q \<longleftrightarrow> (\<forall>x. m = Some x \<longrightarrow> Q (f x))"
  by (cases m) (simp_all add: wlp_def)

lemma wlp_if [wlp_rules]: "wlp (if b then m else m') Q \<longleftrightarrow> (b \<longrightarrow> wlp m Q) \<and> (\<not> b \<longrightarrow> wlp m' Q)"
  by simp

lemma wlp_sum [wlp_rules]: "wlp (case x of Inl a \<Rightarrow> f a | Inr b \<Rightarrow> g b) Q \<longleftrightarrow>
   (\<forall>a. x = Inl a \<longrightarrow> wlp (f a) Q) \<and> (\<forall>b. x = Inr b \<longrightarrow> wlp (g b) Q)"
  by (cases x) simp_all

lemma wlp_option [wlp_rules]: "wlp (case x of None \<Rightarrow> m | Some b \<Rightarrow> g b) Q \<longleftrightarrow>
   (x = None \<longrightarrow> wlp m Q) \<and> (\<forall>b. x = Some b \<longrightarrow> wlp (g b) Q)"
  by (cases x) simp_all

lemma wlpD: "wlp m Q \<Longrightarrow> m = Some x \<Longrightarrow> Q x"
  by (simp add: wlp_def)

lemma wp_mono: "wp m P \<Longrightarrow> (\<And>x. P x \<Longrightarrow> Q x) \<Longrightarrow> wp m Q"
  by (auto simp: wp_iff)

lemma wp_wlp: "wp m P \<Longrightarrow> wlp m Q \<Longrightarrow> (\<And>x. P x \<Longrightarrow> Q x \<Longrightarrow> R x) \<Longrightarrow> wp m R"
  by (auto simp: wp_iff wlp_def)

lemma wlp_mono: "wlp m P \<Longrightarrow> (\<And>x. P x \<Longrightarrow> Q x) \<Longrightarrow> wlp m Q"
  by (auto simp: wlp_def)

end
