(* ===== verification/Pmm.thy ===== *)
theory Pmm
  imports Prelude
begin

text \<open>
  The physical memory manager, \<^verbatim>\<open>src/src/pmm.c\<close>: one bit per 4 KiB frame
  in a byte array, and a counter of free frames. Frame indices are at most
  \<open>65536\<close>, far from the end of \<^verbatim>\<open>uint32_t\<close>, so loop counters are
  \<open>nat\<close>; addresses, sizes and the counter keep their 32 bits. The one index
  computation that can wrap, \<^verbatim>\<open>base + count\<close> in
  \<^verbatim>\<open>pmm_alloc_contiguous\<close>, is written with its wrap-around, and a read of
  the bitmap outside the array is the error value \<open>Bitmap_Out_Of_Bounds\<close>.
\<close>

section \<open>State and constants\<close>

abbreviation (input) PMM_PAGE_SIZE :: u32 where "PMM_PAGE_SIZE \<equiv> 4096"
abbreviation (input) PMM_MAX_BYTES :: u32 where "PMM_MAX_BYTES \<equiv> 268435456"
abbreviation (input) PMM_MAX_FRAMES :: nat where "PMM_MAX_FRAMES \<equiv> 65536"
abbreviation (input) PMM_LOW_FRAMES :: nat where "PMM_LOW_FRAMES \<equiv> 8192"
abbreviation (input) PMM_RESERVED_FLOOR :: u32 where "PMM_RESERVED_FLOOR \<equiv> 1048576"
abbreviation (input) PMM_FIRST_FRAME :: nat where "PMM_FIRST_FRAME \<equiv> 256"

record pmm =
  bitmap :: "u8 list"
  frames_free :: u32

datatype pmm_fault = Bitmap_Out_Of_Bounds

section \<open>Bitmap helpers\<close>

definition bset :: "nat \<Rightarrow> u8 list \<Rightarrow> u8 list" where
  "bset i bm = bm[i div 8 := bm ! (i div 8) OR push_bit (i mod 8) 1]"

definition bclr :: "nat \<Rightarrow> u8 list \<Rightarrow> u8 list" where
  "bclr i bm = bm[i div 8 := bm ! (i div 8) AND NOT (push_bit (i mod 8) 1)]"

definition bget :: "u8 list \<Rightarrow> nat \<Rightarrow> bool" where
  "bget bm i \<longleftrightarrow> drop_bit (i mod 8) (bm ! (i div 8)) AND 1 \<noteq> 0"

definition dec_free :: "u32 \<Rightarrow> u32" where
  \<comment> \<open>\<open>if (frames_free) frames_free--;\<close>\<close>
  "dec_free n = (if n \<noteq> 0 then n - 1 else n)"

definition claim_frame :: "nat \<Rightarrow> pmm \<Rightarrow> pmm" where
  "claim_frame i s = s\<lparr>bitmap := bset i (bitmap s), frames_free := dec_free (frames_free s)\<rparr>"

definition release_frame :: "nat \<Rightarrow> pmm \<Rightarrow> pmm" where
  "release_frame i s = s\<lparr>bitmap := bclr i (bitmap s), frames_free := frames_free s + 1\<rparr>"

section \<open>Marking ranges\<close>

definition mark_frame :: "bool \<Rightarrow> nat \<Rightarrow> pmm \<Rightarrow> pmm" where
  "mark_frame used i s =
     (let was = bget (bitmap s) i in
      if used then (if \<not> was then claim_frame i s else s)
      else (if was then release_frame i s else s))"

function mark_loop :: "bool \<Rightarrow> nat \<Rightarrow> nat \<Rightarrow> pmm \<Rightarrow> pmm" where
  "mark_loop used i e s =
     (if i < e then mark_loop used (Suc i) e (mark_frame used i s) else s)"
  by pat_completeness auto
termination
  by (relation "measure (\<lambda>(used, i, e, s). e - i)") auto

definition mark_range_end :: "u32 \<Rightarrow> u32 \<Rightarrow> u32" where
  \<comment> \<open>steps 2 and 3: the exclusive end frame, with both overflow checks and the clamp\<close>
  "mark_range_end phys sz =
     (let max_frames = of_nat PMM_MAX_FRAMES;
          e = (if sz > 0xFFFFFFFF - phys then max_frames
               else let phys_end = phys + sz in
                 if phys_end > 0xFFFFFFFF - PMM_PAGE_SIZE + 1 then max_frames
                 else (phys_end + PMM_PAGE_SIZE - 1) div PMM_PAGE_SIZE)
      in if e > max_frames then max_frames else e)"

definition mark_range :: "u32 \<Rightarrow> u32 \<Rightarrow> bool \<Rightarrow> pmm \<Rightarrow> pmm" where
  "mark_range phys sz used s =
     (let start = phys div PMM_PAGE_SIZE in
      if start \<ge> of_nat PMM_MAX_FRAMES then s
      else mark_loop used (unat start) (unat (mark_range_end phys sz)) s)"

definition pmm_mark_used :: "u32 \<Rightarrow> u32 \<Rightarrow> pmm \<Rightarrow> pmm" where
  "pmm_mark_used phys sz s = mark_range phys sz True s"

definition pmm_mark_free :: "u32 \<Rightarrow> u32 \<Rightarrow> pmm \<Rightarrow> pmm" where
  "pmm_mark_free phys sz s = mark_range phys sz False s"

definition pmm_total_frames :: "pmm \<Rightarrow> u32" where
  "pmm_total_frames s = of_nat PMM_MAX_FRAMES"

definition pmm_free_frames :: "pmm \<Rightarrow> u32" where
  "pmm_free_frames s = frames_free s"

section \<open>Allocation and release\<close>

function pmm_alloc_from :: "nat \<Rightarrow> pmm \<Rightarrow> u32 \<times> pmm" where
  "pmm_alloc_from i s =
     (if i < PMM_MAX_FRAMES then
        if \<not> bget (bitmap s) i then
          if of_nat i * PMM_PAGE_SIZE < PMM_RESERVED_FLOOR then pmm_alloc_from (Suc i) s
          else (of_nat i * PMM_PAGE_SIZE, claim_frame i s)
        else pmm_alloc_from (Suc i) s
      else (0, s))"
  by pat_completeness auto
termination
  by (relation "measure (\<lambda>(i, s). PMM_MAX_FRAMES - i)") auto

definition pmm_alloc :: "pmm \<Rightarrow> u32 \<times> pmm" where
  "pmm_alloc s = pmm_alloc_from 0 s"

function pmm_alloc_low_from :: "nat \<Rightarrow> pmm \<Rightarrow> u32 \<times> pmm" where
  "pmm_alloc_low_from i s =
     (if i < PMM_LOW_FRAMES then
        if \<not> bget (bitmap s) i then (of_nat i * PMM_PAGE_SIZE, claim_frame i s)
        else pmm_alloc_low_from (Suc i) s
      else (0, s))"
  by pat_completeness auto
termination
  by (relation "measure (\<lambda>(i, s). PMM_LOW_FRAMES - i)") auto

definition pmm_alloc_low :: "pmm \<Rightarrow> u32 \<times> pmm" where
  "pmm_alloc_low s = pmm_alloc_low_from PMM_FIRST_FRAME s"

text \<open>
  The inner \<^verbatim>\<open>while\<close> of \<^verbatim>\<open>pmm_alloc_contiguous\<close>: how many frames from
  \<open>base\<close> on are free, up to \<open>count\<close>. The index of the read is the 32-bit sum.
\<close>

function free_run :: "u8 list \<Rightarrow> u32 \<Rightarrow> nat \<Rightarrow> nat \<Rightarrow> pmm_fault + nat" where
  "free_run bm count base run =
     (if run < unat count then
        if base + run \<ge> PMM_MAX_FRAMES then Inl Bitmap_Out_Of_Bounds
        else if \<not> bget bm (base + run) then free_run bm count base (Suc run)
        else Inr run
      else Inr run)"
  by pat_completeness auto
termination
  by (relation "measure (\<lambda>(bm, count, base, run). unat count - run)") auto

declare free_run.simps [simp del]

fun claim_run :: "nat \<Rightarrow> nat \<Rightarrow> pmm \<Rightarrow> pmm" where
  "claim_run base 0 s = s"
| "claim_run base (Suc k) s = claim_frame (base + k) (claim_run base k s)"

lemma free_run_lower: "free_run bm count base run = Inr r \<Longrightarrow> run \<le> r"
proof (induction bm count base run rule: free_run.induct)
  case (1 bm count base run)
  then show ?case
    by (auto simp: free_run.simps [of bm count base run] split: if_splits)
qed

lemma free_run_in_range:
  "free_run bm count base run = Inr r \<Longrightarrow> r \<noteq> unat count \<Longrightarrow> run \<le> unat count \<Longrightarrow>
   base + r < PMM_MAX_FRAMES"
proof (induction bm count base run rule: free_run.induct)
  case (1 bm count base run)
  then show ?case
    by (auto simp: free_run.simps [of bm count base run] split: if_splits)
qed

function contig_from :: "u32 \<Rightarrow> nat \<Rightarrow> pmm \<Rightarrow> pmm_fault + u32 \<times> pmm" where
  "contig_from count base s =
     (if (base + unat count) mod 4294967296 \<le> PMM_MAX_FRAMES then
        case free_run (bitmap s) count base 0 of
          Inl e \<Rightarrow> Inl e
        | Inr run \<Rightarrow>
            if run = unat count then
              Inr (of_nat base * PMM_PAGE_SIZE, claim_run base (unat count) s)
            else contig_from count (base + run + 1) s
      else Inr (0, s))"
  by pat_completeness auto
termination
  by (relation "measure (\<lambda>(count, base, s). PMM_MAX_FRAMES - base)")
     (auto dest: free_run_in_range)

definition pmm_alloc_contiguous :: "u32 \<Rightarrow> pmm \<Rightarrow> pmm_fault + u32 \<times> pmm" where
  "pmm_alloc_contiguous count s =
     (if count = 0 then Inr (0, s)
      else if count = 1 then Inr (pmm_alloc s)
      else contig_from count PMM_FIRST_FRAME s)"

definition pmm_free :: "u32 \<Rightarrow> pmm \<Rightarrow> pmm" where
  "pmm_free phys s =
     (if phys = 0 then s
      else if phys AND (PMM_PAGE_SIZE - 1) \<noteq> 0 then s
      else let i = unat (phys div PMM_PAGE_SIZE) in
        if phys < PMM_RESERVED_FLOOR then s
        else if i \<ge> PMM_MAX_FRAMES then s
        else if \<not> bget (bitmap s) i then s
        else release_frame i s)"

declare mark_loop.simps [simp del] pmm_alloc_from.simps [simp del]
  pmm_alloc_low_from.simps [simp del] contig_from.simps [simp del]

section \<open>The set of free frames and the invariant\<close>

definition free_set :: "pmm \<Rightarrow> nat set" where
  "free_set s = {i. i < PMM_MAX_FRAMES \<and> \<not> bget (bitmap s) i}"

definition pmm_inv :: "pmm \<Rightarrow> bool" where
  "pmm_inv s \<longleftrightarrow>
     length (bitmap s) = PMM_MAX_FRAMES div 8 \<and> unat (frames_free s) = card (free_set s)"

definition frame_addr :: "nat \<Rightarrow> u32" where
  "frame_addr n = of_nat n * PMM_PAGE_SIZE"

lemma bget_bit: "bget bm i \<longleftrightarrow> bit (bm ! (i div 8)) (i mod 8)"
  by (simp add: bget_def drop_bit_and_1_iff)

lemma length_bset [simp]: "length (bset i bm) = length bm"
  by (simp add: bset_def)

lemma length_bclr [simp]: "length (bclr i bm) = length bm"
  by (simp add: bclr_def)

lemma bget_bset: "i div 8 < length bm \<Longrightarrow> bget (bset i bm) j \<longleftrightarrow> bget bm j \<or> j = i"
  using div_mod_8_eq_iff [of j i]
  by (auto simp: bget_bit bset_def bit_or_mask_1 nth_list_update)

lemma bget_bclr: "i div 8 < length bm \<Longrightarrow> bget (bclr i bm) j \<longleftrightarrow> bget bm j \<and> j \<noteq> i"
  using div_mod_8_eq_iff [of j i]
  by (auto simp: bget_bit bclr_def bit_and_not_mask_1 nth_list_update)

lemma finite_free_set [simp]: "finite (free_set s)"
  by (simp add: free_set_def)

lemma free_set_bound: "i \<in> free_set s \<Longrightarrow> i < PMM_MAX_FRAMES"
  by (simp add: free_set_def)

lemma card_free_set: "card (free_set s) \<le> PMM_MAX_FRAMES"
  using card_mono [of "{..<PMM_MAX_FRAMES}" "free_set s"] by (auto simp: free_set_def)

lemma pmm_inv_length: "pmm_inv s \<Longrightarrow> length (bitmap s) = 8192"
  by (simp add: pmm_inv_def)

lemma free_set_claim:
  "length (bitmap s) = 8192 \<Longrightarrow> i < PMM_MAX_FRAMES \<Longrightarrow>
   free_set (claim_frame i s) = free_set s - {i}"
  by (auto simp: free_set_def claim_frame_def bget_bset)

lemma free_set_release:
  "length (bitmap s) = 8192 \<Longrightarrow> i < PMM_MAX_FRAMES \<Longrightarrow>
   free_set (release_frame i s) = insert i (free_set s)"
  by (auto simp: free_set_def release_frame_def bget_bclr)

lemma pmm_inv_claim [inv_intros]:
  assumes "pmm_inv s" and "i \<in> free_set s"
  shows "pmm_inv (claim_frame i s)"
proof -
  have i: "i < PMM_MAX_FRAMES" and len: "length (bitmap s) = 8192"
    using assms by (auto simp: free_set_def pmm_inv_def)
  have "card (free_set s) > 0"
    using assms(2) by (auto simp: card_gt_0_iff)
  then have "frames_free s \<noteq> 0"
    using assms(1) by (auto simp: pmm_inv_def)
  then have "unat (frames_free (claim_frame i s)) = card (free_set (claim_frame i s))"
    using assms i len free_set_claim [OF len i]
    by (simp add: pmm_inv_def claim_frame_def dec_free_def unat_u32_dec)
  with len show ?thesis
    by (simp add: pmm_inv_def claim_frame_def)
qed

lemma pmm_inv_release [inv_intros]:
  assumes "pmm_inv s" and "i < PMM_MAX_FRAMES" and "i \<notin> free_set s"
  shows "pmm_inv (release_frame i s)"
proof -
  have len: "length (bitmap s) = 8192"
    using assms by (simp add: pmm_inv_def)
  have "unat (frames_free s) \<le> PMM_MAX_FRAMES"
    using assms(1) card_free_set by (simp add: pmm_inv_def)
  then have "unat (frames_free (release_frame i s)) = card (free_set (release_frame i s))"
    using assms len free_set_release [OF len assms(2)]
    by (simp add: pmm_inv_def release_frame_def unat_u32_inc)
  with len show ?thesis
    by (simp add: pmm_inv_def release_frame_def)
qed

lemma length_claim [simp]: "length (bitmap (claim_frame i s)) = length (bitmap s)"
  by (simp add: claim_frame_def)

lemma length_release [simp]: "length (bitmap (release_frame i s)) = length (bitmap s)"
  by (simp add: release_frame_def)

section \<open>Marking a range\<close>

lemma mark_frame_facts:
  assumes "length (bitmap s) = 8192" and "i < PMM_MAX_FRAMES"
  shows length_mark_frame: "length (bitmap (mark_frame used i s)) = 8192"
    and free_set_mark_frame:
      "free_set (mark_frame used i s) = (if used then free_set s - {i} else insert i (free_set s))"
  using assms
  by (auto simp: mark_frame_def Let_def free_set_claim free_set_release)
     (auto simp: free_set_def)

lemma pmm_inv_mark_frame:
  "pmm_inv s \<Longrightarrow> i < PMM_MAX_FRAMES \<Longrightarrow> pmm_inv (mark_frame used i s)"
  by (auto simp: mark_frame_def Let_def free_set_def intro!: inv_intros)

lemma free_set_mark_loop:
  "length (bitmap s) = 8192 \<Longrightarrow> e \<le> PMM_MAX_FRAMES \<Longrightarrow>
   free_set (mark_loop used i e s) =
     (if used then free_set s - {i..<e} else free_set s \<union> {i..<e})"
proof (induction used i e s rule: mark_loop.induct)
  case (1 used i e s)
  show ?case
  proof (cases "i < e")
    case True
    then have i: "i < PMM_MAX_FRAMES" using 1 by simp
    have "{i..<e} = insert i {Suc i..<e}" using True by auto
    then show ?thesis
      using 1 True i mark_frame_facts [OF "1.prems"(1) i, of used]
      by (auto simp: mark_loop.simps [of used i e s])
  next
    case False
    then show ?thesis by (simp add: mark_loop.simps [of used i e s])
  qed
qed

lemma pmm_inv_mark_loop:
  "pmm_inv s \<Longrightarrow> e \<le> PMM_MAX_FRAMES \<Longrightarrow> pmm_inv (mark_loop used i e s)"
proof (induction used i e s rule: mark_loop.induct)
  case (1 used i e s)
  then show ?case
    by (cases "i < e") (auto simp: mark_loop.simps [of used i e s] pmm_inv_mark_frame)
qed

lemma unat_mark_range_end:
  "unat (mark_range_end phys sz) = min PMM_MAX_FRAMES ((unat phys + unat sz + 4095) div 4096)"
proof (cases "sz > 0xFFFFFFFF - phys")
  case True
  then have "unat phys + unat sz \<ge> 4294967296"
    by (simp add: word_less_nat_alt unat_u32_max_minus)
  with True show ?thesis by (simp add: mark_range_end_def)
next
  case False
  then have sum: "unat phys + unat sz < 4294967296"
    using unat_u32_less [of phys]
    by (simp add: word_less_nat_alt unat_u32_max_minus del: unat_u32_less)
  then have ua: "unat (phys + sz) = unat phys + unat sz"
    by (rule unat_u32_add_no_wrap)
  show ?thesis
  proof (cases "phys + sz > 0xFFFFFFFF - PMM_PAGE_SIZE + 1")
    case True
    then have "unat phys + unat sz > 4294963200"
      by (simp add: word_less_nat_alt ua)
    with True False show ?thesis by (simp add: mark_range_end_def Let_def)
  next
    case False2: False
    then have le: "unat phys + unat sz \<le> 4294963200"
      by (simp add: word_less_nat_alt ua)
    have "phys + sz + PMM_PAGE_SIZE - 1 = phys + sz + 4095" by simp
    then have "unat (phys + sz + PMM_PAGE_SIZE - 1) = unat phys + unat sz + 4095"
      using le unat_u32_add_no_wrap [of "phys + sz" 4095] by (simp only: ua) simp
    then have "unat ((phys + sz + PMM_PAGE_SIZE - 1) div PMM_PAGE_SIZE) =
        (unat phys + unat sz + 4095) div 4096"
      by (simp add: unat_div)
    with False False2 show ?thesis
      by (simp add: mark_range_end_def Let_def word_less_nat_alt min_def)
  qed
qed

definition range_frames :: "u32 \<Rightarrow> u32 \<Rightarrow> nat set" where
  "range_frames phys sz =
     {n. n < PMM_MAX_FRAMES \<and> unat phys div 4096 \<le> n \<and> n * 4096 < unat phys + unat sz}"

lemma free_set_mark_range:
  assumes "length (bitmap s) = 8192"
  shows "free_set (mark_range phys sz used s) =
     (if used then free_set s - range_frames phys sz else free_set s \<union> range_frames phys sz)"
proof (cases "unat phys div 4096 < PMM_MAX_FRAMES")
  case True
  have "{unat phys div 4096..<min PMM_MAX_FRAMES ((unat phys + unat sz + 4095) div 4096)} =
      range_frames phys sz"
    by (auto simp: range_frames_def)
  with True assms show ?thesis
    by (simp add: mark_range_def word_le_nat_alt unat_div free_set_mark_loop unat_mark_range_end)
next
  case False
  then have "range_frames phys sz = {}"
    by (auto simp: range_frames_def)
  with False show ?thesis
    by (simp add: mark_range_def word_le_nat_alt unat_div)
qed

lemma pmm_inv_mark_range [inv_intros]: "pmm_inv s \<Longrightarrow> pmm_inv (mark_range phys sz used s)"
  by (simp add: mark_range_def Let_def pmm_inv_mark_loop unat_mark_range_end)

section \<open>First fit\<close>

definition first_free :: "nat set \<Rightarrow> nat \<Rightarrow> nat \<Rightarrow> nat option" where
  "first_free F lo hi = find (\<lambda>n. n \<in> F) [lo..<hi]"

definition first_run :: "nat set \<Rightarrow> nat \<Rightarrow> nat \<Rightarrow> nat option" where
  "first_run F c lo = find (\<lambda>b. {b..<b + c} \<subseteq> F) [lo..<PMM_MAX_FRAMES + 1 - c]"

lemma unat_frame_addr: "n < PMM_MAX_FRAMES \<Longrightarrow> unat (frame_addr n) = n * 4096"
  by (simp add: frame_addr_def unat_u32_mult_of_nat)

lemma frame_addr_floor: "n < PMM_MAX_FRAMES \<Longrightarrow> frame_addr n < PMM_RESERVED_FLOOR \<longleftrightarrow> n < 256"
  by (simp add: word_less_nat_alt unat_frame_addr)

lemma pmm_alloc_from_first_free:
  "pmm_alloc_from i s =
     (case first_free (free_set s) (max i 256) PMM_MAX_FRAMES of
        None \<Rightarrow> (0, s) | Some n \<Rightarrow> (frame_addr n, claim_frame n s))"
proof (induction i s rule: pmm_alloc_from.induct)
  case (1 i s)
  show ?case
  proof (cases "i < PMM_MAX_FRAMES")
    case True
    have fl: "(of_nat i * PMM_PAGE_SIZE < PMM_RESERVED_FLOOR) = (i < 256)"
      using frame_addr_floor [OF True] by (simp add: frame_addr_def)
    show ?thesis
    proof (cases "i < 256")
      case True
      with "1.IH" fl show ?thesis
        by (auto simp: pmm_alloc_from.simps [of i s] max_def split: if_splits)
    next
      case False
      then have "first_free (free_set s) i PMM_MAX_FRAMES =
          (if i \<in> free_set s then Some i else first_free (free_set s) (Suc i) PMM_MAX_FRAMES)"
        using True by (simp add: first_free_def find_upt_Cons)
      with "1.IH" fl False True show ?thesis
        by (auto simp: pmm_alloc_from.simps [of i s] max_def free_set_def frame_addr_def)
    qed
  next
    case False
    then show ?thesis
      by (simp add: pmm_alloc_from.simps [of i s] first_free_def)
  qed
qed

lemma pmm_alloc_first_free:
  "pmm_alloc s =
     (case first_free (free_set s) 256 PMM_MAX_FRAMES of
        None \<Rightarrow> (0, s) | Some n \<Rightarrow> (frame_addr n, claim_frame n s))"
  by (simp add: pmm_alloc_def pmm_alloc_from_first_free)

lemma pmm_alloc_low_from_first_free:
  "pmm_alloc_low_from i s =
     (case first_free (free_set s) i PMM_LOW_FRAMES of
        None \<Rightarrow> (0, s) | Some n \<Rightarrow> (frame_addr n, claim_frame n s))"
proof (induction i s rule: pmm_alloc_low_from.induct)
  case (1 i s)
  show ?case
  proof (cases "i < PMM_LOW_FRAMES")
    case True
    then have "first_free (free_set s) i PMM_LOW_FRAMES =
        (if i \<in> free_set s then Some i else first_free (free_set s) (Suc i) PMM_LOW_FRAMES)"
      by (simp add: first_free_def find_upt_Cons)
    with "1.IH" True show ?thesis
      by (auto simp: pmm_alloc_low_from.simps [of i s] free_set_def frame_addr_def)
  next
    case False
    then show ?thesis
      by (simp add: pmm_alloc_low_from.simps [of i s] first_free_def)
  qed
qed

lemma pmm_alloc_low_first_free:
  "pmm_alloc_low s =
     (case first_free (free_set s) 256 PMM_LOW_FRAMES of
        None \<Rightarrow> (0, s) | Some n \<Rightarrow> (frame_addr n, claim_frame n s))"
  by (simp add: pmm_alloc_low_def pmm_alloc_low_from_first_free)

section \<open>Contiguous runs\<close>

lemma free_run_spec:
  "base + unat count \<le> PMM_MAX_FRAMES \<Longrightarrow> run \<le> unat count \<Longrightarrow>
   \<exists>r. free_run bm count base run = Inr r \<and> run \<le> r \<and> r \<le> unat count \<and>
     (\<forall>k. run \<le> k \<and> k < r \<longrightarrow> \<not> bget bm (base + k)) \<and>
     (r < unat count \<longrightarrow> bget bm (base + r))"
proof (induction bm count base run rule: free_run.induct)
  case (1 bm count base run)
  show ?case
  proof (cases "run < unat count \<and> \<not> bget bm (base + run)")
    case True
    then obtain r where "free_run bm count base (Suc run) = Inr r" "Suc run \<le> r" "r \<le> unat count"
      "\<forall>k. Suc run \<le> k \<and> k < r \<longrightarrow> \<not> bget bm (base + k)"
      "r < unat count \<longrightarrow> bget bm (base + r)"
      using 1 by fastforce
    moreover have "\<forall>k. run \<le> k \<and> k < r \<longrightarrow> \<not> bget bm (base + k)"
      using calculation True by (metis Suc_leI le_neq_implies_less)
    ultimately show ?thesis
      using True "1.prems" by (auto simp: free_run.simps [of bm count base run])
  next
    case False
    with "1.prems" show ?thesis by (auto simp: free_run.simps [of bm count base run])
  qed
qed

lemma first_run_skip:
  assumes "r < c" and "b + r \<notin> F"
  shows "first_run F c b = first_run F c (b + r + 1)"
  unfolding first_run_def
proof (rule find_upt_skip)
  fix x assume "b \<le> x" and "x < b + r + 1"
  then have "b + r \<in> {x..<x + c}" using assms by simp
  then show "\<not> {x..<x + c} \<subseteq> F" using assms by blast
qed simp

lemma contig_from_first_run:
  assumes "0 < unat count" and "unat count \<le> PMM_MAX_FRAMES" and "base \<le> PMM_MAX_FRAMES"
  shows "contig_from count base s = Inr
     (case first_run (free_set s) (unat count) base of
        None \<Rightarrow> (0, s) | Some b \<Rightarrow> (frame_addr b, claim_run b (unat count) s))"
  using assms
proof (induction count base s rule: contig_from.induct)
  case (1 count base s)
  show ?case
  proof (cases "base + unat count \<le> PMM_MAX_FRAMES")
    case True
    obtain r where r: "free_run (bitmap s) count base 0 = Inr r" "r \<le> unat count"
      "\<forall>k. k < r \<longrightarrow> \<not> bget (bitmap s) (base + k)"
      "r < unat count \<longrightarrow> bget (bitmap s) (base + r)"
      using free_run_spec [OF True, of 0 "bitmap s"] by auto
    show ?thesis
    proof (cases "r = unat count")
      case full: True
      have "{base..<base + unat count} \<subseteq> free_set s"
      proof
        fix x assume "x \<in> {base..<base + unat count}"
        then have "x = base + (x - base)" "x - base < r" "x < PMM_MAX_FRAMES"
          using full True by auto
        then show "x \<in> free_set s" using r(3) by (metis (mono_tags, lifting) free_set_def mem_Collect_eq)
      qed
      then have "first_run (free_set s) (unat count) base = Some base"
        using True by (simp add: first_run_def find_upt_Cons)
      with r full True show ?thesis
        by (simp add: contig_from.simps [of count base s] frame_addr_def)
    next
      case False
      then have lt: "r < unat count" using r by simp
      then have "base + r \<notin> free_set s" using r by (simp add: free_set_def)
      then have skip: "first_run (free_set s) (unat count) base =
          first_run (free_set s) (unat count) (base + r + 1)"
        by (rule first_run_skip [OF lt])
      have g: "(base + unat count) mod 4294967296 \<le> PMM_MAX_FRAMES" using True by simp
      have "base + r + 1 \<le> PMM_MAX_FRAMES" using lt True by simp
      with "1.IH" [OF g r(1) False] "1.prems" skip r False g show ?thesis
        by (simp add: contig_from.simps [of count base s])
    qed
  next
    case False
    then have "first_run (free_set s) (unat count) base = None"
      by (simp add: first_run_def)
    with False "1.prems" show ?thesis
      by (simp add: contig_from.simps [of count base s])
  qed
qed

lemma length_claim_run [simp]: "length (bitmap (claim_run b k s)) = length (bitmap s)"
  by (induction k) auto

lemma free_set_claim_run:
  "length (bitmap s) = 8192 \<Longrightarrow> b + k \<le> PMM_MAX_FRAMES \<Longrightarrow>
   free_set (claim_run b k s) = free_set s - {b..<b + k}"
proof (induction k)
  case (Suc k)
  then have lt: "b + k < PMM_MAX_FRAMES" by linarith
  have len: "length (bitmap (claim_run b k s)) = 8192" using Suc.prems by simp
  have "free_set (claim_run b (Suc k) s) = free_set (claim_run b k s) - {b + k}"
    using free_set_claim [OF len lt] by simp
  also have "\<dots> = free_set s - {b..<b + k} - {b + k}"
    using Suc.IH [OF Suc.prems(1)] lt by simp
  also have "\<dots> = free_set s - {b..<b + Suc k}"
    by auto
  finally show ?case .
qed simp

lemma pmm_inv_claim_run:
  "pmm_inv s \<Longrightarrow> b + k \<le> PMM_MAX_FRAMES \<Longrightarrow> {b..<b + k} \<subseteq> free_set s \<Longrightarrow>
   pmm_inv (claim_run b k s)"
proof (induction k)
  case (Suc k)
  have le: "b + k \<le> PMM_MAX_FRAMES" using Suc.prems(2) by linarith
  have sub: "{b..<b + k} \<subseteq> free_set s" and el: "b + k \<in> free_set s"
    using Suc.prems(3) by (auto simp: atLeastLessThanSuc)
  have "b + k \<in> free_set (claim_run b k s)"
    using el by (simp add: free_set_claim_run [OF pmm_inv_length [OF Suc.prems(1)] le])
  then show ?case
    using Suc.IH [OF Suc.prems(1) le sub] by (simp add: pmm_inv_claim)
qed simp

section \<open>Invariant preservation and release\<close>

lemma first_freeD:
  assumes "first_free F lo hi = Some n"
  shows "n \<in> F" and "lo \<le> n" and "n < hi" and "\<And>m. lo \<le> m \<Longrightarrow> m < n \<Longrightarrow> m \<notin> F"
  using assms by (auto simp: first_free_def dest!: find_upt_SomeD)

lemma first_free_NoneD: "first_free F lo hi = None \<Longrightarrow> lo \<le> m \<Longrightarrow> m < hi \<Longrightarrow> m \<notin> F"
  by (auto simp: first_free_def dest: find_upt_NoneD)

lemma first_runD:
  assumes "first_run F c lo = Some b"
  shows "{b..<b + c} \<subseteq> F" and "lo \<le> b" and "b + c \<le> PMM_MAX_FRAMES"
    and "\<And>m. lo \<le> m \<Longrightarrow> m < b \<Longrightarrow> \<not> {m..<m + c} \<subseteq> F"
  using find_upt_SomeD [OF assms [unfolded first_run_def]] by (simp, simp, linarith, simp)

lemma first_run_NoneD:
  assumes "first_run F c lo = None" and "lo \<le> b" and "b + c \<le> PMM_MAX_FRAMES"
  shows "\<not> {b..<b + c} \<subseteq> F"
  using find_upt_NoneD [OF assms(1) [unfolded first_run_def] assms(2)] assms(3) by simp

lemma pmm_inv_alloc [inv_intros]: "pmm_inv s \<Longrightarrow> pmm_inv (snd (pmm_alloc s))"
  by (auto simp: pmm_alloc_first_free split: option.split intro!: inv_intros dest: first_freeD)

lemma pmm_inv_alloc_low [inv_intros]: "pmm_inv s \<Longrightarrow> pmm_inv (snd (pmm_alloc_low s))"
  by (auto simp: pmm_alloc_low_first_free split: option.split intro!: inv_intros dest: first_freeD)

definition page_addr :: "u32 \<Rightarrow> bool" where
  \<comment> \<open>the addresses the allocator manages: page-aligned, from 1 MiB to 256 MiB\<close>
  "page_addr p \<longleftrightarrow> PMM_RESERVED_FLOOR \<le> p \<and> p < PMM_MAX_BYTES \<and> p AND (PMM_PAGE_SIZE - 1) = 0"

lemma and_page_mask: "unat (p AND 4095 :: u32) = unat p mod 4096"
proof -
  have "p AND 4095 = take_bit 12 p"
    by (simp add: take_bit_eq_mask mask_eq_exp_minus_1)
  then show ?thesis
    by (simp add: take_bit_eq_mod unat_mod)
qed

lemma page_aligned_iff: "p AND 4095 = 0 \<longleftrightarrow> unat (p :: u32) mod 4096 = 0"
  by (metis and_page_mask unat_eq_zero)

lemma page_addr_frame: "page_addr p \<longleftrightarrow> (\<exists>n. 256 \<le> n \<and> n < PMM_MAX_FRAMES \<and> p = frame_addr n)"
proof
  assume "page_addr p"
  then have b: "1048576 \<le> unat p" "unat p < 268435456" "unat p mod 4096 = 0"
    by (auto simp: page_addr_def word_le_nat_alt word_less_nat_alt page_aligned_iff)
  let ?n = "unat p div 4096"
  have n: "256 \<le> ?n" "?n < PMM_MAX_FRAMES" using b by auto
  have "unat (frame_addr ?n) = unat p" using n b by (simp add: unat_frame_addr mod_0_imp_dvd)
  then have "p = frame_addr ?n" by (simp add: word_unat_eq_iff)
  with n show "\<exists>n. 256 \<le> n \<and> n < PMM_MAX_FRAMES \<and> p = frame_addr n" by blast
next
  assume "\<exists>n. 256 \<le> n \<and> n < PMM_MAX_FRAMES \<and> p = frame_addr n"
  then show "page_addr p"
    by (auto simp: page_addr_def word_le_nat_alt word_less_nat_alt page_aligned_iff unat_frame_addr)
qed

lemma frame_addr_inject:
  "m < PMM_MAX_FRAMES \<Longrightarrow> n < PMM_MAX_FRAMES \<Longrightarrow> frame_addr m = frame_addr n \<longleftrightarrow> m = n"
  using unat_frame_addr by (metis mult_right_cancel zero_neq_numeral)

lemma frame_addr_nonzero: "256 \<le> n \<Longrightarrow> n < PMM_MAX_FRAMES \<Longrightarrow> frame_addr n \<noteq> 0"
  using unat_frame_addr [of n] by auto

lemma pmm_free_page:
  assumes "page_addr p"
  shows "pmm_free p s =
    (if unat p div 4096 \<in> free_set s then s else release_frame (unat p div 4096) s)"
proof -
  have b: "p \<noteq> 0" "\<not> p < PMM_RESERVED_FLOOR" "p AND (PMM_PAGE_SIZE - 1) = 0"
    "unat p div 4096 < PMM_MAX_FRAMES"
    using assms by (auto simp: page_addr_def word_less_nat_alt word_le_nat_alt)
  then show ?thesis
    by (simp add: pmm_free_def Let_def unat_div free_set_def)
qed

lemma pmm_free_not_page: "\<not> page_addr p \<Longrightarrow> pmm_free p s = s"
  by (auto simp: pmm_free_def page_addr_def Let_def unat_div word_less_nat_alt word_le_nat_alt)

lemma pmm_inv_free [inv_intros]: "pmm_inv s \<Longrightarrow> pmm_inv (pmm_free p s)"
proof (cases "page_addr p")
  case True
  then have "unat p div 4096 < PMM_MAX_FRAMES"
    by (auto simp: page_addr_def word_less_nat_alt)
  then show "pmm_inv s \<Longrightarrow> ?thesis"
    using True by (auto simp: pmm_free_page intro!: inv_intros)
qed (simp add: pmm_free_not_page)

section \<open>The frame allocator interface\<close>

text \<open>
  What a client of the allocator (the RAM filesystem, task creation, the pipe code) relies
  on: an allocation hands out a page that was available and is no longer, or leaves the
  state alone and answers 0; a release makes exactly that page available again. The lemmas
  of the locale are about a client that owns a set of pages \<open>H\<close>, none of them available.
\<close>

locale frame_allocator =
  fixes alloc :: "'s \<Rightarrow> u32 \<times> 's"
    and free :: "u32 \<Rightarrow> 's \<Rightarrow> 's"
    and avail :: "'s \<Rightarrow> u32 set"
    and inv :: "'s \<Rightarrow> bool"
  assumes alloc_takes:
      "inv s \<Longrightarrow> alloc s = (p, s') \<Longrightarrow> p \<noteq> 0 \<Longrightarrow> p \<in> avail s \<and> avail s' = avail s - {p}"
    and alloc_fails: "inv s \<Longrightarrow> alloc s = (0, s') \<Longrightarrow> s' = s"
    and alloc_inv: "inv s \<Longrightarrow> inv (snd (alloc s))"
    and free_gives: "inv s \<Longrightarrow> page_addr p \<Longrightarrow> avail (free p s) = insert p (avail s)"
    and free_ignores: "\<not> page_addr p \<Longrightarrow> free p s = s"
    and free_inv: "inv s \<Longrightarrow> inv (free p s)"
    and avail_page: "inv s \<Longrightarrow> p \<in> avail s \<Longrightarrow> page_addr p"
begin

lemma alloc_page: "inv s \<Longrightarrow> alloc s = (p, s') \<Longrightarrow> p \<noteq> 0 \<Longrightarrow> page_addr p"
  using alloc_takes avail_page by blast

lemma alloc_inv': "inv s \<Longrightarrow> alloc s = (p, s') \<Longrightarrow> inv s'"
  using alloc_inv [of s] by simp

lemma alloc_fresh: "inv s \<Longrightarrow> alloc s = (p, s') \<Longrightarrow> p \<noteq> 0 \<Longrightarrow> H \<inter> avail s = {} \<Longrightarrow> p \<notin> H"
  using alloc_takes by blast

lemma alloc_owned:
  "inv s \<Longrightarrow> alloc s = (p, s') \<Longrightarrow> p \<noteq> 0 \<Longrightarrow> H \<inter> avail s = {} \<Longrightarrow> insert p H \<inter> avail s' = {}"
  using alloc_takes by blast

lemma alloc_subset: "inv s \<Longrightarrow> alloc s = (p, s') \<Longrightarrow> avail s' \<subseteq> avail s"
  using alloc_takes [of s p s'] alloc_fails [of s s'] by (cases "p = 0") auto

lemma free_owned: "inv s \<Longrightarrow> H \<inter> avail s = {} \<Longrightarrow> p \<notin> H \<Longrightarrow> H \<inter> avail (free p s) = {}"
  using free_gives [of s p] free_ignores [of p s] by (cases "page_addr p") auto

lemma free_alloc_restores:
  assumes "inv s" and "alloc s = (p, s')" and "p \<noteq> 0"
  shows "avail (free p s') = avail s"
  using free_gives [OF alloc_inv' [OF assms(1,2)] alloc_page [OF assms]] alloc_takes [OF assms]
  by auto

lemma alloc_distinct:
  assumes "inv s" and "alloc s = (p, s')" and "alloc s' = (q, s'')" and "p \<noteq> 0" and "q \<noteq> 0"
  shows "p \<noteq> q"
  using alloc_takes [OF assms(1,2,4)] alloc_takes [OF alloc_inv' [OF assms(1,2)] assms(3,5)] by auto

end

definition avail_pages :: "pmm \<Rightarrow> u32 set" where
  "avail_pages s = frame_addr ` {n \<in> free_set s. 256 \<le> n}"

lemma avail_pages_claim:
  assumes "pmm_inv s" and "n \<in> free_set s" and "256 \<le> n"
  shows "frame_addr n \<in> avail_pages s" and "avail_pages (claim_frame n s) = avail_pages s - {frame_addr n}"
  using assms frame_addr_inject
  by (auto simp: avail_pages_def free_set_claim pmm_inv_length free_set_bound)

lemma first_fit_alloc_takes:
  assumes "pmm_inv s" and "p \<noteq> 0" and "hi \<le> PMM_MAX_FRAMES"
    and "(case first_free (free_set s) 256 hi of
            None \<Rightarrow> (0, s) | Some n \<Rightarrow> (frame_addr n, claim_frame n s)) = (p, s')"
  shows "p \<in> avail_pages s \<and> avail_pages s' = avail_pages s - {p}"
proof -
  obtain n where n: "first_free (free_set s) 256 hi = Some n" "p = frame_addr n" "s' = claim_frame n s"
    using assms by (auto split: option.splits)
  with avail_pages_claim [OF assms(1) first_freeD(1,2) [OF n(1)]] show ?thesis by simp
qed

lemma first_fit_alloc_fails:
  assumes "hi \<le> PMM_MAX_FRAMES"
    and "(case first_free (free_set s) 256 hi of
            None \<Rightarrow> (0, s) | Some n \<Rightarrow> (frame_addr n, claim_frame n s)) = (0, s')"
  shows "s' = s"
proof (cases "first_free (free_set s) 256 hi")
  case (Some n)
  then have "frame_addr n \<noteq> 0"
    using first_freeD(2,3) [OF Some] assms(1) by (intro frame_addr_nonzero) auto
  with Some assms(2) show ?thesis by simp
qed (use assms(2) in simp)

lemma avail_pages_release:
  assumes "pmm_inv s" and "page_addr p"
  shows "avail_pages (pmm_free p s) = insert p (avail_pages s)"
proof -
  obtain n where n: "256 \<le> n" "n < PMM_MAX_FRAMES" "p = frame_addr n"
    using assms(2) page_addr_frame by blast
  then have "unat p div 4096 = n" by (simp add: unat_frame_addr)
  with n assms show ?thesis
    by (auto simp: pmm_free_page avail_pages_def free_set_release pmm_inv_length)
qed

lemma avail_pages_page: "p \<in> avail_pages s \<Longrightarrow> page_addr p"
  by (auto simp: avail_pages_def page_addr_frame free_set_def)

interpretation pf: frame_allocator pmm_alloc pmm_free avail_pages pmm_inv
proof
  show "pmm_alloc s = (p, s') \<Longrightarrow> p \<noteq> 0 \<Longrightarrow> p \<in> avail_pages s \<and> avail_pages s' = avail_pages s - {p}"
    if "pmm_inv s" for s p s'
    using first_fit_alloc_takes [OF that, of p PMM_MAX_FRAMES s'] by (simp add: pmm_alloc_first_free)
  show "pmm_alloc s = (0, s') \<Longrightarrow> s' = s" for s s'
    using first_fit_alloc_fails [of PMM_MAX_FRAMES s s'] by (simp add: pmm_alloc_first_free)
qed (rule inv_intros avail_pages_release avail_pages_page pmm_free_not_page; assumption)+

interpretation pl: frame_allocator pmm_alloc_low pmm_free avail_pages pmm_inv
proof
  show "pmm_alloc_low s = (p, s') \<Longrightarrow> p \<noteq> 0 \<Longrightarrow>
      p \<in> avail_pages s \<and> avail_pages s' = avail_pages s - {p}"
    if "pmm_inv s" for s p s'
    using first_fit_alloc_takes [OF that, of p PMM_LOW_FRAMES s']
    by (simp add: pmm_alloc_low_first_free)
  show "pmm_alloc_low s = (0, s') \<Longrightarrow> s' = s" for s s'
    using first_fit_alloc_fails [of PMM_LOW_FRAMES s s'] by (simp add: pmm_alloc_low_first_free)
qed (rule inv_intros avail_pages_release avail_pages_page pmm_free_not_page; assumption)+

section \<open>Sequences of operations\<close>

text \<open>
  Each public function runs with interrupts disabled, so a history of the allocator is a
  list of complete operations. An operation that would read outside the bitmap ends the
  history (\<open>None\<close>).
\<close>

datatype pmm_op =
    Op_mark_used u32 u32
  | Op_mark_free u32 u32
  | Op_alloc
  | Op_alloc_low
  | Op_alloc_contiguous u32
  | Op_free u32

fun pmm_exec :: "pmm_op \<Rightarrow> pmm \<Rightarrow> pmm option" where
  "pmm_exec (Op_mark_used phys sz) s = Some (pmm_mark_used phys sz s)"
| "pmm_exec (Op_mark_free phys sz) s = Some (pmm_mark_free phys sz s)"
| "pmm_exec Op_alloc s = Some (snd (pmm_alloc s))"
| "pmm_exec Op_alloc_low s = Some (snd (pmm_alloc_low s))"
| "pmm_exec (Op_alloc_contiguous c) s =
     (case pmm_alloc_contiguous c s of Inl _ \<Rightarrow> None | Inr (p, s') \<Rightarrow> Some s')"
| "pmm_exec (Op_free phys) s = Some (pmm_free phys s)"

fun pmm_exec_all :: "pmm_op list \<Rightarrow> pmm \<Rightarrow> pmm option" where
  "pmm_exec_all [] s = Some s"
| "pmm_exec_all (x # xs) s = Option.bind (pmm_exec x s) (pmm_exec_all xs)"

fun marks_free :: "pmm_op \<Rightarrow> bool" where
  "marks_free (Op_mark_free _ _) = True"
| "marks_free _ = False"

fun sane_op :: "pmm_op \<Rightarrow> bool" where
  "sane_op (Op_alloc_contiguous c) = (unat c \<le> PMM_MAX_FRAMES)"
| "sane_op _ = True"

definition low_reserved :: "pmm \<Rightarrow> bool" where
  "low_reserved s \<longleftrightarrow> (\<forall>i < PMM_FIRST_FRAME. i \<notin> free_set s)"

lemma pmm_alloc_contiguous_run:
  assumes "unat count \<le> PMM_MAX_FRAMES" and "1 < unat count"
  shows "pmm_alloc_contiguous count s = Inr
     (case first_run (free_set s) (unat count) PMM_FIRST_FRAME of
        None \<Rightarrow> (0, s) | Some b \<Rightarrow> (frame_addr b, claim_run b (unat count) s))"
proof -
  have "count \<noteq> 0" and "count \<noteq> 1" using assms(2) by auto
  then show ?thesis
    using contig_from_first_run [of count PMM_FIRST_FRAME s] assms
    by (simp add: pmm_alloc_contiguous_def)
qed

lemma pmm_alloc_contiguous_cases:
  assumes "unat count \<le> PMM_MAX_FRAMES"
  shows "pmm_alloc_contiguous count s = Inr (0, s) \<or>
    pmm_alloc_contiguous count s = Inr (pmm_alloc s) \<or>
    (\<exists>b. pmm_alloc_contiguous count s = Inr (frame_addr b, claim_run b (unat count) s) \<and>
       {b..<b + unat count} \<subseteq> free_set s \<and> PMM_FIRST_FRAME \<le> b \<and> b + unat count \<le> PMM_MAX_FRAMES)"
proof (cases "1 < unat count")
  case True
  note eq = pmm_alloc_contiguous_run [OF assms True, of s]
  show ?thesis
  proof (cases "first_run (free_set s) (unat count) PMM_FIRST_FRAME")
    case None
    with eq show ?thesis by simp
  next
    case (Some b)
    have "pmm_alloc_contiguous count s = Inr (frame_addr b, claim_run b (unat count) s)"
      using eq Some by simp
    with first_runD [OF Some] show ?thesis by blast
  qed
next
  case False
  then have "count = 0 \<or> count = 1"
    by (metis One_nat_def less_one nat_neq_iff unat_1 unat_eq_zero word_unat_eq_iff)
  then show ?thesis by (auto simp: pmm_alloc_contiguous_def)
qed

lemma pmm_exec_inv:
  assumes "pmm_inv s" and "sane_op x"
  shows "\<exists>s'. pmm_exec x s = Some s' \<and> pmm_inv s'"
proof (cases x)
  case (Op_alloc_contiguous c)
  then have "unat c \<le> PMM_MAX_FRAMES" using assms(2) by simp
  from pmm_alloc_contiguous_cases [OF this, of s] show ?thesis
    using Op_alloc_contiguous assms(1) pmm_inv_alloc [OF assms(1)]
    by (auto simp: split_beta intro: pmm_inv_claim_run)
qed (use assms(1) in \<open>auto simp: pmm_mark_used_def pmm_mark_free_def intro: inv_intros\<close>)

lemma free_set_alloc_subset:
  "pmm_inv s \<Longrightarrow> free_set (snd (pmm_alloc s)) \<subseteq> free_set s"
  "pmm_inv s \<Longrightarrow> free_set (snd (pmm_alloc_low s)) \<subseteq> free_set s"
  by (auto simp: pmm_alloc_first_free pmm_alloc_low_first_free free_set_claim pmm_inv_length
      split: option.splits dest!: first_freeD(1) dest: free_set_bound)

lemma pmm_exec_low_reserved:
  assumes "pmm_inv s" and "low_reserved s" and "\<not> marks_free x" and "pmm_exec x s = Some s'"
    and "sane_op x"
  shows "low_reserved s'"
proof (cases x)
  case (Op_alloc_contiguous c)
  then have "unat c \<le> PMM_MAX_FRAMES" using assms(5) by simp
  from pmm_alloc_contiguous_cases [OF this, of s] show ?thesis
    using Op_alloc_contiguous assms free_set_alloc_subset(1) [OF assms(1)]
    by (auto simp: low_reserved_def split_beta free_set_claim_run pmm_inv_length)
next
  case (Op_free p)
  show ?thesis
  proof (cases "page_addr p")
    case True
    then obtain n where "256 \<le> n" "n < PMM_MAX_FRAMES" "p = frame_addr n"
      using page_addr_frame by blast
    then show ?thesis
      using Op_free assms True
      by (auto simp: low_reserved_def pmm_free_page unat_frame_addr free_set_release pmm_inv_length
          split: if_splits)
  qed (use Op_free assms in \<open>simp add: pmm_free_not_page\<close>)
qed (use assms free_set_alloc_subset [OF assms(1)] in
      \<open>auto simp: low_reserved_def pmm_mark_used_def free_set_mark_range pmm_inv_length\<close>)

lemma pmm_exec_all_inv:
  "pmm_inv s \<Longrightarrow> list_all sane_op ops \<Longrightarrow> \<exists>s'. pmm_exec_all ops s = Some s' \<and> pmm_inv s'"
proof (induction ops arbitrary: s)
  case (Cons x xs)
  then obtain t where "pmm_exec x s = Some t" "pmm_inv t"
    using pmm_exec_inv [of s x] by auto
  with Cons show ?case by simp
qed simp

lemma pmm_exec_all_low_reserved:
  "pmm_inv s \<Longrightarrow> list_all sane_op ops \<Longrightarrow> low_reserved s \<Longrightarrow> list_all (\<lambda>x. \<not> marks_free x) ops \<Longrightarrow>
   pmm_exec_all ops s = Some s' \<Longrightarrow> low_reserved s'"
proof (induction ops arbitrary: s)
  case (Cons x xs)
  then obtain t where t: "pmm_exec x s = Some t" "pmm_inv t"
    using pmm_exec_inv [of s x] by auto
  with Cons have "low_reserved t"
    using pmm_exec_low_reserved [of s x t] by simp
  with Cons t show ?case by simp
qed simp

section \<open>Huge contiguous requests\<close>

lemma free_run_huge:
  "unat count > PMM_MAX_FRAMES \<Longrightarrow> run \<le> PMM_MAX_FRAMES \<Longrightarrow>
   free_run bm count base run = Inl Bitmap_Out_Of_Bounds \<or>
   (\<exists>r. free_run bm count base run = Inr r \<and> r \<noteq> unat count)"
proof (induction bm count base run rule: free_run.induct)
  case (1 bm count base run)
  then show ?case by (auto simp: free_run.simps [of bm count base run])
qed

lemma contig_from_huge:
  "unat count \<ge> 4294967040 \<Longrightarrow> PMM_FIRST_FRAME \<le> base \<Longrightarrow> base \<le> PMM_MAX_FRAMES \<Longrightarrow>
   contig_from count base s = Inl Bitmap_Out_Of_Bounds"
proof (induction count base s rule: contig_from.induct)
  case (1 count base s)
  have "4294967296 \<le> base + unat count" and "base + unat count < 4294967296 + 65537"
    using "1.prems" unat_u32_less [of count] by linarith+
  then have g: "(base + unat count) mod 4294967296 \<le> PMM_MAX_FRAMES"
    by (simp add: mod_if) linarith
  from free_run_huge [of count 0 "bitmap s" base] "1.prems"
  consider (oob) "free_run (bitmap s) count base 0 = Inl Bitmap_Out_Of_Bounds"
    | (stop) r where "free_run (bitmap s) count base 0 = Inr r" "r \<noteq> unat count"
    by fastforce
  then show ?case
  proof cases
    case oob
    with g show ?thesis by (simp add: contig_from.simps [of count base s])
  next
    case stop
    then have "base + r + 1 \<le> PMM_MAX_FRAMES"
      using free_run_in_range [OF stop] by simp
    with "1.IH" [OF g stop] "1.prems" have "contig_from count (base + r + 1) s = Inl Bitmap_Out_Of_Bounds"
      by simp
    with g stop show ?thesis by (simp add: contig_from.simps [of count base s])
  qed
qed

section \<open>Release undoes allocation\<close>

lemma clear_set_bit: "\<not> bit w n \<Longrightarrow> (w OR 2 ^ n) AND NOT (2 ^ n) = (w :: u8)"
  by (rule bit_word_eqI) (auto simp: bit_simps)

lemma bclr_bset: "i div 8 < length bm \<Longrightarrow> \<not> bget bm i \<Longrightarrow> bclr i (bset i bm) = bm"
  by (simp add: bclr_def bset_def bget_bit clear_set_bit)

lemma release_claim:
  assumes "pmm_inv s" and "i \<in> free_set s"
  shows "release_frame i (claim_frame i s) = s"
proof -
  have "card (free_set s) > 0" using assms(2) by (auto simp: card_gt_0_iff)
  then have "frames_free s \<noteq> 0" using assms(1) by (auto simp: pmm_inv_def)
  moreover have "i div 8 < length (bitmap s)" "\<not> bget (bitmap s) i"
    using assms by (auto simp: pmm_inv_def free_set_def)
  ultimately show ?thesis
    by (simp add: release_frame_def claim_frame_def dec_free_def bclr_bset)
qed

section \<open>A concrete allocator state\<close>

text \<open>Everything used but frames 256, 257 and 258; the concrete instances below use it.\<close>

definition pmm_three :: pmm where
  "pmm_three = \<lparr>bitmap = (replicate 8192 0xFF)[32 := 0xF8], frames_free = 3\<rparr>"

lemma less_8_cases: "(k::nat) < 8 \<Longrightarrow> k = 0 \<or> k = 1 \<or> k = 2 \<or> k = 3 \<or> k = 4 \<or> k = 5 \<or> k = 6 \<or> k = 7"
  by arith

lemma bget_pmm_three: "i < PMM_MAX_FRAMES \<Longrightarrow> bget (bitmap pmm_three) i \<longleftrightarrow> i \<notin> {256, 257, 258}"
proof -
  assume i: "i < PMM_MAX_FRAMES"
  have "bget (bitmap pmm_three) i \<longleftrightarrow> (if i div 8 = 32 then bit (0xF8 :: u8) (i mod 8) else bit (0xFF :: u8) (i mod 8))"
    using i by (auto simp: bget_bit pmm_three_def nth_list_update)
  also have "\<dots> \<longleftrightarrow> \<not> (i div 8 = 32 \<and> i mod 8 < 3)"
    using less_8_cases [of "i mod 8", simplified] by (elim disjE) simp_all
  also have "\<dots> \<longleftrightarrow> i \<notin> {256, 257, 258}"
    by (simp, presburger)
  finally show ?thesis .
qed

lemma free_set_pmm_three: "free_set pmm_three = {256, 257, 258}"
  using bget_pmm_three by (auto simp: free_set_def)

lemma frames_free_pmm_three: "frames_free pmm_three = 3"
  by (simp add: pmm_three_def)

lemma pmm_inv_pmm_three: "pmm_inv pmm_three"
  by (simp add: pmm_inv_def free_set_pmm_three frames_free_pmm_three) (simp add: pmm_three_def)

lemma first_free_pmm_three: "first_free (free_set pmm_three) 256 PMM_MAX_FRAMES = Some 256"
  unfolding first_free_def by (subst find_upt_Cons) (simp_all add: free_set_pmm_three)

lemma pmm_alloc_pmm_three: "pmm_alloc pmm_three = (0x100000, claim_frame 256 pmm_three)"
  by (simp add: pmm_alloc_first_free first_free_pmm_three frame_addr_def)

section \<open>Properties\<close>

text \<open>
  C11: Any history of allocator operations (marking ranges, single, low and contiguous
  allocations, releases; contiguous requests of at most the managed 65536 frames) runs
  without an access outside the bitmap, keeps the bitmap at its 8192 bytes, and keeps
  \<open>frames_free\<close> equal to the number of clear bits.
\<close>

theorem pmm_history_invariant:
  assumes "pmm_inv s" and "list_all sane_op ops"
  shows "\<exists>s'. pmm_exec_all ops s = Some s' \<and> pmm_inv s'"
  using assms by (rule pmm_exec_all_inv)

theorem pmm_history_invariant_witness:
  "pmm_inv pmm_three \<and>
   (\<exists>s'. pmm_exec_all [Op_alloc, Op_alloc_contiguous 2, Op_free 0x100000] pmm_three = Some s' \<and>
     pmm_inv s')"
  using pmm_history_invariant [OF pmm_inv_pmm_three,
      of "[Op_alloc, Op_alloc_contiguous 2, Op_free 0x100000]"] pmm_inv_pmm_three
  by simp

text \<open>
  C17: Once the first megabyte is reserved, no history of allocations and releases
  (without marking ranges free, which only boot does) makes a frame below 1 MiB free
  again, so none of them can ever be handed out.
\<close>

theorem pmm_low_memory_stays_reserved:
  assumes "pmm_inv s" and "low_reserved s" and "list_all sane_op ops"
    and "list_all (\<lambda>x. \<not> marks_free x) ops" and "pmm_exec_all ops s = Some s'"
  shows "low_reserved s' \<and> (\<forall>p s''. pmm_alloc s' = (p, s'') \<longrightarrow> p = 0 \<or> PMM_RESERVED_FLOOR \<le> p)"
proof -
  obtain t where "pmm_exec_all ops s = Some t" "pmm_inv t"
    using pmm_exec_all_inv [OF assms(1,3)] by blast
  then have "pmm_inv s'" using assms(5) by simp
  then have "\<forall>p s''. pmm_alloc s' = (p, s'') \<longrightarrow> p = 0 \<or> PMM_RESERVED_FLOOR \<le> p"
    using pf.alloc_page page_addr_def by blast
  with pmm_exec_all_low_reserved [OF assms(1,3,2,4,5)] show ?thesis by simp
qed

theorem pmm_low_memory_stays_reserved_witness:
  "low_reserved pmm_three \<and> low_reserved (snd (pmm_alloc pmm_three))"
proof -
  have "low_reserved pmm_three"
    by (simp add: low_reserved_def free_set_pmm_three)
  then show ?thesis
    using pmm_low_memory_stays_reserved [OF pmm_inv_pmm_three, of "[Op_alloc]" "snd (pmm_alloc pmm_three)"]
    by simp
qed

text \<open>
  C21: \<^verbatim>\<open>pmm_alloc\<close> is first fit above 1 MiB. It answers 0 and changes nothing
  exactly when no frame from 256 on is free; otherwise it returns the page-aligned address
  of the lowest such frame, marks that frame and no other as used, and lowers
  \<open>pmm_free_frames\<close> by one.
\<close>

theorem pmm_alloc_first_fit:
  assumes "pmm_inv s" and "pmm_alloc s = (p, s')"
  shows "(p = 0 \<and> s' = s \<and> (\<forall>n. 256 \<le> n \<and> n < PMM_MAX_FRAMES \<longrightarrow> n \<notin> free_set s)) \<or>
    (\<exists>n. p = frame_addr n \<and> 256 \<le> n \<and> n \<in> free_set s \<and>
       (\<forall>m. 256 \<le> m \<and> m < n \<longrightarrow> m \<notin> free_set s) \<and> free_set s' = free_set s - {n} \<and>
       unat (pmm_free_frames s') + 1 = unat (pmm_free_frames s))"
proof (cases "first_free (free_set s) 256 PMM_MAX_FRAMES")
  case None
  with assms first_free_NoneD [OF None] show ?thesis by (simp add: pmm_alloc_first_free)
next
  case (Some n)
  note n = first_freeD [OF Some]
  have s': "p = frame_addr n" "s' = claim_frame n s"
    using assms(2) Some by (auto simp: pmm_alloc_first_free)
  then have fs: "free_set s' = free_set s - {n}"
    using assms(1) n by (simp add: free_set_claim pmm_inv_length)
  have "pmm_inv s'" using pf.alloc_inv' [OF assms] .
  then have "unat (frames_free s') + 1 = unat (frames_free s)"
    using assms(1) n(1) fs card_Suc_Diff1 [OF finite_free_set n(1)] by (simp add: pmm_inv_def)
  with n s' fs show ?thesis by (auto simp: pmm_free_frames_def)
qed

theorem pmm_alloc_first_fit_witness:
  "\<exists>p s'. pmm_alloc pmm_three = (p, s') \<and> p = 0x100000 \<and> free_set s' = {257, 258} \<and>
     unat (pmm_free_frames s') + 1 = 3"
proof -
  have "frame_addr n = 0x100000 \<Longrightarrow> n \<in> free_set pmm_three \<Longrightarrow> n = 256" for n
    by (auto simp: free_set_pmm_three frame_addr_def)
  with pmm_alloc_first_fit [OF pmm_inv_pmm_three pmm_alloc_pmm_three] pmm_alloc_pmm_three
  have "free_set (claim_frame 256 pmm_three) = free_set pmm_three - {256} \<and>
      unat (pmm_free_frames (claim_frame 256 pmm_three)) + 1 = unat (pmm_free_frames pmm_three)"
    by auto
  then have "free_set (claim_frame 256 pmm_three) = {257, 258}"
    and "unat (pmm_free_frames (claim_frame 256 pmm_three)) + 1 = 3"
    by (auto simp: free_set_pmm_three pmm_free_frames_def frames_free_pmm_three)
  with pmm_alloc_pmm_three show ?thesis by auto
qed

text \<open>
  C20: \<^verbatim>\<open>pmm_alloc_contiguous\<close>, for a request of 2 to 65536 frames, answers 0 and
  changes nothing exactly when no run of that many free frames starts at frame 256 or
  above; otherwise it returns the start of the lowest such run and marks exactly that run
  as used. The early skip past the frame that broke a run loses no candidate.
\<close>

theorem pmm_alloc_contiguous_first_fit:
  assumes "pmm_inv s" and "1 < unat count" and "unat count \<le> PMM_MAX_FRAMES"
  shows "(pmm_alloc_contiguous count s = Inr (0, s) \<and>
      (\<forall>b. 256 \<le> b \<and> b + unat count \<le> PMM_MAX_FRAMES \<longrightarrow> \<not> {b..<b + unat count} \<subseteq> free_set s)) \<or>
    (\<exists>b s'. pmm_alloc_contiguous count s = Inr (frame_addr b, s') \<and> 256 \<le> b \<and>
       {b..<b + unat count} \<subseteq> free_set s \<and>
       (\<forall>m. 256 \<le> m \<and> m < b \<longrightarrow> \<not> {m..<m + unat count} \<subseteq> free_set s) \<and>
       free_set s' = free_set s - {b..<b + unat count} \<and> pmm_inv s')"
proof (cases "first_run (free_set s) (unat count) 256")
  case None
  with pmm_alloc_contiguous_run [OF assms(3,2), of s] first_run_NoneD [OF None] show ?thesis by simp
next
  case (Some b)
  note b = first_runD [OF Some]
  have "pmm_alloc_contiguous count s = Inr (frame_addr b, claim_run b (unat count) s)"
    using Some pmm_alloc_contiguous_run [OF assms(3,2), of s] by simp
  then show ?thesis
    using b free_set_claim_run [OF pmm_inv_length [OF assms(1)] b(3)]
      pmm_inv_claim_run [OF assms(1) b(3,1)] by blast
qed

theorem pmm_alloc_contiguous_first_fit_witness:
  "\<exists>b s'. pmm_alloc_contiguous 3 pmm_three = Inr (frame_addr b, s') \<and> free_set s' = {}"
proof -
  have "{256..<256 + 3} = {256, 257, 258 :: nat}" by auto
  then have "{256..<256 + unat (3 :: u32)} \<subseteq> free_set pmm_three"
    by (simp add: free_set_pmm_three)
  with pmm_alloc_contiguous_first_fit [OF pmm_inv_pmm_three, of 3]
  obtain b s' where r: "pmm_alloc_contiguous 3 pmm_three = Inr (frame_addr b, s')" "256 \<le> b"
    "{b..<b + 3} \<subseteq> free_set pmm_three" "free_set s' = free_set pmm_three - {b..<b + 3}"
    by fastforce
  from r(3) have "b + 2 \<in> free_set pmm_three" by auto
  with r(2) have "b = 256" by (auto simp: free_set_pmm_three)
  with r show ?thesis by (auto simp: free_set_pmm_three)
qed

text \<open>
  C32: A release undoes an allocation exactly: freeing the page just allocated gives back
  the very same bitmap and counter, and freeing it once more (a double free) changes
  nothing.
\<close>

theorem pmm_free_undoes_alloc:
  assumes "pmm_inv s" and "pmm_alloc s = (p, s')" and "p \<noteq> 0"
  shows "pmm_free p s' = s \<and> pmm_free p (pmm_free p s') = s"
proof -
  obtain n where n: "first_free (free_set s) 256 PMM_MAX_FRAMES = Some n"
    "p = frame_addr n" "s' = claim_frame n s"
    using assms by (auto simp: pmm_alloc_first_free split: option.splits)
  note f = first_freeD [OF n(1)]
  have i: "unat p div 4096 = n" using n(2) f(3) by (simp add: unat_frame_addr)
  have pg: "page_addr p" using assms pf.alloc_page by blast
  have "n \<notin> free_set s'"
    using n(3) f assms(1) by (simp add: free_set_claim pmm_inv_length)
  then have "pmm_free p s' = s"
    using pmm_free_page [OF pg, of s'] i release_claim [OF assms(1) f(1)] n(3) by simp
  moreover have "pmm_free p s = s"
    using pmm_free_page [OF pg, of s] i f(1) by simp
  ultimately show ?thesis by simp
qed

theorem pmm_free_undoes_alloc_witness:
  "pmm_free 0x100000 (claim_frame 256 pmm_three) = pmm_three"
  using pmm_free_undoes_alloc [OF pmm_inv_pmm_three pmm_alloc_pmm_three] by simp

text \<open>
  C33: Marking a range touches exactly the managed frames that overlap it. For every
  32-bit start and size, also where \<open>phys + size\<close> or the rounding up would
  overflow, the frames that change state are those from the start's frame up to the last
  one that begins before \<open>phys + size\<close> (computed without wrap-around).
\<close>

theorem mark_range_marks_overlap:
  assumes "pmm_inv s"
  shows "free_set (pmm_mark_used phys sz s) =
      {n \<in> free_set s. \<not> (unat phys div 4096 \<le> n \<and> n * 4096 < unat phys + unat sz)} \<and>
    free_set (pmm_mark_free phys sz s) = free_set s \<union>
      {n. n < PMM_MAX_FRAMES \<and> unat phys div 4096 \<le> n \<and> n * 4096 < unat phys + unat sz}"
  using free_set_bound
  by (auto simp: pmm_mark_used_def pmm_mark_free_def free_set_mark_range [OF pmm_inv_length [OF assms]]
      range_frames_def)

theorem mark_range_marks_overlap_witness:
  "free_set (pmm_mark_used 0x101FFF 0xFFFFFFFF pmm_three) = {256}"
  using mark_range_marks_overlap [OF pmm_inv_pmm_three, of "0x101FFF" "0xFFFFFFFF"]
  by (auto simp: free_set_pmm_three)

text \<open>
  C37: The bound check of \<^verbatim>\<open>pmm_alloc_contiguous\<close> wraps. For a request of at least
  \<open>0xFFFFFF00\<close> frames the 32-bit sum \<open>base + count\<close> passes the check, and
  in every allocator state the scan then runs past the end of the bitmap array instead of
  answering 0.
\<close>

theorem pmm_alloc_contiguous_wraps:
  assumes "0xFFFFFF00 \<le> count"
  shows "pmm_alloc_contiguous count s = Inl Bitmap_Out_Of_Bounds"
proof -
  have "unat count \<ge> 4294967040" using assms by (simp add: word_le_nat_alt)
  moreover from this have "count \<noteq> 0" and "count \<noteq> 1" by auto
  ultimately show ?thesis
    by (simp add: pmm_alloc_contiguous_def contig_from_huge)
qed

theorem pmm_alloc_contiguous_wraps_witness:
  "pmm_alloc_contiguous 0xFFFFFFFF pmm_three = Inl Bitmap_Out_Of_Bounds"
  by (rule pmm_alloc_contiguous_wraps) simp

end
