(* ===== verification/Pmm_Boot.thy ===== *)
theory Pmm_Boot
  imports Pmm
begin

text \<open>
  Boot-time initialisation of the physical memory manager,
  \<^verbatim>\<open>pmm_init_from_mb2\<close> of \<^verbatim>\<open>src/src/pmm.c\<close>. The Multiboot2
  structure is read through a memory function \<open>u32 \<Rightarrow> u8\<close> (little endian), pointers are
  32-bit words with their wrap-around, and the addresses the linker script and
  \<^verbatim>\<open>boot.s\<close> provide are a parameter. Neither loop of the parser is bounded in
  the code, so both take fuel and answer \<open>None\<close> when it runs out.
\<close>

section \<open>Memory and layout\<close>

type_synonym memory = "u32 \<Rightarrow> u8"

definition rd32 :: "memory \<Rightarrow> u32 \<Rightarrow> u32" where
  "rd32 mem a = ucast (mem a) OR push_bit 8 (ucast (mem (a + 1))) OR
     push_bit 16 (ucast (mem (a + 2))) OR push_bit 24 (ucast (mem (a + 3)))"

definition rd64 :: "memory \<Rightarrow> u32 \<Rightarrow> u64" where
  "rd64 mem a = ucast (rd32 mem a) OR push_bit 32 (ucast (rd32 mem (a + 4)))"

definition tag_type :: "memory \<Rightarrow> u32 \<Rightarrow> u32" where
  "tag_type mem p = rd32 mem p"

definition tag_size :: "memory \<Rightarrow> u32 \<Rightarrow> u32" where
  "tag_size mem p = rd32 mem (p + 4)"

definition mmap_entry_size :: "memory \<Rightarrow> u32 \<Rightarrow> u32" where
  "mmap_entry_size mem p = rd32 mem (p + 8)"

abbreviation (input) MB2_TAG_END :: u32 where "MB2_TAG_END \<equiv> 0"
abbreviation (input) MB2_TAG_MMAP :: u32 where "MB2_TAG_MMAP \<equiv> 6"

record boot_layout =
  kernel_start :: u32
  kernel_end :: u32
  stack_bottom :: u32
  stack_top :: u32
  bitmap_addr :: u32

datatype boot_panic = Boot_Stack_Outside_Kernel

section \<open>Phase 2: the memory map\<close>

definition mmap_entry :: "memory \<Rightarrow> u32 \<Rightarrow> pmm \<Rightarrow> pmm" where
  "mmap_entry mem q s =
     (if rd32 mem (q + 16) = 1 then
        let base64 = rd64 mem q; len64 = rd64 mem (q + 8); limit = ucast PMM_MAX_BYTES in
        if base64 \<ge> limit then s
        else let room = limit - base64;
                 use = (if len64 < room then len64 else room)
             in if use \<noteq> 0 then pmm_mark_free (ucast base64) (ucast use) s else s
      else s)"

fun mmap_entries :: "memory \<Rightarrow> nat \<Rightarrow> u32 \<Rightarrow> u32 \<Rightarrow> u32 \<Rightarrow> pmm \<Rightarrow> pmm option" where
  "mmap_entries mem 0 es q qe s = None"
| "mmap_entries mem (Suc n) es q qe s =
     (if q + es \<le> qe then mmap_entries mem n es (q + es) qe (mmap_entry mem q s) else Some s)"

definition next_tag :: "memory \<Rightarrow> u32 \<Rightarrow> u32" where
  "next_tag mem p = (p + tag_size mem p + 7) AND NOT 7"

definition process_tag :: "memory \<Rightarrow> nat \<Rightarrow> u32 \<Rightarrow> pmm \<Rightarrow> pmm option" where
  "process_tag mem n p s =
     (if tag_type mem p = MB2_TAG_MMAP
      then mmap_entries mem n (mmap_entry_size mem p) (p + 16) (p + tag_size mem p) s
      else Some s)"

fun mb2_tags :: "memory \<Rightarrow> nat \<Rightarrow> u32 \<Rightarrow> u32 \<Rightarrow> pmm \<Rightarrow> pmm option" where
  "mb2_tags mem 0 e p s = None"
| "mb2_tags mem (Suc n) e p s =
     (if p + 8 \<le> e then
        if tag_type mem p = MB2_TAG_END then Some s
        else if p + tag_size mem p > e then Some s
        else case process_tag mem n p s of
            None \<Rightarrow> None
          | Some s' \<Rightarrow> mb2_tags mem n e (next_tag mem p) s'
      else Some s)"

section \<open>Phases 1 and 3\<close>

definition pmm_reset :: pmm where
  "pmm_reset = \<lparr>bitmap = replicate 8192 0xFF, frames_free = 0\<rparr>"

definition k_start :: "boot_layout \<Rightarrow> u32" where
  "k_start lay = kernel_start lay AND NOT 0xFFF"

definition k_end :: "boot_layout \<Rightarrow> u32" where
  "k_end lay = (kernel_end lay + 0xFFF) AND NOT 0xFFF"

definition reserve_kernel :: "boot_layout \<Rightarrow> pmm \<Rightarrow> pmm" where
  "reserve_kernel lay s =
     (if k_end lay > k_start lay then pmm_mark_used (k_start lay) (k_end lay - k_start lay) s else s)"

definition boot_stack_ok :: "boot_layout \<Rightarrow> bool" where
  "boot_stack_ok lay \<longleftrightarrow> \<not> (stack_bottom lay < k_start lay \<or> stack_top lay > k_end lay)"

definition reserve_span :: "u32 \<Rightarrow> u32 \<Rightarrow> pmm \<Rightarrow> pmm" where
  "reserve_span phys sz s =
     (let start = phys AND NOT 0xFFF;
          e = (if sz > 0xFFFFFFFF - phys then 0xFFFFFFFF else phys + sz);
          e' = (e + 0xFFF) AND NOT 0xFFF
      in pmm_mark_used start (e' - start) s)"

definition pmm_init_from_mb2 ::
    "nat \<Rightarrow> memory \<Rightarrow> u32 \<Rightarrow> boot_layout \<Rightarrow> (boot_panic + pmm) option" where
  "pmm_init_from_mb2 fuel mem info lay =
     (let total_size = rd32 mem info in
      case mb2_tags mem fuel (info + total_size) (info + 8) pmm_reset of
        None \<Rightarrow> None
      | Some s \<Rightarrow>
          let s1 = pmm_mark_used 0 0x100000 s;
              s2 = reserve_kernel lay s1
          in if \<not> boot_stack_ok lay then Some (Inl Boot_Stack_Outside_Kernel)
             else let s3 = reserve_span (bitmap_addr lay) 8192 s2;
                      s4 = reserve_span info total_size s3
                  in Some (Inr s4))"

section \<open>Page rounding\<close>

text \<open>The masks \<open>NOT 0xFFF\<close> and \<open>NOT 7\<close> are in simp normal form \<open>- 4096\<close> and \<open>- 8\<close>.\<close>

lemma and_not_page_mask: "unat (a AND - 4096 :: u32) = unat a div 4096 * 4096"
  using unat_and_not_mask [of a 12] by (simp add: mask_eq_exp_minus_1)

lemma and_not_tag_mask: "unat (a AND - 8 :: u32) = unat a div 8 * 8"
  using unat_and_not_mask [of a 3] by (simp add: mask_eq_exp_minus_1)

lemma align_up_no_wrap:
  "unat a \<le> 4294963200 \<Longrightarrow> unat ((a + 0xFFF) AND - 4096 :: u32) = (unat a + 4095) div 4096 * 4096"
  by (simp add: and_not_page_mask unat_u32_add_no_wrap)

lemma align_up_wrap:
  assumes "unat a > 4294963200"
  shows "(a + 0xFFF) AND - 4096 = (0 :: u32)"
proof -
  have "unat (a + 0xFFF) = unat a + 4095 - 4294967296"
    using assms unat_u32_less [of a] by (simp add: unat_word_ariths mod_if del: unat_u32_less)
  then have "unat (a + 0xFFF) < 4096"
    using unat_u32_less [of a] by linarith
  then have "unat ((a + 0xFFF) AND - 4096) = 0"
    by (simp add: and_not_page_mask)
  then show ?thesis by (simp add: unat_eq_zero)
qed

section \<open>What the reservations cover\<close>

lemma range_frames_cover:
  assumes "unat start div 4096 \<le> unat phys div 4096"
    and "unat phys + unat sz \<le> unat start + unat sz' \<or> PMM_MAX_FRAMES * 4096 \<le> unat start + unat sz'"
  shows "range_frames phys sz \<subseteq> range_frames start sz'"
  using assms by (auto simp: range_frames_def)

lemma free_set_mark_used:
  "pmm_inv s \<Longrightarrow> free_set (pmm_mark_used phys sz s) = free_set s - range_frames phys sz"
  by (simp add: pmm_mark_used_def free_set_mark_range pmm_inv_length)

lemma free_set_mark_free:
  "pmm_inv s \<Longrightarrow> free_set (pmm_mark_free phys sz s) = free_set s \<union> range_frames phys sz"
  by (simp add: pmm_mark_free_def free_set_mark_range pmm_inv_length)

lemma pmm_inv_marks [inv_intros]:
  "pmm_inv s \<Longrightarrow> pmm_inv (pmm_mark_used phys sz s)"
  "pmm_inv s \<Longrightarrow> pmm_inv (pmm_mark_free phys sz s)"
  by (simp_all add: pmm_mark_used_def pmm_mark_free_def inv_intros)

text \<open>The reservation code rounds the end up with a sum that may wrap to 0; the size then
  wraps as well, and the marked range still covers the span (unless it starts in page 0).\<close>

lemma reserve_span_covers:
  assumes "pmm_inv s" and "4096 \<le> unat phys"
  shows "free_set (reserve_span phys sz s) \<subseteq> free_set s - range_frames phys sz"
proof -
  define start where "start = phys AND NOT 0xFFF"
  define e where "e = (if sz > 0xFFFFFFFF - phys then 0xFFFFFFFF else phys + sz)"
  define e' where "e' = (e + 0xFFF) AND NOT (0xFFF :: u32)"
  have start: "unat start = unat phys div 4096 * 4096"
    by (simp add: start_def and_not_page_mask)
  have pos: "unat start \<noteq> 0" using assms(2) start by auto
  have e: "unat e = min 4294967295 (unat phys + unat sz)"
  proof (cases "sz > 0xFFFFFFFF - phys")
    case True
    then have "unat phys + unat sz \<ge> 4294967296"
      by (simp add: word_less_nat_alt unat_u32_max_minus)
    with True show ?thesis by (simp add: e_def)
  next
    case False
    then have "unat phys + unat sz < 4294967296"
      using unat_u32_less [of phys]
      by (simp add: word_less_nat_alt unat_u32_max_minus del: unat_u32_less)
    with False show ?thesis by (simp add: e_def unat_u32_add_no_wrap)
  qed
  have "range_frames phys sz \<subseteq> range_frames start (e' - start)"
  proof (cases "unat e > 4294963200")
    case True
    then have "e' = 0" by (simp add: e'_def align_up_wrap)
    then have "unat (e' - start) = 4294967296 - unat start"
      using pos unat_sub_if_size [of 0 start] by (simp add: word_size)
    then have "PMM_MAX_FRAMES * 4096 \<le> unat start + unat (e' - start)"
      using unat_u32_less [of start] by linarith
    then show ?thesis using start by (intro range_frames_cover) auto
  next
    case False
    then have e': "unat e' = (unat e + 4095) div 4096 * 4096"
      by (simp add: e'_def align_up_no_wrap)
    have sum: "unat e = unat phys + unat sz" using e False by simp
    have "unat start \<le> unat e'" using e' start sum by simp
    then have "unat (e' - start) = unat e' - unat start"
      by (simp add: unat_sub word_le_nat_alt)
    moreover have "unat phys + unat sz \<le> unat e'" using e' sum by simp
    ultimately show ?thesis
      using start \<open>unat start \<le> unat e'\<close> by (intro range_frames_cover) auto
  qed
  then show ?thesis
    using assms(1) unfolding reserve_span_def Let_def
    by (auto simp: free_set_mark_used start_def e_def e'_def)
qed

lemma pmm_inv_reserve_span [inv_intros]: "pmm_inv s \<Longrightarrow> pmm_inv (reserve_span phys sz s)"
  by (simp add: reserve_span_def Let_def inv_intros)

definition kernel_frames :: "boot_layout \<Rightarrow> nat set" where
  \<comment> \<open>the frames the kernel image occupies\<close>
  "kernel_frames lay =
     {n. unat (kernel_start lay) div 4096 \<le> n \<and> n * 4096 < unat (kernel_end lay)}"

definition stack_frames :: "boot_layout \<Rightarrow> nat set" where
  \<comment> \<open>the frames of the boot stack\<close>
  "stack_frames lay = {n. unat (stack_bottom lay) div 4096 \<le> n \<and> n * 4096 < unat (stack_top lay)}"

lemma stack_in_kernel:
  assumes "boot_stack_ok lay" and "unat (kernel_end lay) \<le> 4294963200"
  shows "stack_frames lay \<subseteq> kernel_frames lay"
proof -
  have "unat (kernel_start lay) div 4096 * 4096 \<le> unat (stack_bottom lay)"
    "unat (stack_top lay) \<le> (unat (kernel_end lay) + 4095) div 4096 * 4096"
    using assms unfolding boot_stack_ok_def
    using align_up_no_wrap [OF assms(2)]
    by (simp_all add: k_start_def k_end_def and_not_page_mask word_less_nat_alt not_less)
  moreover have "n * 4096 < e" if "n * 4096 < (e + 4095) div 4096 * 4096" for n e :: nat
  proof -
    have "Suc n \<le> (e + 4095) div 4096" using that by simp
    then have "Suc n * 4096 \<le> e + 4095" by (simp add: less_eq_div_iff_mult_less_eq)
    then show ?thesis by simp
  qed
  ultimately show ?thesis by (fastforce simp: stack_frames_def kernel_frames_def)
qed

lemma reserve_kernel_covers:
  assumes "pmm_inv s" and "unat (kernel_end lay) \<le> 4294963200"
  shows "free_set (reserve_kernel lay s) \<subseteq> free_set s - kernel_frames lay"
proof -
  have ks: "unat (k_start lay) = unat (kernel_start lay) div 4096 * 4096"
    by (simp add: k_start_def and_not_page_mask)
  have ke: "unat (k_end lay) = (unat (kernel_end lay) + 4095) div 4096 * 4096"
    by (simp add: k_end_def align_up_no_wrap assms(2))
  show ?thesis
  proof (cases "k_end lay > k_start lay")
    case True
    then have "unat (k_end lay - k_start lay) = unat (k_end lay) - unat (k_start lay)"
      and "unat (k_start lay) < unat (k_end lay)"
      by (simp_all add: unat_sub word_less_nat_alt word_le_nat_alt)
    then have "kernel_frames lay \<inter> {..<PMM_MAX_FRAMES} \<subseteq> range_frames (k_start lay) (k_end lay - k_start lay)"
      using ks ke by (auto simp: kernel_frames_def range_frames_def)
    then show ?thesis
      using True assms(1) free_set_bound
      by (fastforce simp: reserve_kernel_def free_set_mark_used)
  next
    case False
    then have "unat (k_end lay) \<le> unat (k_start lay)"
      by (simp add: word_less_nat_alt)
    then have "kernel_frames lay = {}"
      using ks ke by (auto simp: kernel_frames_def)
    with False show ?thesis by (simp add: reserve_kernel_def)
  qed
qed

lemma pmm_inv_reserve_kernel [inv_intros]: "pmm_inv s \<Longrightarrow> pmm_inv (reserve_kernel lay s)"
  by (simp add: reserve_kernel_def inv_intros)

section \<open>The parser keeps the allocator invariant\<close>

lemma pmm_inv_mmap_entry [inv_intros]: "pmm_inv s \<Longrightarrow> pmm_inv (mmap_entry mem q s)"
  by (simp add: mmap_entry_def Let_def inv_intros)

lemma pmm_inv_mmap_entries: "mmap_entries mem n es q qe s = Some s' \<Longrightarrow> pmm_inv s \<Longrightarrow> pmm_inv s'"
  by (induction mem n es q qe s rule: mmap_entries.induct) (auto split: if_splits intro: inv_intros)

lemma pmm_inv_process_tag: "process_tag mem n p s = Some s' \<Longrightarrow> pmm_inv s \<Longrightarrow> pmm_inv s'"
  by (auto simp: process_tag_def split: if_splits dest: pmm_inv_mmap_entries)

lemma pmm_inv_mb2_tags: "mb2_tags mem n e p s = Some s' \<Longrightarrow> pmm_inv s \<Longrightarrow> pmm_inv s'"
proof (induction n arbitrary: p s)
  case (Suc n)
  then show ?case
    by (auto split: if_splits option.splits dest: pmm_inv_process_tag)
qed simp

lemma free_set_pmm_reset: "free_set pmm_reset = {}"
proof -
  have "bit (0xFF :: u8) (i mod 8)" for i
    using less_8_cases [of "i mod 8", simplified] by (elim disjE) simp_all
  then have "bget (bitmap pmm_reset) i" if "i < PMM_MAX_FRAMES" for i
    using that by (auto simp: bget_bit pmm_reset_def)
  then show ?thesis by (auto simp: free_set_def)
qed

lemma pmm_inv_pmm_reset: "pmm_inv pmm_reset"
  by (simp add: pmm_inv_def free_set_pmm_reset) (simp add: pmm_reset_def)

section \<open>Termination of the tag walk\<close>

text \<open>The tag positions the walk visits: from the first, as long as the loop goes on.\<close>

definition tag_taken :: "memory \<Rightarrow> u32 \<Rightarrow> u32 \<Rightarrow> bool" where
  "tag_taken mem e p \<longleftrightarrow> p + 8 \<le> e \<and> tag_type mem p \<noteq> MB2_TAG_END \<and> p + tag_size mem p \<le> e"

inductive tag_reached :: "memory \<Rightarrow> u32 \<Rightarrow> u32 \<Rightarrow> u32 \<Rightarrow> bool" for mem e where
  here: "tag_reached mem e p p"
| step: "tag_taken mem e p \<Longrightarrow> tag_reached mem e (next_tag mem p) q \<Longrightarrow> tag_reached mem e p q"

definition wf_tag :: "memory \<Rightarrow> u32 \<Rightarrow> u32 \<Rightarrow> bool" where
  \<comment> \<open>a tag covers at least its header and does not wrap; a memory map has a sane stride\<close>
  "wf_tag mem e p \<longleftrightarrow>
     8 \<le> unat (tag_size mem p) \<and> unat p + unat (tag_size mem p) \<le> unat e \<and>
     (tag_type mem p = MB2_TAG_MMAP \<longrightarrow>
        0 < unat (mmap_entry_size mem p) \<and> unat (mmap_entry_size mem p) \<le> 1048576)"

definition wf_mb2 :: "memory \<Rightarrow> u32 \<Rightarrow> u32 \<Rightarrow> bool" where
  "wf_mb2 mem e p \<longleftrightarrow>
     unat e \<le> 4293918704 \<and>
     (\<forall>q. tag_reached mem e p q \<longrightarrow> tag_taken mem e q \<longrightarrow> wf_tag mem e q)"

lemma mmap_entries_terminates:
  "0 < unat es \<Longrightarrow> unat qe + unat es < 4294967296 \<Longrightarrow> unat q \<le> unat qe + 16 \<Longrightarrow>
   unat q + unat es < 4294967296 \<Longrightarrow>
   unat qe + 1 - unat q < n \<Longrightarrow> \<exists>s'. mmap_entries mem n es q qe s = Some s'"
proof (induction n arbitrary: q s)
  case (Suc n)
  have add: "unat (q + es) = unat q + unat es"
    by (rule unat_u32_add_no_wrap) (rule Suc.prems(4))
  show ?case
  proof (cases "q + es \<le> qe")
    case True
    then have le: "unat q + unat es \<le> unat qe" by (simp add: word_le_nat_alt add)
    have "\<exists>s'. mmap_entries mem n es (q + es) qe (mmap_entry mem q s) = Some s'"
      by (rule Suc.IH) (use Suc.prems le add in linarith)+
    with True show ?thesis by simp
  qed simp
qed simp

lemma mb2_tags_terminates:
  "wf_mb2 mem e p \<Longrightarrow> unat p \<le> unat e + 8 \<Longrightarrow> unat e + 16 - unat p < n \<Longrightarrow>
   \<exists>s'. mb2_tags mem n e p s = Some s'"
proof (induction n arbitrary: p s)
  case (Suc n)
  show ?case
  proof (cases "tag_taken mem e p")
    case False
    then show ?thesis by (auto simp: tag_taken_def not_le)
  next
    case True
    define sz where "sz = tag_size mem p"
    have e: "unat e \<le> 4293918704" using Suc.prems(1) by (simp add: wf_mb2_def)
    have wt: "wf_tag mem e p"
      using Suc.prems(1) True by (auto simp: wf_mb2_def intro: tag_reached.here)
    then have sz: "8 \<le> unat sz" "unat p + unat sz \<le> unat e" by (simp_all add: wf_tag_def sz_def)
    have p_sz: "unat (p + sz) = unat p + unat sz"
      by (rule unat_u32_add_no_wrap) (use sz e in linarith)
    have p_16: "unat (p + 16) = unat p + 16"
      using unat_u32_add_no_wrap [of p 16] sz e by simp
    have "unat (p + sz + 7) = unat p + unat sz + 7"
      using unat_u32_add_no_wrap [of "p + sz" 7] sz e p_sz by simp
    then have nx: "unat (next_tag mem p) = (unat p + unat sz + 7) div 8 * 8"
      by (simp add: next_tag_def sz_def [symmetric] and_not_tag_mask)
    have "\<exists>s1. process_tag mem n p s = Some s1"
    proof (cases "tag_type mem p = MB2_TAG_MMAP")
      case True
      then have es: "0 < unat (mmap_entry_size mem p)" "unat (mmap_entry_size mem p) \<le> 1048576"
        using wt by (auto simp: wf_tag_def)
      have "\<exists>s1. mmap_entries mem n (mmap_entry_size mem p) (p + 16) (p + sz) s = Some s1"
        by (rule mmap_entries_terminates) (use es sz e p_sz p_16 Suc.prems(3) in linarith)+
      with True show ?thesis by (simp add: process_tag_def sz_def)
    qed (simp add: process_tag_def)
    then obtain s1 where s1: "process_tag mem n p s = Some s1" ..
    have "wf_mb2 mem e (next_tag mem p)"
      using Suc.prems(1) True by (auto simp: wf_mb2_def intro: tag_reached.step)
    moreover have "unat (next_tag mem p) \<le> unat e + 8" "unat p + 8 \<le> unat (next_tag mem p)"
      using nx sz by linarith+
    ultimately have "\<exists>s'. mb2_tags mem n e (next_tag mem p) s1 = Some s'"
      by (intro Suc.IH) (use Suc.prems(3) in linarith)+
    with True s1 show ?thesis by (auto simp: tag_taken_def not_less)
  qed
qed simp

text \<open>A tag that claims size 0 holds the walk in place.\<close>

lemma mb2_tags_zero_size:
  assumes "p + 8 \<le> e" and "p \<le> e" and "tag_type mem p \<noteq> MB2_TAG_END" and "tag_type mem p \<noteq> MB2_TAG_MMAP"
    and "tag_size mem p = 0" and "unat p mod 8 = 0" and "unat p < 4294967288"
  shows "mb2_tags mem n e p s = None"
proof (induction n arbitrary: s)
  case (Suc n)
  have "unat (p + 7) = unat p + 7"
    using unat_u32_add_no_wrap [of p 7] assms(7) by simp
  then have "unat (next_tag mem p) = unat p"
    using assms(5,6) by (simp add: next_tag_def and_not_tag_mask) presburger
  then have "next_tag mem p = p" by (simp add: word_unat_eq_iff)
  with Suc assms show ?case by (simp add: process_tag_def)
qed simp

section \<open>A concrete boot\<close>

text \<open>
  Boot information at 64 KiB with one memory-map tag (usable RAM from 1 MiB to 2 MiB) and
  the end tag, and a kernel from 1 MiB to 1 MiB + 64 KiB.
\<close>

definition demo_bytes :: "u8 list" where
  "demo_bytes =
     [56, 0, 0, 0,  0, 0, 0, 0,
      6, 0, 0, 0,  40, 0, 0, 0,  24, 0, 0, 0,  0, 0, 0, 0,
      0, 0, 16, 0,  0, 0, 0, 0,  0, 0, 16, 0,  0, 0, 0, 0,  1, 0, 0, 0,  0, 0, 0, 0,
      0, 0, 0, 0,  8, 0, 0, 0]"

definition demo_mem :: memory where
  "demo_mem a = (let i = unat a - 65536 in
     if 65536 \<le> unat a \<and> i < length demo_bytes then demo_bytes ! i else 0)"

definition demo_layout :: boot_layout where
  "demo_layout = \<lparr>kernel_start = 0x100000, kernel_end = 0x110000, stack_bottom = 0x108000,
     stack_top = 0x110000, bitmap_addr = 0x106000\<rparr>"

lemma demo_reads:
  "rd32 demo_mem 0x10000 = 56" "tag_type demo_mem 0x10008 = 6" "tag_size demo_mem 0x10008 = 40"
  "mmap_entry_size demo_mem 0x10008 = 24" "tag_type demo_mem 0x10030 = 0"
  by (simp_all add: rd32_def tag_type_def tag_size_def mmap_entry_size_def demo_mem_def demo_bytes_def)

lemma demo_next: "next_tag demo_mem 0x10008 = 0x10030"
  by (simp add: next_tag_def demo_reads)

lemma demo_reached: "tag_reached demo_mem 0x10038 p q \<Longrightarrow> p = 0x10008 \<or> p = 0x10030 \<Longrightarrow> q = 0x10008 \<or> q = 0x10030"
  by (induction rule: tag_reached.induct) (auto simp: demo_next demo_reads tag_taken_def)

lemma demo_wf: "wf_mb2 demo_mem 0x10038 0x10008"
  using demo_reached
  by (fastforce simp: wf_mb2_def wf_tag_def demo_reads tag_taken_def)

section \<open>Reservation\<close>

lemma boot_reserves:
  assumes "pmm_init_from_mb2 fuel mem info lay = Some (Inr s)"
    and "unat (kernel_end lay) \<le> 0xFFFFF000" and "0x1000 \<le> info" and "0x1000 \<le> bitmap_addr lay"
  shows "pmm_inv s \<and> low_reserved s \<and>
    (\<forall>n \<in> free_set s. n \<notin> kernel_frames lay \<and> n \<notin> stack_frames lay \<and> n \<notin> range_frames (bitmap_addr lay) 8192 \<and>
       n \<notin> range_frames info (rd32 mem info))"
proof -
  obtain s0 where s0: "mb2_tags mem fuel (info + rd32 mem info) (info + 8) pmm_reset = Some s0" and st: "boot_stack_ok lay"
    and s: "s = reserve_span info (rd32 mem info) (reserve_span (bitmap_addr lay) 8192
              (reserve_kernel lay (pmm_mark_used 0 0x100000 s0)))"
    using assms(1) by (auto simp: pmm_init_from_mb2_def Let_def split: option.splits if_splits)
  define s1 where "s1 = pmm_mark_used 0 0x100000 s0"
  define s2 where "s2 = reserve_kernel lay s1"
  define s3 where "s3 = reserve_span (bitmap_addr lay) 8192 s2"
  have i0: "pmm_inv s0" using s0 pmm_inv_pmm_reset by (rule pmm_inv_mb2_tags)
  then have i1: "pmm_inv s1" and i2: "pmm_inv s2" and i3: "pmm_inv s3"
    by (simp_all add: s1_def s2_def s3_def inv_intros)
  have f1: "free_set s1 \<inter> {..<256} = {}"
    using i0 by (auto simp: s1_def free_set_mark_used range_frames_def dest: free_set_bound)
  have f2: "free_set s2 \<subseteq> free_set s1 - kernel_frames lay"
    unfolding s2_def using i1 assms(2) by (intro reserve_kernel_covers) simp_all
  have f3: "free_set s3 \<subseteq> free_set s2 - range_frames (bitmap_addr lay) 8192"
    unfolding s3_def using i2 assms(4) by (intro reserve_span_covers) (simp_all add: word_le_nat_alt)
  have f4: "free_set s \<subseteq> free_set s3 - range_frames info (rd32 mem info)"
    unfolding s s1_def [symmetric] s2_def [symmetric] s3_def [symmetric]
    using i3 assms(3) by (intro reserve_span_covers) (simp_all add: word_le_nat_alt)
  have "pmm_inv s"
    unfolding s s1_def [symmetric] s2_def [symmetric] s3_def [symmetric]
    using i3 by (rule inv_intros)
  moreover have "stack_frames lay \<subseteq> kernel_frames lay" using stack_in_kernel [OF st] assms(2) by simp
  ultimately show ?thesis using f1 f2 f3 f4 unfolding low_reserved_def by blast
qed

section \<open>Properties\<close>

text \<open>
  C13: Boot reserves what must never be handed out. Let the kernel end at most a page below 4 GiB, and the
  Multiboot2 structure and the allocator's bitmap not start in the first page. Whenever
  \<^verbatim>\<open>pmm_init_from_mb2\<close> returns a state, with any fuel, the allocator invariant holds and no free frame lies below
  1 MiB, in the kernel image, in the boot stack, in the allocator's own bitmap or in the
  Multiboot2 structure, whatever memory map the boot loader supplied, sizes that overflow
  included. And on a well-formed structure, with fuel for every address up to its end, it does return: a
  state if the boot stack lies within the page-rounded kernel image, the panic otherwise.
\<close>

theorem boot_reserves_critical_memory:
  assumes "unat (kernel_end lay) \<le> 0xFFFFF000" and "0x1000 \<le> info" and "0x1000 \<le> bitmap_addr lay"
  shows "(\<forall>s. pmm_init_from_mb2 fuel mem info lay = Some (Inr s) \<longrightarrow> pmm_inv s \<and> low_reserved s \<and>
      (\<forall>n \<in> free_set s. n \<notin> kernel_frames lay \<and> n \<notin> stack_frames lay \<and> n \<notin> range_frames (bitmap_addr lay) 8192 \<and>
         n \<notin> range_frames info (rd32 mem info))) \<and>
    (wf_mb2 mem (info + rd32 mem info) (info + 8) \<longrightarrow> unat (info + 8) \<le> unat (info + rd32 mem info) + 8 \<longrightarrow>
      unat (info + rd32 mem info) + 17 \<le> fuel \<longrightarrow>
      (if k_start lay \<le> stack_bottom lay \<and> stack_top lay \<le> k_end lay
       then \<exists>s. pmm_init_from_mb2 fuel mem info lay = Some (Inr s)
       else pmm_init_from_mb2 fuel mem info lay = Some (Inl Boot_Stack_Outside_Kernel)))"
proof (intro conjI impI allI)
  fix s assume "pmm_init_from_mb2 fuel mem info lay = Some (Inr s)"
  then show "pmm_inv s" "low_reserved s" "\<forall>n \<in> free_set s. n \<notin> kernel_frames lay \<and> n \<notin> stack_frames lay \<and>
      n \<notin> range_frames (bitmap_addr lay) 8192 \<and> n \<notin> range_frames info (rd32 mem info)"
    using boot_reserves [OF _ assms] by blast+
next
  assume wf: "wf_mb2 mem (info + rd32 mem info) (info + 8)" "unat (info + 8) \<le> unat (info + rd32 mem info) + 8"
    and fuel: "unat (info + rd32 mem info) + 17 \<le> fuel"
  have "unat (info + rd32 mem info) + 16 - unat (info + 8) < fuel" using fuel by linarith
  then obtain s where "mb2_tags mem fuel (info + rd32 mem info) (info + 8) pmm_reset = Some s"
    using mb2_tags_terminates [OF wf] by blast
  then show "if k_start lay \<le> stack_bottom lay \<and> stack_top lay \<le> k_end lay
      then \<exists>s. pmm_init_from_mb2 fuel mem info lay = Some (Inr s)
      else pmm_init_from_mb2 fuel mem info lay = Some (Inl Boot_Stack_Outside_Kernel)"
    by (auto simp: pmm_init_from_mb2_def Let_def boot_stack_ok_def not_less)
qed

theorem boot_reserves_critical_memory_witness:
  "\<exists>s. pmm_init_from_mb2 70000 demo_mem 0x10000 demo_layout = Some (Inr s) \<and> low_reserved s \<and> 0x108 \<notin> free_set s"
proof -
  have wf: "wf_mb2 demo_mem (0x10000 + rd32 demo_mem 0x10000) (0x10000 + 8)" using demo_wf by (simp add: demo_reads)
  have lay: "k_start demo_layout \<le> stack_bottom demo_layout \<and> stack_top demo_layout \<le> k_end demo_layout"
    "0x108 \<in> stack_frames demo_layout"
    by (simp_all add: k_start_def k_end_def demo_layout_def stack_frames_def)
  show ?thesis
    using boot_reserves_critical_memory [of demo_layout "0x10000" 70000 demo_mem] wf lay
    by (auto simp: demo_reads demo_layout_def)
qed

text \<open>
  C18: The boot-time parser terminates on a well-formed Multiboot2 structure: if every tag it
  visits covers at least its own header, stays inside the structure and, for a memory map,
  has a non-zero entry size, initialisation returns, with fuel no larger than the
  structure's end address.
\<close>

theorem boot_parser_terminates:
  assumes "wf_mb2 mem (info + rd32 mem info) (info + 8)"
    and "unat (info + 8) \<le> unat (info + rd32 mem info) + 8"
  shows "\<exists>r. pmm_init_from_mb2 (unat (info + rd32 mem info) + 17) mem info lay = Some r"
proof -
  define n where "n = unat (info + rd32 mem info) + 17"
  have "unat (info + rd32 mem info) + 16 - unat (info + 8) < n" by (simp add: n_def)
  then obtain s where "mb2_tags mem n (info + rd32 mem info) (info + 8) pmm_reset = Some s"
    using mb2_tags_terminates [OF assms] by blast
  then show ?thesis unfolding n_def [symmetric]
    by (cases "boot_stack_ok lay") (simp_all add: pmm_init_from_mb2_def Let_def)
qed

theorem boot_parser_terminates_witness:
  "\<exists>r. pmm_init_from_mb2 (unat (0x10000 + rd32 demo_mem 0x10000) + 17) demo_mem 0x10000 demo_layout = Some r"
  using boot_parser_terminates [where mem = demo_mem and info = "0x10000" and lay = demo_layout] demo_wf
  by (simp add: demo_reads)

text \<open>
  C36: Without that condition it need not: if the first tag of the structure is neither the
  end tag nor a memory map and claims size 0, the loop never advances and
  \<^verbatim>\<open>pmm_init_from_mb2\<close> does not return, however much fuel it is given.
\<close>

theorem boot_parser_zero_size_tag_hangs:
  assumes "tag_type mem (info + 8) \<noteq> MB2_TAG_END" and "tag_type mem (info + 8) \<noteq> MB2_TAG_MMAP"
    and "tag_size mem (info + 8) = 0" and "unat info mod 8 = 0" and "unat info < 0xFFFF0000"
    and "16 \<le> unat (rd32 mem info)" and "unat info + unat (rd32 mem info) < 2 ^ 32"
  shows "pmm_init_from_mb2 fuel mem info lay = None"
proof -
  have a: "unat (info + 8) = unat info + 8"
    "unat (info + rd32 mem info) = unat info + unat (rd32 mem info)"
    using assms(5,7) by (simp_all add: unat_u32_add_no_wrap)
  have "unat (info + 8 + 8) = unat info + 16"
    using unat_u32_add_no_wrap [of "info + 8" 8] a assms(5) by (simp only: a) simp
  then have "info + 8 + 8 \<le> info + rd32 mem info" "info + 8 \<le> info + rd32 mem info"
    unfolding word_le_nat_alt using a assms(6) by linarith+
  moreover have "unat (info + 8) mod 8 = 0" using a assms(4) by simp
  ultimately have "mb2_tags mem fuel (info + rd32 mem info) (info + 8) pmm_reset = None"
    using assms a by (intro mb2_tags_zero_size) simp_all
  then show ?thesis by (simp add: pmm_init_from_mb2_def)
qed

definition zero_tag_mem :: memory where
  "zero_tag_mem a = (if a = 0x10000 then 16 else if a = 0x10008 then 1 else 0)"

theorem boot_parser_zero_size_tag_hangs_witness:
  "\<forall>fuel. pmm_init_from_mb2 fuel zero_tag_mem 0x10000 demo_layout = None"
  using boot_parser_zero_size_tag_hangs [where mem = zero_tag_mem and info = "0x10000" and lay = demo_layout]
  by (simp add: tag_type_def tag_size_def rd32_def zero_tag_mem_def)

end
