(* ===== verification/Task.thy ===== *)
theory Task
  imports Prelude
begin

text \<open>
  The task structure \<^verbatim>\<open>task_t\<close> of \<^verbatim>\<open>src/src/process.h\<close>: the identity and credentials the file system
  layers read. The scheduler's theory extends the record by the fields it owns.
\<close>

record task =
  t_pid :: u32
  t_generation :: u32
  t_uid :: u16
  t_euid :: u16
  t_egid :: u16
  t_groups :: "u16 list"
  t_private_tmp_dir :: string
  t_capabilities :: u32

end
