(* ===== verification/Ramfs_Model.thy ===== *)
theory Ramfs_Model
  imports Pmm "HOL-Library.Monad_Syntax" Task
begin

text \<open>
  The RAM file system, \<^verbatim>\<open>src/src/ramfs.c\<close> and \<^verbatim>\<open>src/src/ramfs.h\<close>: the node
  store, the descriptor table and every operation of the file system.

  Nodes and data pages live in page frames of the physical allocator, and the code links
  them by raw pointers. The model keeps the pointers: \<open>heap\<close> maps the address of a frame
  that holds a \<^verbatim>\<open>ramfs_node_t\<close> to its contents, \<open>pages\<close> maps the address of a data page
  to its 4096 bytes, and 0 is \<^verbatim>\<open>NULL\<close>. Every dereference is a lookup in one of the two
  maps, so an operation returns \<^term>\<open>None\<close> exactly when the code would follow a dangling
  pointer (or, for the one list walk the code does not bound, never return). That no
  operation does so is a theorem of \<^verbatim>\<open>Ramfs_Inv\<close>, not an assumption.

  \<^verbatim>\<open>scheduler_get_current_task()\<close> is the parameter \<open>cur\<close>, and the function pointer
  \<^verbatim>\<open>external_busy_hook\<close> the parameter \<open>hook\<close>. Each operation is one
  sequential step: mkdir, unlink, rmdir, rename and list hold \<^verbatim>\<open>ramfs_mutex\<close> throughout, but
  \<^verbatim>\<open>ramfs_open\<close> and \<^verbatim>\<open>ramfs_chmod\<close> drop it after the lookup, before they use the node, and \<^verbatim>\<open>ramfs_read\<close>, \<^verbatim>\<open>ramfs_write\<close>,
  \<^verbatim>\<open>ramfs_truncate\<close> and \<^verbatim>\<open>ramfs_seek\<close> take no lock, so that interleavings inside these calls
  are outside the model. Console output is dropped, and so is the identity mapping of fresh
  frames (\<^verbatim>\<open>pae_map_page_into\<close>). The fields \<^verbatim>\<open>data\<close> (an alias of \<^verbatim>\<open>data_pages[0]\<close>) and
  \<^verbatim>\<open>symlink_target\<close> (never set) are not kept.
\<close>

section \<open>Constants and data\<close>

abbreviation (input) RAMFS_FLAG_READ :: u8 where "RAMFS_FLAG_READ \<equiv> 0x01"
abbreviation (input) RAMFS_FLAG_WRITE :: u8 where "RAMFS_FLAG_WRITE \<equiv> 0x02"
abbreviation (input) RAMFS_FLAG_NOFOLLOW :: u8 where "RAMFS_FLAG_NOFOLLOW \<equiv> 0x04"
abbreviation (input) RAMFS_FLAG_INHERIT :: u8 where "RAMFS_FLAG_INHERIT \<equiv> 0x08"
abbreviation (input) RAMFS_FLAG_EXEC :: u8 where "RAMFS_FLAG_EXEC \<equiv> 0x10"
abbreviation (input) RAMFS_PERM_OWNER_READ :: u16 where "RAMFS_PERM_OWNER_READ \<equiv> 256"
abbreviation (input) RAMFS_PERM_OWNER_WRITE :: u16 where "RAMFS_PERM_OWNER_WRITE \<equiv> 128"
abbreviation (input) RAMFS_PERM_OWNER_EXEC :: u16 where "RAMFS_PERM_OWNER_EXEC \<equiv> 64"
abbreviation (input) RAMFS_PERM_GROUP_READ :: u16 where "RAMFS_PERM_GROUP_READ \<equiv> 32"
abbreviation (input) RAMFS_PERM_GROUP_WRITE :: u16 where "RAMFS_PERM_GROUP_WRITE \<equiv> 16"
abbreviation (input) RAMFS_PERM_GROUP_EXEC :: u16 where "RAMFS_PERM_GROUP_EXEC \<equiv> 8"
abbreviation (input) RAMFS_PERM_OTHER_READ :: u16 where "RAMFS_PERM_OTHER_READ \<equiv> 4"
abbreviation (input) RAMFS_PERM_OTHER_WRITE :: u16 where "RAMFS_PERM_OTHER_WRITE \<equiv> 2"
abbreviation (input) RAMFS_PERM_OTHER_EXEC :: u16 where "RAMFS_PERM_OTHER_EXEC \<equiv> 1"
abbreviation (input) RAMFS_PERM_MASK :: u16 where "RAMFS_PERM_MASK \<equiv> 511"
abbreviation (input) RAMFS_DEFAULT_FILE_MODE :: u16 where "RAMFS_DEFAULT_FILE_MODE \<equiv> 384"
abbreviation (input) RAMFS_DEFAULT_DIR_MODE :: u16 where "RAMFS_DEFAULT_DIR_MODE \<equiv> 448"
abbreviation (input) RAMFS_MAX_FILES :: nat where "RAMFS_MAX_FILES \<equiv> 64"
abbreviation (input) RAMFS_MAX_NAME :: nat where "RAMFS_MAX_NAME \<equiv> 32"
abbreviation (input) RAMFS_PAGE_SIZE :: nat where "RAMFS_PAGE_SIZE \<equiv> 4096"
abbreviation (input) RAMFS_MAX_PAGES :: nat where "RAMFS_MAX_PAGES \<equiv> 16"
abbreviation (input) RAMFS_MAX_DATA :: u32 where "RAMFS_MAX_DATA \<equiv> 65536"
abbreviation (input) RAMFS_MAX_FDS :: nat where "RAMFS_MAX_FDS \<equiv> 16"
abbreviation (input) RAMFS_MAX_CHILDREN_PER_DIR :: u16 where "RAMFS_MAX_CHILDREN_PER_DIR \<equiv> 256"
abbreviation (input) PROCESS_MAX_FDS :: nat where "PROCESS_MAX_FDS \<equiv> 8"
abbreviation (input) RAMFS_USER_MAX_FDS :: nat where "RAMFS_USER_MAX_FDS \<equiv> 8"
abbreviation (input) RAMFS_ROOT_RESERVED_FDS :: nat where "RAMFS_ROOT_RESERVED_FDS \<equiv> 4"
abbreviation (input) EMFILE :: int where "EMFILE \<equiv> 24"
abbreviation (input) RAMFS_OPEN_LIMIT :: int where "RAMFS_OPEN_LIMIT \<equiv> -11"
abbreviation (input) RAMFS_BUSY :: int where "RAMFS_BUSY \<equiv> -7"
abbreviation (input) RAMFS_WRITE_EFBIG :: int where "RAMFS_WRITE_EFBIG \<equiv> -4"
abbreviation (input) RAMFS_CREATE_EPERM :: int where "RAMFS_CREATE_EPERM \<equiv> -10"
abbreviation (input) RAMFS_CHMOD_EPERM :: int where "RAMFS_CHMOD_EPERM \<equiv> -3"
abbreviation (input) RAMFS_LIST_ENOENT :: int where "RAMFS_LIST_ENOENT \<equiv> -1"
abbreviation (input) RAMFS_LIST_EACCES :: int where "RAMFS_LIST_EACCES \<equiv> -2"
abbreviation (input) WALK_NOT_DIR :: int where "WALK_NOT_DIR \<equiv> -1"
abbreviation (input) WALK_NOT_FOUND :: int where "WALK_NOT_FOUND \<equiv> -2"
abbreviation (input) WALK_DENIED :: int where "WALK_DENIED \<equiv> -3"

datatype ramfs_type = RAMFS_TYPE_FILE | RAMFS_TYPE_DIR | RAMFS_TYPE_SYMLINK

record ramfs_node =
  nd_name :: string
  nd_type :: ramfs_type
  nd_size :: u32
  nd_mode :: u16
  nd_uid :: u16
  nd_gid :: u16
  child_count :: u16
  data_pages :: "u32 list"
  nd_parent :: u32
  nd_children :: u32
  nd_next :: u32

record ramfs_fd =
  fd_node :: u32
  fd_pos :: u32
  fd_flags :: u8
  in_use :: bool
  close_on_exec :: bool
  refs :: u8
  owner_pid :: u32
  owner_generation :: u32
  owner_uid :: u16

record ramfs =
  heap :: "u32 \<rightharpoonup> ramfs_node"
  pages :: "u32 \<rightharpoonup> u8 list"
  fs_root :: u32
  file_descriptors :: "ramfs_fd list"
  total_nodes :: u32
  fs_pmm :: pmm

definition upd_node :: "u32 \<Rightarrow> (ramfs_node \<Rightarrow> ramfs_node) \<Rightarrow> ramfs \<Rightarrow> ramfs option" where
  \<comment> \<open>a store through a node pointer, \<open>p->field = v\<close>\<close>
  "upd_node p f fs = map_option (\<lambda>n. fs\<lparr>heap := (heap fs)(p \<mapsto> f n)\<rparr>) (heap fs p)"

definition upd_fd :: "nat \<Rightarrow> (ramfs_fd \<Rightarrow> ramfs_fd) \<Rightarrow> ramfs \<Rightarrow> ramfs" where
  "upd_fd i f fs = fs\<lparr>file_descriptors := (file_descriptors fs)[i := f (file_descriptors fs ! i)]\<rparr>"

section \<open>Credentials and permissions\<close>

definition ramfs_get_current_credentials :: "task option \<Rightarrow> u16 \<times> u16" where
  "ramfs_get_current_credentials cur =
     (case cur of Some t \<Rightarrow> (t_euid t, t_egid t) | None \<Rightarrow> (0, 0))"

definition required_perms :: "u8 \<Rightarrow> u16 \<Rightarrow> u16 \<Rightarrow> u16 \<Rightarrow> u16" where
  \<comment> \<open>the three guarded \<open>|=\<close> of one permission class\<close>
  "required_perms access r w x =
     (if access AND RAMFS_FLAG_READ \<noteq> 0 then r else 0) OR
     (if access AND RAMFS_FLAG_WRITE \<noteq> 0 then w else 0) OR
     (if access AND RAMFS_FLAG_EXEC \<noteq> 0 then x else 0)"

definition ramfs_check_permission :: "task option \<Rightarrow> ramfs_node \<Rightarrow> u16 \<Rightarrow> u16 \<Rightarrow> u8 \<Rightarrow> bool" where
  "ramfs_check_permission cur n uid gid access =
     (if uid = 0 then True
      else if access AND (RAMFS_FLAG_READ OR RAMFS_FLAG_WRITE OR RAMFS_FLAG_EXEC) = 0 then False
      else
        let req =
          (if uid = nd_uid n then
             required_perms access RAMFS_PERM_OWNER_READ RAMFS_PERM_OWNER_WRITE RAMFS_PERM_OWNER_EXEC
           else if gid = nd_gid n then
             required_perms access RAMFS_PERM_GROUP_READ RAMFS_PERM_GROUP_WRITE RAMFS_PERM_GROUP_EXEC
           else if (case cur of Some t \<Rightarrow> nd_gid n \<in> set (t_groups t) | None \<Rightarrow> False) then
             required_perms access RAMFS_PERM_GROUP_READ RAMFS_PERM_GROUP_WRITE RAMFS_PERM_GROUP_EXEC
           else
             required_perms access RAMFS_PERM_OTHER_READ RAMFS_PERM_OTHER_WRITE RAMFS_PERM_OTHER_EXEC)
        in nd_mode n AND req = req)"

definition permitted :: "task option \<Rightarrow> ramfs_node \<Rightarrow> u8 \<Rightarrow> bool" where
  \<comment> \<open>\<open>ramfs_get_current_credentials(&uid, &gid)\<close> followed by \<open>ramfs_check_permission\<close>\<close>
  "permitted cur n access =
     (case ramfs_get_current_credentials cur of (uid, gid) \<Rightarrow> ramfs_check_permission cur n uid gid access)"

definition may_search :: "task option \<Rightarrow> ramfs_node \<Rightarrow> bool" where
  "may_search cur dir = permitted cur dir RAMFS_FLAG_EXEC"

definition hidden_from_caller :: "task option \<Rightarrow> ramfs \<Rightarrow> ramfs_node \<Rightarrow> bool option" where
  "hidden_from_caller cur fs n =
     (let uid = fst (ramfs_get_current_credentials cur) in
      if uid = 0 \<or> nd_parent n = 0 \<or> nd_uid n = uid then Some False
      else do {
        par \<leftarrow> heap fs (nd_parent n);
        Some (if permitted cur par RAMFS_FLAG_READ then False
              else \<not> permitted cur n RAMFS_FLAG_READ \<and> \<not> permitted cur n RAMFS_FLAG_WRITE \<and>
                   \<not> permitted cur n RAMFS_FLAG_EXEC)
      })"

definition ramfs_format_permissions :: "u16 \<Rightarrow> string" where
  "ramfs_format_permissions mode =
     [if mode AND RAMFS_PERM_OWNER_READ \<noteq> 0 then CHR ''r'' else CHR ''-'',
      if mode AND RAMFS_PERM_OWNER_WRITE \<noteq> 0 then CHR ''w'' else CHR ''-'',
      if mode AND RAMFS_PERM_OWNER_EXEC \<noteq> 0 then CHR ''x'' else CHR ''-'',
      if mode AND RAMFS_PERM_GROUP_READ \<noteq> 0 then CHR ''r'' else CHR ''-'',
      if mode AND RAMFS_PERM_GROUP_WRITE \<noteq> 0 then CHR ''w'' else CHR ''-'',
      if mode AND RAMFS_PERM_GROUP_EXEC \<noteq> 0 then CHR ''x'' else CHR ''-'',
      if mode AND RAMFS_PERM_OTHER_READ \<noteq> 0 then CHR ''r'' else CHR ''-'',
      if mode AND RAMFS_PERM_OTHER_WRITE \<noteq> 0 then CHR ''w'' else CHR ''-'',
      if mode AND RAMFS_PERM_OTHER_EXEC \<noteq> 0 then CHR ''x'' else CHR ''-'']"

section \<open>Node allocation\<close>

definition new_node :: "string \<Rightarrow> ramfs_type \<Rightarrow> u16 \<Rightarrow> u16 \<Rightarrow> ramfs_node" where
  \<comment> \<open>the \<open>memset\<close> and field stores of \<open>alloc_node\<close>\<close>
  "new_node name type uid gid =
     \<lparr>nd_name = take (RAMFS_MAX_NAME - 1) name, nd_type = type, nd_size = 0,
      nd_mode = (if type = RAMFS_TYPE_DIR then RAMFS_DEFAULT_DIR_MODE else RAMFS_DEFAULT_FILE_MODE),
      nd_uid = uid, nd_gid = gid, child_count = 0,
      data_pages = replicate RAMFS_MAX_PAGES 0, nd_parent = 0, nd_children = 0, nd_next = 0\<rparr>"

definition alloc_node :: "string \<Rightarrow> ramfs_type \<Rightarrow> u16 \<Rightarrow> u16 \<Rightarrow> ramfs \<Rightarrow> u32 \<times> ramfs" where
  "alloc_node name type uid gid fs =
     (if total_nodes fs \<ge> of_nat RAMFS_MAX_FILES then (0, fs)
      else case pmm_alloc (fs_pmm fs) of (p, pm) \<Rightarrow>
        if p = 0 then (0, fs\<lparr>fs_pmm := pm\<rparr>)
        else (p, fs\<lparr>heap := (heap fs)(p \<mapsto> new_node name type uid gid),
                    total_nodes := total_nodes fs + 1, fs_pmm := pm\<rparr>))"

primrec free_pages :: "u32 list \<Rightarrow> ramfs \<Rightarrow> ramfs" where
  "free_pages [] fs = fs"
| "free_pages (pg # pgs) fs =
     free_pages pgs
       (if pg \<noteq> 0 then fs\<lparr>pages := (pages fs)(pg := None), fs_pmm := pmm_free pg (fs_pmm fs)\<rparr> else fs)"

definition free_node :: "u32 \<Rightarrow> ramfs \<Rightarrow> ramfs option" where
  "free_node p fs =
     (if p = 0 then Some fs
      else do {
        n \<leftarrow> heap fs p;
        let fs = free_pages (data_pages n) fs;
        Some (fs\<lparr>heap := (heap fs)(p := None), fs_pmm := pmm_free p (fs_pmm fs),
                 total_nodes := total_nodes fs - 1\<rparr>)
      })"

definition ramfs_node_is_busy :: "(u32 \<Rightarrow> bool) option \<Rightarrow> ramfs \<Rightarrow> u32 \<Rightarrow> bool" where
  "ramfs_node_is_busy hook fs p =
     (p \<noteq> 0 \<and>
      ((\<exists>f \<in> set (file_descriptors fs). in_use f \<and> fd_node f = p) \<or>
       (case hook of Some h \<Rightarrow> h p | None \<Rightarrow> False)))"

section \<open>Paths\<close>

definition push_comp :: "string list \<Rightarrow> string \<Rightarrow> string list option" where
  \<comment> \<open>terminate a component and refuse \<open>..\<close> and \<open>.\<close>\<close>
  "push_comp comps c = (if c = ''..'' \<or> c = ''.'' then None else Some (comps @ [c]))"

fun split_loop :: "nat \<Rightarrow> string list \<Rightarrow> string \<Rightarrow> string \<Rightarrow> string list option" where
  \<comment> \<open>arguments: the component limit, the components so far, the current one, the rest of the path\<close>
  "split_loop m comps c [] = (if c \<noteq> [] then push_comp comps c else Some comps)"
| "split_loop m comps c (x # path) =
     (if length comps < m then
        if x = CHR ''/'' then
          if c = [] then split_loop m comps c path
          else do { comps' \<leftarrow> push_comp comps c; split_loop m comps' [] path }
        else split_loop m comps (if length c < RAMFS_MAX_NAME - 1 then c @ [x] else c) path
      else None)"

definition split_path :: "string \<Rightarrow> string list option" where
  \<comment> \<open>\<open>None\<close> is the return value -1; every caller passes 16 as the limit\<close>
  "split_path path = split_loop 16 [] [] (dropWhile (\<lambda>x. x = CHR ''/'') path)"

section \<open>Lookup\<close>

fun find_child :: "ramfs \<Rightarrow> string \<Rightarrow> nat \<Rightarrow> u32 \<Rightarrow> u32 option" where
  \<comment> \<open>the bounded sibling walk of \<open>ramfs_lookup_locked\<close>; 0 is not found or list corrupted\<close>
  "find_child fs name k p =
     (if p = 0 then Some 0
      else case k of 0 \<Rightarrow> Some 0
        | Suc k' \<Rightarrow> do {
            n \<leftarrow> heap fs p;
            if nd_name n = name then Some p else find_child fs name k' (nd_next n)
          })"

fun lookup_comps :: "task option \<Rightarrow> bool \<Rightarrow> ramfs \<Rightarrow> string list \<Rightarrow> u32 \<Rightarrow> u32 option" where
  "lookup_comps cur hide fs [] p = Some p"
| "lookup_comps cur hide fs (c # cs) p = do {
     n \<leftarrow> heap fs p;
     if nd_type n \<noteq> RAMFS_TYPE_DIR then Some 0
     else if \<not> may_search cur n then Some 0
     else do {
       ch \<leftarrow> find_child fs c RAMFS_MAX_FILES (nd_children n);
       if ch = 0 then Some 0
       else do {
         chn \<leftarrow> heap fs ch;
         hid \<leftarrow> (if hide then hidden_from_caller cur fs chn else Some False);
         if hid then Some 0 else lookup_comps cur hide fs cs ch
       }
     }
   }"

definition ramfs_lookup_locked :: "task option \<Rightarrow> ramfs \<Rightarrow> string \<Rightarrow> bool \<Rightarrow> u32 option" where
  "ramfs_lookup_locked cur fs path hide =
     (if fs_root fs = 0 then Some 0
      else if path = ''/'' then Some (fs_root fs)
      else case split_path path of
        None \<Rightarrow> Some 0
      | Some comps \<Rightarrow> lookup_comps cur hide fs comps (fs_root fs))"

definition ramfs_find_locked :: "task option \<Rightarrow> ramfs \<Rightarrow> string \<Rightarrow> u32 option" where
  "ramfs_find_locked cur fs path = ramfs_lookup_locked cur fs path True"

definition ramfs_find_any_locked :: "task option \<Rightarrow> ramfs \<Rightarrow> string \<Rightarrow> u32 option" where
  "ramfs_find_any_locked cur fs path = ramfs_lookup_locked cur fs path False"

definition ramfs_find :: "task option \<Rightarrow> ramfs \<Rightarrow> string \<Rightarrow> u32 option" where
  "ramfs_find cur fs path = ramfs_find_locked cur fs path"

partial_function (option) find_sibling :: "ramfs \<Rightarrow> string \<Rightarrow> u32 \<Rightarrow> u32 option" where
  \<comment> \<open>the sibling walk of \<open>walk_to_parent\<close>, which has no iteration bound\<close>
  "find_sibling fs name p =
     (if p = 0 then Some 0
      else Option.bind (heap fs p)
        (\<lambda>n. if nd_name n = name then Some p else find_sibling fs name (nd_next n)))"

fun walk_loop :: "task option \<Rightarrow> ramfs \<Rightarrow> string list \<Rightarrow> u32 \<Rightarrow> (int + u32) option" where
  "walk_loop cur fs [] p = do {
     n \<leftarrow> heap fs p;
     Some (if may_search cur n then Inr p else Inl WALK_DENIED)
   }"
| "walk_loop cur fs (c # cs) p = do {
     n \<leftarrow> heap fs p;
     if \<not> may_search cur n then Some (Inl WALK_DENIED)
     else do {
       ch \<leftarrow> find_sibling fs c (nd_children n);
       if ch = 0 then Some (Inl WALK_NOT_FOUND)
       else do {
         chn \<leftarrow> heap fs ch;
         hid \<leftarrow> hidden_from_caller cur fs chn;
         if hid then Some (Inl WALK_NOT_FOUND)
         else if nd_type chn \<noteq> RAMFS_TYPE_DIR then Some (Inl WALK_NOT_DIR)
         else walk_loop cur fs cs ch
       }
     }
   }"

definition walk_to_parent :: "task option \<Rightarrow> ramfs \<Rightarrow> string list \<Rightarrow> (int + u32) option" where
  \<comment> \<open>\<open>Inl\<close> is the error code, \<open>Inr\<close> the directory stored in \<open>*parent_out\<close>\<close>
  "walk_to_parent cur fs comps = walk_loop cur fs (butlast comps) (fs_root fs)"

section \<open>Directories\<close>

definition ramfs_init :: "ramfs \<Rightarrow> ramfs" where
  "ramfs_init fs =
     (case alloc_node ''/'' RAMFS_TYPE_DIR 0 0 fs of (r, fs) \<Rightarrow>
        if r = 0 then fs\<lparr>fs_root := 0\<rparr>
        else fs\<lparr>fs_root := r,
                heap := (heap fs)(r := map_option (\<lambda>n. n\<lparr>nd_mode := 457\<rparr>) (heap fs r)),
                file_descriptors :=
                  map (\<lambda>f. f\<lparr>in_use := False, fd_node := 0, fd_pos := 0, fd_flags := 0\<rparr>)
                    (file_descriptors fs)\<rparr>)"

definition link_child :: "u32 \<Rightarrow> u32 \<Rightarrow> ramfs \<Rightarrow> ramfs option" where
  \<comment> \<open>the four stores that hang a fresh node at the head of \<open>parent->children\<close>\<close>
  "link_child par p fs = do {
     pn \<leftarrow> heap fs par;
     fs \<leftarrow> upd_node p (\<lambda>n. n\<lparr>nd_parent := par, nd_next := nd_children pn\<rparr>) fs;
     upd_node par (\<lambda>n. n\<lparr>nd_children := p, child_count := child_count n + 1\<rparr>) fs
   }"

definition ramfs_mkdir :: "task option \<Rightarrow> string \<Rightarrow> ramfs \<Rightarrow> (int \<times> ramfs) option" where
  "ramfs_mkdir cur path fs =
     (if fs_root fs = 0 then Some (-1, fs)
      else do {
        ex \<leftarrow> ramfs_find_locked cur fs path;
        if ex \<noteq> 0 then Some (-2, fs)
        else case split_path path of
          None \<Rightarrow> Some (-7, fs)
        | Some comps \<Rightarrow>
            if comps = [] then Some (-1, fs)
            else do {
              walk \<leftarrow> walk_to_parent cur fs comps;
              case walk of
                Inl e \<Rightarrow> Some (if e = WALK_NOT_DIR then -3 else if e = WALK_NOT_FOUND then -4 else -5, fs)
              | Inr par \<Rightarrow> do {
                  pn \<leftarrow> heap fs par;
                  if \<not> permitted cur pn RAMFS_FLAG_WRITE then Some (-5, fs)
                  else do {
                    any \<leftarrow> ramfs_find_any_locked cur fs path;
                    if any \<noteq> 0 then Some (-2, fs)
                    else if child_count pn \<ge> RAMFS_MAX_CHILDREN_PER_DIR then Some (-9, fs)
                    else case ramfs_get_current_credentials cur of (uid, gid) \<Rightarrow>
                      case alloc_node (last comps) RAMFS_TYPE_DIR uid gid fs of (p, fs) \<Rightarrow>
                        if p = 0 then Some (-6, fs)
                        else do { fs \<leftarrow> link_child par p fs; Some (0, fs) }
                  }
                }
            }
      })"

section \<open>Descriptors\<close>

definition ramfs_pick_fd :: "task option \<Rightarrow> ramfs \<Rightarrow> int" where
  "ramfs_pick_fd self fs =
     (let fds = file_descriptors fs;
          free = filter (\<lambda>i. \<not> in_use (fds ! i)) [0..<RAMFS_MAX_FDS] in
      case free of
        [] \<Rightarrow> -2
      | fd # _ \<Rightarrow>
          (case self of
             None \<Rightarrow> int fd
           | Some t \<Rightarrow>
               let used = filter (\<lambda>i. in_use (fds ! i)) [0..<RAMFS_MAX_FDS];
                   mine = length (filter (\<lambda>i. owner_pid (fds ! i) = t_pid t \<and>
                                             owner_generation (fds ! i) = t_generation t) used);
                   uid_held = length (filter (\<lambda>i. owner_uid (fds ! i) = t_uid t) used) in
               if mine \<ge> PROCESS_MAX_FDS then - EMFILE
               else if t_euid t \<noteq> 0 \<and>
                       (uid_held \<ge> RAMFS_USER_MAX_FDS \<or> length free \<le> RAMFS_ROOT_RESERVED_FDS)
                    then RAMFS_OPEN_LIMIT
               else int fd))"

definition open_create :: "task option \<Rightarrow> string \<Rightarrow> ramfs \<Rightarrow> ((int + u32) \<times> ramfs) option" where
  \<comment> \<open>the create branch of \<open>ramfs_open\<close>: \<open>Inl\<close> is an early return, \<open>Inr\<close> the node\<close>
  "open_create cur path fs = do {
     nd \<leftarrow> ramfs_find_locked cur fs path;
     if nd \<noteq> 0 then Some (Inr nd, fs)
     else case split_path path of
       None \<Rightarrow> Some (Inl (-8), fs)
     | Some comps \<Rightarrow>
         if comps = [] then Some (Inl (-1), fs)
         else do {
           walk \<leftarrow> walk_to_parent cur fs comps;
           case walk of
             Inl e \<Rightarrow> Some (Inl (if e = WALK_DENIED then RAMFS_CREATE_EPERM else -4), fs)
           | Inr par \<Rightarrow> do {
               pn \<leftarrow> heap fs par;
               if child_count pn \<ge> RAMFS_MAX_CHILDREN_PER_DIR then Some (Inl (-9), fs)
               else if \<not> permitted cur pn RAMFS_FLAG_WRITE then Some (Inl RAMFS_CREATE_EPERM, fs)
               else do {
                 any \<leftarrow> ramfs_find_any_locked cur fs path;
                 if any \<noteq> 0 then Some (Inl (-7), fs)
                 else case ramfs_get_current_credentials cur of (uid, gid) \<Rightarrow>
                   case alloc_node (last comps) RAMFS_TYPE_FILE uid gid fs of (p, fs) \<Rightarrow>
                     if p = 0 then Some (Inl (-5), fs)
                     else do { fs \<leftarrow> link_child par p fs; Some (Inr p, fs) }
               }
             }
         }
   }"

definition open_node :: "task option \<Rightarrow> u32 \<Rightarrow> u8 \<Rightarrow> ramfs \<Rightarrow> (int \<times> ramfs) option" where
  \<comment> \<open>the checks on the node and the claim of a slot\<close>
  "open_node cur nd flags fs =
     (if nd = 0 then Some (-3, fs)
      else do {
        n \<leftarrow> heap fs nd;
        if flags AND RAMFS_FLAG_NOFOLLOW \<noteq> 0 \<and> nd_type n = RAMFS_TYPE_SYMLINK then Some (-8, fs)
        else if nd_type n \<noteq> RAMFS_TYPE_FILE then Some (-6, fs)
        else if \<not> permitted cur n flags then Some (-7, fs)
        else let fd = ramfs_pick_fd cur fs in
          if fd < 0 then Some (fd, fs)
          else Some (fd, upd_fd (nat fd) (\<lambda>f. f\<lparr>fd_node := nd, fd_pos := 0, fd_flags := flags,
              in_use := True, refs := 1, close_on_exec := (flags AND RAMFS_FLAG_INHERIT = 0),
              owner_pid := (case cur of Some t \<Rightarrow> t_pid t | None \<Rightarrow> 0),
              owner_generation := (case cur of Some t \<Rightarrow> t_generation t | None \<Rightarrow> 0),
              owner_uid := (case cur of Some t \<Rightarrow> t_uid t | None \<Rightarrow> 0)\<rparr>) fs)
      })"

definition ramfs_open :: "task option \<Rightarrow> string \<Rightarrow> u8 \<Rightarrow> ramfs \<Rightarrow> (int \<times> ramfs) option" where
  "ramfs_open cur path flags fs =
     (if fs_root fs = 0 then Some (-1, fs)
      else let fd = ramfs_pick_fd cur fs in
        if fd < 0 then Some (fd, fs)
        else do {
          nd \<leftarrow> ramfs_find cur fs path;
          if nd = 0 \<and> flags AND RAMFS_FLAG_WRITE \<noteq> 0 then do {
            (res, fs) \<leftarrow> open_create cur path fs;
            case res of Inl e \<Rightarrow> Some (e, fs) | Inr nd \<Rightarrow> open_node cur nd flags fs
          }
          else open_node cur nd flags fs
        })"

definition fd_ok :: "ramfs \<Rightarrow> int \<Rightarrow> bool" where
  \<comment> \<open>the negation of \<open>fd < 0 || fd >= RAMFS_MAX_FDS || !file_descriptors[fd].in_use\<close>\<close>
  "fd_ok fs fd \<longleftrightarrow> 0 \<le> fd \<and> fd < int RAMFS_MAX_FDS \<and> in_use (file_descriptors fs ! nat fd)"

section \<open>File contents\<close>

fun read_loop :: "ramfs \<Rightarrow> ramfs_node \<Rightarrow> u32 \<Rightarrow> nat \<Rightarrow> nat \<Rightarrow> u8 list option" where
  \<comment> \<open>arguments: the position, the index \<open>i\<close> and how many bytes are still wanted\<close>
  "read_loop fs n pos i 0 = Some []"
| "read_loop fs n pos i (Suc k) =
     (let off = pos + of_nat i; page = unat (off div of_nat RAMFS_PAGE_SIZE) in
      if page \<ge> RAMFS_MAX_PAGES \<or> data_pages n ! page = 0 then Some []
      else do {
        bytes \<leftarrow> pages fs (data_pages n ! page);
        rest \<leftarrow> read_loop fs n pos (Suc i) k;
        Some (bytes ! unat (off mod of_nat RAMFS_PAGE_SIZE) # rest)
      })"

definition ramfs_read :: "int \<Rightarrow> u32 \<Rightarrow> ramfs \<Rightarrow> (int \<times> u8 list \<times> ramfs) option" where
  \<comment> \<open>the second component is what is stored at the start of \<open>buf\<close>\<close>
  "ramfs_read fd count fs =
     (if \<not> fd_ok fs fd then Some (-1, [], fs)
      else let f = file_descriptors fs ! nat fd in
        if fd_flags f AND RAMFS_FLAG_READ = 0 then Some (-2, [], fs)
        else if fd_node f = 0 then Some (-3, [], fs)
        else do {
          n \<leftarrow> heap fs (fd_node f);
          let pos = fd_pos f;
          if pos \<ge> nd_size n then Some (0, [], fs)
          else do {
            let available = nd_size n - pos;
            let to_read = (if count < available then count else available);
            bytes \<leftarrow> read_loop fs n pos 0 (unat to_read);
            if bytes = [] then Some (-5, [], fs)
            else Some (int (length bytes), bytes,
              upd_fd (nat fd) (\<lambda>f. f\<lparr>fd_pos := fd_pos f + of_nat (length bytes)\<rparr>) fs)
          }
        })"

definition write_page :: "u32 \<Rightarrow> nat \<Rightarrow> ramfs \<Rightarrow> (bool \<times> ramfs) option" where
  \<comment> \<open>make sure slot \<open>page\<close> of the node is backed; \<open>False\<close> when the allocator has nothing\<close>
  "write_page p page fs = do {
     n \<leftarrow> heap fs p;
     if data_pages n ! page \<noteq> 0 then Some (True, fs)
     else case pmm_alloc (fs_pmm fs) of (pg, pm) \<Rightarrow> do {
       fs \<leftarrow> upd_node p (\<lambda>n. n\<lparr>data_pages := (data_pages n)[page := pg]\<rparr>) (fs\<lparr>fs_pmm := pm\<rparr>);
       Some (if pg = 0 then (False, fs)
             else (True, fs\<lparr>pages := (pages fs)(pg \<mapsto> replicate RAMFS_PAGE_SIZE 0)\<rparr>))
     }
   }"

fun write_loop :: "u32 \<Rightarrow> u32 \<Rightarrow> nat \<Rightarrow> u8 list \<Rightarrow> ramfs \<Rightarrow> (nat \<times> ramfs) option" where
  \<comment> \<open>arguments: the node, the position, the index \<open>i\<close> and the bytes still to write\<close>
  "write_loop p pos i [] fs = Some (i, fs)"
| "write_loop p pos i (b # bs) fs =
     (let off = pos + of_nat i; page = unat (off div of_nat RAMFS_PAGE_SIZE) in
      if page \<ge> RAMFS_MAX_PAGES then Some (i, fs)
      else do {
        (ok, fs) \<leftarrow> write_page p page fs;
        if \<not> ok then Some (i, fs)
        else do {
          n \<leftarrow> heap fs p;
          let pg = data_pages n ! page;
          bytes \<leftarrow> pages fs pg;
          let fs = fs\<lparr>pages := (pages fs)(pg \<mapsto> bytes[unat (off mod of_nat RAMFS_PAGE_SIZE) := b])\<rparr>;
          write_loop p pos (Suc i) bs fs
        }
      })"

definition ramfs_write :: "int \<Rightarrow> u8 list \<Rightarrow> u32 \<Rightarrow> ramfs \<Rightarrow> (int \<times> ramfs) option" where
  "ramfs_write fd buf count fs =
     (if \<not> fd_ok fs fd then Some (-1, fs)
      else let f = file_descriptors fs ! nat fd in
        if fd_flags f AND RAMFS_FLAG_WRITE = 0 then Some (-2, fs)
        else if fd_node f = 0 then Some (-3, fs)
        else let pos = fd_pos f in
        if pos \<ge> RAMFS_MAX_DATA then Some (if count > 0 then RAMFS_WRITE_EFBIG else 0, fs)
        else do {
          let count = (if count > RAMFS_MAX_DATA - pos then RAMFS_MAX_DATA - pos else count);
          (i, fs) \<leftarrow> write_loop (fd_node f) pos 0 (take (unat count) buf) fs;
          let needed_size = pos + of_nat i;
          let fs = upd_fd (nat fd) (\<lambda>f. f\<lparr>fd_pos := fd_pos f + of_nat i\<rparr>) fs;
          fs \<leftarrow> upd_node (fd_node f)
                 (\<lambda>n. if needed_size > nd_size n then n\<lparr>nd_size := needed_size\<rparr> else n) fs;
          Some (int i, fs)
        })"

primrec zero_pages :: "u32 list \<Rightarrow> ramfs \<Rightarrow> ramfs option" where
  "zero_pages [] fs = Some fs"
| "zero_pages (pg # pgs) fs =
     (if pg \<noteq> 0 then do {
        bytes \<leftarrow> pages fs pg;
        zero_pages pgs (fs\<lparr>pages := (pages fs)(pg \<mapsto> replicate RAMFS_PAGE_SIZE 0)\<rparr>)
      }
      else zero_pages pgs fs)"

definition ramfs_truncate :: "int \<Rightarrow> ramfs \<Rightarrow> (int \<times> ramfs) option" where
  "ramfs_truncate fd fs =
     (if \<not> fd_ok fs fd then Some (-1, fs)
      else let f = file_descriptors fs ! nat fd in
        if fd_flags f AND RAMFS_FLAG_WRITE = 0 then Some (-13, fs)
        else if fd_node f = 0 then Some (-3, fs)
        else do {
          n \<leftarrow> heap fs (fd_node f);
          if nd_type n \<noteq> RAMFS_TYPE_FILE then Some (-21, fs)
          else do {
            fs \<leftarrow> zero_pages (data_pages n) fs;
            fs \<leftarrow> upd_node (fd_node f) (\<lambda>n. n\<lparr>nd_size := 0\<rparr>) fs;
            Some (0, upd_fd (nat fd) (\<lambda>f. f\<lparr>fd_pos := 0\<rparr>) fs)
          }
        })"

definition ramfs_seek :: "int \<Rightarrow> u32 \<Rightarrow> ramfs \<Rightarrow> (int \<times> ramfs) option" where
  "ramfs_seek fd offset fs =
     (if \<not> fd_ok fs fd then Some (-1, fs)
      else let f = file_descriptors fs ! nat fd in
        if fd_node f = 0 then Some (-3, fs)
        else do {
          n \<leftarrow> heap fs (fd_node f);
          let offset = (if offset > nd_size n then nd_size n else offset);
          Some (sint offset, upd_fd (nat fd) (\<lambda>f. f\<lparr>fd_pos := offset\<rparr>) fs)
        })"

definition ramfs_tell :: "int \<Rightarrow> ramfs \<Rightarrow> int" where
  "ramfs_tell fd fs =
     (if \<not> fd_ok fs fd then -1 else sint (fd_pos (file_descriptors fs ! nat fd)))"

definition ramfs_fd_size :: "int \<Rightarrow> ramfs \<Rightarrow> int option" where
  "ramfs_fd_size fd fs =
     (if \<not> fd_ok fs fd then Some (-1)
      else let f = file_descriptors fs ! nat fd in
        if fd_node f = 0 then Some (-3)
        else do { n \<leftarrow> heap fs (fd_node f); Some (sint (nd_size n)) })"

definition ramfs_fd_ref :: "int \<Rightarrow> ramfs \<Rightarrow> int \<times> ramfs" where
  "ramfs_fd_ref fd fs =
     (if fd < 0 \<or> fd \<ge> int RAMFS_MAX_FDS then (-1, fs)
      else let f = file_descriptors fs ! nat fd in
        if in_use f \<and> refs f < 255 then (0, upd_fd (nat fd) (\<lambda>f. f\<lparr>refs := refs f + 1\<rparr>) fs)
        else (-1, fs))"

definition ramfs_close :: "int \<Rightarrow> ramfs \<Rightarrow> ramfs" where
  "ramfs_close fd fs =
     (if fd < 0 \<or> fd \<ge> int RAMFS_MAX_FDS then fs
      else let f = file_descriptors fs ! nat fd in
        if in_use f then
          if refs f > 1 then upd_fd (nat fd) (\<lambda>f. f\<lparr>refs := refs f - 1\<rparr>) fs
          else upd_fd (nat fd) (\<lambda>f. f\<lparr>refs := 0, in_use := False, fd_node := 0, fd_pos := 0,
                 fd_flags := 0, owner_pid := 0, owner_generation := 0, owner_uid := 0\<rparr>) fs
        else fs)"

section \<open>Removing and renaming\<close>

fun find_prev :: "ramfs \<Rightarrow> u32 \<Rightarrow> nat \<Rightarrow> u32 \<Rightarrow> (unit + u32) option" where
  \<comment> \<open>the bounded search for the predecessor; \<open>Inl\<close> is list corruption detected\<close>
  "find_prev fs p k prev =
     (if prev = 0 then Some (Inr 0)
      else do {
        n \<leftarrow> heap fs prev;
        if nd_next n = p then Some (Inr prev)
        else case k of 0 \<Rightarrow> Some (Inl ()) | Suc k' \<Rightarrow> find_prev fs p k' (nd_next n)
      })"

definition unlink_child :: "u32 \<Rightarrow> u32 \<Rightarrow> ramfs \<Rightarrow> (unit + ramfs) option" where
  \<comment> \<open>the list surgery shared by \<open>ramfs_unlink\<close> and \<open>ramfs_rmdir\<close>, child count included\<close>
  "unlink_child par p fs = do {
     pn \<leftarrow> heap fs par;
     n \<leftarrow> heap fs p;
     res \<leftarrow>
       (if nd_children pn = p
        then map_option Inr (upd_node par (\<lambda>m. m\<lparr>nd_children := nd_next n\<rparr>) fs)
        else do {
          r \<leftarrow> find_prev fs p RAMFS_MAX_FILES (nd_children pn);
          case r of
            Inl _ \<Rightarrow> Some (Inl ())
          | Inr prev \<Rightarrow>
              if prev \<noteq> 0 then map_option Inr (upd_node prev (\<lambda>m. m\<lparr>nd_next := nd_next n\<rparr>) fs)
              else Some (Inr fs)
        });
     case res of
       Inl _ \<Rightarrow> Some (Inl ())
     | Inr fs \<Rightarrow> map_option Inr (upd_node par (\<lambda>m. m\<lparr>child_count := child_count m - 1\<rparr>) fs)
   }"

definition ramfs_unlink ::
  "task option \<Rightarrow> (u32 \<Rightarrow> bool) option \<Rightarrow> string \<Rightarrow> ramfs \<Rightarrow> (int \<times> ramfs) option" where
  "ramfs_unlink cur hook path fs = do {
     p \<leftarrow> ramfs_find_locked cur fs path;
     if p = 0 \<or> p = fs_root fs then Some (-1, fs)
     else do {
       n \<leftarrow> heap fs p;
       if nd_type n \<noteq> RAMFS_TYPE_FILE then Some (-2, fs)
       else if nd_parent n = 0 then Some (-3, fs)
       else do {
         pn \<leftarrow> heap fs (nd_parent n);
         if \<not> permitted cur pn RAMFS_FLAG_WRITE then Some (-4, fs)
         else if ramfs_node_is_busy hook fs p then Some (RAMFS_BUSY, fs)
         else do {
           res \<leftarrow> unlink_child (nd_parent n) p fs;
           case res of
             Inl _ \<Rightarrow> Some (-5, fs)
           | Inr fs \<Rightarrow> do { fs \<leftarrow> free_node p fs; Some (0, fs) }
         }
       }
     }
   }"

definition ramfs_rmdir ::
  "task option \<Rightarrow> (u32 \<Rightarrow> bool) option \<Rightarrow> string \<Rightarrow> ramfs \<Rightarrow> (int \<times> ramfs) option" where
  "ramfs_rmdir cur hook path fs = do {
     p \<leftarrow> ramfs_find_locked cur fs path;
     if p = 0 \<or> p = fs_root fs then Some (-1, fs)
     else do {
       n \<leftarrow> heap fs p;
       if nd_type n \<noteq> RAMFS_TYPE_DIR then Some (-2, fs)
       else if nd_children n \<noteq> 0 then Some (-3, fs)
       else if nd_parent n = 0 then Some (-4, fs)
       else do {
         pn \<leftarrow> heap fs (nd_parent n);
         if \<not> permitted cur pn RAMFS_FLAG_WRITE then Some (-5, fs)
         else if ramfs_node_is_busy hook fs p then Some (RAMFS_BUSY, fs)
         else do {
           res \<leftarrow> unlink_child (nd_parent n) p fs;
           case res of
             Inl _ \<Rightarrow> Some (-6, fs)
           | Inr fs \<Rightarrow> do { fs \<leftarrow> free_node p fs; Some (0, fs) }
         }
       }
     }
   }"

definition ramfs_rename :: "task option \<Rightarrow> string \<Rightarrow> string \<Rightarrow> ramfs \<Rightarrow> (int \<times> ramfs) option" where
  "ramfs_rename cur old_path new_path fs = do {
     p \<leftarrow> ramfs_find_locked cur fs old_path;
     if p = 0 \<or> p = fs_root fs then Some (-1, fs)
     else do {
       q \<leftarrow> ramfs_find_locked cur fs new_path;
       if q \<noteq> 0 then Some (-2, fs)
       else do {
         n \<leftarrow> heap fs p;
         if nd_parent n = 0 then Some (-3, fs)
         else do {
           pn \<leftarrow> heap fs (nd_parent n);
           if \<not> permitted cur pn RAMFS_FLAG_WRITE then Some (-4, fs)
           else case split_path new_path of
             None \<Rightarrow> Some (-3, fs)
           | Some comps \<Rightarrow>
               if comps = [] then Some (-3, fs)
               else do {
                 walk \<leftarrow> walk_to_parent cur fs comps;
                 case walk of
                   Inl e \<Rightarrow> Some (if e = WALK_DENIED then -4 else -3, fs)
                 | Inr new_parent \<Rightarrow>
                     if new_parent \<noteq> nd_parent n then Some (-3, fs)
                     else do {
                       any \<leftarrow> ramfs_find_any_locked cur fs new_path;
                       if any \<noteq> 0 then Some (-2, fs)
                       else do {
                         fs \<leftarrow> upd_node p (\<lambda>m. m\<lparr>nd_name := last comps\<rparr>) fs;
                         Some (0, fs)
                       }
                     }
               }
         }
       }
     }
   }"

section \<open>Listing, modes and temporary files\<close>

fun list_children :: "ramfs \<Rightarrow> nat \<Rightarrow> u32 \<Rightarrow> u32 list option" where
  "list_children fs k c =
     (if c = 0 then Some []
      else case k of 0 \<Rightarrow> Some []
        | Suc k' \<Rightarrow> do {
            n \<leftarrow> heap fs c;
            rest \<leftarrow> list_children fs k' (nd_next n);
            Some (c # rest)
          })"

definition ramfs_list :: "task option \<Rightarrow> string \<Rightarrow> nat \<Rightarrow> ramfs \<Rightarrow> (int + u32 \<times> u32 list) option" where
  \<comment> \<open>\<open>Inl\<close> is an error code; otherwise \<open>*node_out\<close> and the entries copied\<close>
  "ramfs_list cur path limit fs = do {
     p \<leftarrow> ramfs_find_locked cur fs path;
     if p = 0 then Some (Inl RAMFS_LIST_ENOENT)
     else do {
       n \<leftarrow> heap fs p;
       if \<not> permitted cur n RAMFS_FLAG_READ then Some (Inl RAMFS_LIST_EACCES)
       else do {
         es \<leftarrow> (if nd_type n = RAMFS_TYPE_DIR then list_children fs limit (nd_children n) else Some []);
         Some (Inr (p, es))
       }
     }
   }"

definition ramfs_chmod :: "task option \<Rightarrow> string \<Rightarrow> u16 \<Rightarrow> ramfs \<Rightarrow> (int \<times> ramfs) option" where
  "ramfs_chmod cur path mode fs = do {
     p \<leftarrow> ramfs_find cur fs path;
     if p = 0 then Some (-1, fs)
     else do {
       n \<leftarrow> heap fs p;
       let uid = fst (ramfs_get_current_credentials cur);
       if uid \<noteq> 0 \<and> uid \<noteq> nd_uid n then Some (RAMFS_CHMOD_EPERM, fs)
       else do {
         fs \<leftarrow> upd_node p (\<lambda>n. n\<lparr>nd_mode := mode AND RAMFS_PERM_MASK\<rparr>) fs;
         Some (0, fs)
       }
     }
   }"

definition hex_digits :: string where
  "hex_digits = ''0123456789abcdef''"

definition hex_of_byte :: "u8 \<Rightarrow> string" where
  "hex_of_byte b = [hex_digits ! unat (drop_bit 4 b AND 0xF), hex_digits ! unat (b AND 0xF)]"

definition mkstemps_path :: "string \<Rightarrow> u8 list \<Rightarrow> string" where
  \<comment> \<open>the three bounded copies into \<open>full_path[64]\<close>\<close>
  "mkstemps_path tmp_dir random_bytes =
     (let a = take 63 tmp_dir;
          b = a @ take (63 - length a) (concat (map hex_of_byte random_bytes)) in
      if length b < 59 then b @ ''.tmp'' else b)"

definition ramfs_mkstemps ::
  "task option \<Rightarrow> u8 list \<Rightarrow> u32 \<Rightarrow> ramfs \<Rightarrow> (int \<times> string \<times> ramfs) option" where
  \<comment> \<open>\<open>random_bytes\<close> are the 16 bytes drawn from the kernel's generator\<close>
  "ramfs_mkstemps cur random_bytes buf_size fs =
     (if buf_size < 64 then Some (-1, [], fs)
      else case cur of
        None \<Rightarrow> Some (-2, [], fs)
      | Some t \<Rightarrow> do {
          let full_path = mkstemps_path (t_private_tmp_dir t) random_bytes;
          existing \<leftarrow> ramfs_find cur fs full_path;
          if existing \<noteq> 0 then Some (-4, [], fs)
          else do {
            (fd, fs) \<leftarrow> ramfs_open cur full_path (RAMFS_FLAG_READ OR RAMFS_FLAG_WRITE) fs;
            if fd < 0 then Some (-4, [], fs) else Some (fd, full_path, fs)
          }
        })"

end
