(* ===== verification/Ramfs_Inv.thy ===== *)
theory Ramfs_Inv
  imports Ramfs_Model
begin

text \<open>
  The invariant of the RAM file system and the lemmas that the operations keep it: the
  sibling lists are finite chains that agree with \<^verbatim>\<open>child_count\<close> and with the parent
  pointers, names are unique in a directory, every node hangs below the root, frames are
  owned once and never free in the allocator, every byte below the size and below an open
  position has a backing page, and every open descriptor points at a live file.
\<close>

section \<open>Sibling chains\<close>

fun chain :: "(u32 \<rightharpoonup> ramfs_node) \<Rightarrow> u32 \<Rightarrow> u32 list \<Rightarrow> bool" where
  "chain h p [] \<longleftrightarrow> p = 0"
| "chain h p (x # xs) \<longleftrightarrow>
     p = x \<and> x \<noteq> 0 \<and> (case h x of Some n \<Rightarrow> chain h (nd_next n) xs | None \<Rightarrow> False)"

definition name_of :: "(u32 \<rightharpoonup> ramfs_node) \<Rightarrow> u32 \<Rightarrow> string" where
  "name_of h p = (case h p of Some n \<Rightarrow> nd_name n | None \<Rightarrow> [])"

definition pick :: "(u32 \<rightharpoonup> ramfs_node) \<Rightarrow> string \<Rightarrow> u32 list \<Rightarrow> u32" where
  \<comment> \<open>what a walk over the siblings finds: the first one of that name, or 0\<close>
  "pick h name xs = (case find (\<lambda>x. name_of h x = name) xs of Some x \<Rightarrow> x | None \<Rightarrow> 0)"

lemma chain_live: "chain h p xs \<Longrightarrow> x \<in> set xs \<Longrightarrow> \<exists>n. h x = Some n \<and> x \<noteq> 0"
  by (induction xs arbitrary: p) (auto split: option.splits)

lemma chain_Nil_iff: "chain h 0 xs \<longleftrightarrow> xs = []"
  by (cases xs) auto

lemma chain_cong:
  "(\<And>x. x \<in> set xs \<Longrightarrow> map_option nd_next (h x) = map_option nd_next (h' x)) \<Longrightarrow>
   chain h p xs = chain h' p xs"
proof (induction xs arbitrary: p)
  case (Cons x xs)
  from Cons.prems [of x] Cons.IH Cons.prems show ?case
    by (cases "h x"; cases "h' x") auto
qed simp

lemma chain_upd_skip: "x \<notin> set xs \<Longrightarrow> chain (h(x := v)) p xs = chain h p xs"
  by (rule chain_cong) auto

lemma pick_Nil [simp]: "pick h name [] = 0"
  by (simp add: pick_def)

lemma pick_Cons [simp]: "pick h name (x # xs) = (if name_of h x = name then x else pick h name xs)"
  by (simp add: pick_def)

declare find_child.simps [simp del] find_prev.simps [simp del] list_children.simps [simp del]

lemma find_child_chain:
  "chain (heap fs) p xs \<Longrightarrow> length xs \<le> k \<Longrightarrow> find_child fs name k p = Some (pick (heap fs) name xs)"
proof (induction xs arbitrary: p k)
  case (Cons x xs)
  then obtain k' where "k = Suc k'" by (cases k) auto
  with Cons show ?case
    by (subst find_child.simps) (auto simp: name_of_def split: option.splits)
qed (simp add: find_child.simps)

lemma find_sibling_chain:
  "chain (heap fs) p xs \<Longrightarrow> find_sibling fs name p = Some (pick (heap fs) name xs)"
proof (induction xs arbitrary: p)
  case (Cons x xs)
  then show ?case
    by (subst find_sibling.simps) (auto simp: name_of_def split: option.splits)
qed (simp add: find_sibling.simps)

lemma list_children_chain:
  "chain (heap fs) p xs \<Longrightarrow> list_children fs k p = Some (take k xs)"
proof (induction xs arbitrary: p k)
  case (Cons x xs)
  then show ?case
    by (subst list_children.simps) (auto split: option.splits nat.splits)
qed (simp add: list_children.simps)

lemma pick_in: "pick h name xs \<noteq> 0 \<Longrightarrow> pick h name xs \<in> set xs \<and> name_of h (pick h name xs) = name"
  by (induction xs) auto

lemma pick_0: "0 \<notin> set xs \<Longrightarrow> pick h name xs = 0 \<longleftrightarrow> name \<notin> name_of h ` set xs"
  by (induction xs) auto

lemma pick_eq: "distinct (map (name_of h) xs) \<Longrightarrow> x \<in> set xs \<Longrightarrow> pick h (name_of h x) xs = x"
  by (induction xs) auto

lemma find_prev_chain:
  assumes "chain (heap fs) a (xs @ prev # p # ys)" and "p \<notin> set xs" and "length xs \<le> k" and "p \<noteq> prev"
  shows "find_prev fs p k a = Some (Inr prev)"
  using assms
proof (induction xs arbitrary: a k)
  case Nil
  then show ?case by (subst find_prev.simps) (auto split: option.splits)
next
  case (Cons x xs)
  then obtain n where n: "heap fs x = Some n" "chain (heap fs) (nd_next n) (xs @ prev # p # ys)"
    and a: "a = x" "x \<noteq> 0"
    by (auto split: option.splits)
  obtain k' where k: "k = Suc k'" using Cons.prems by (cases k) auto
  have "nd_next n \<noteq> p"
    using n(2) Cons.prems by (cases xs) auto
  moreover have "find_prev fs p k' (nd_next n) = Some (Inr prev)"
    using Cons.IH [OF n(2)] Cons.prems k by simp
  ultimately show ?case using n a k by (subst find_prev.simps) simp
qed

lemma chain_remove:
  assumes "chain h a (xs @ prev # p # ys)" and "distinct (xs @ prev # p # ys)"
    and "h prev = Some pm" and "h p = Some n"
  shows "chain (h(prev \<mapsto> pm\<lparr>nd_next := nd_next n\<rparr>)) a (xs @ prev # ys)"
  using assms
proof (induction xs arbitrary: a)
  case Nil
  then show ?case by (auto simp: chain_upd_skip simp del: fun_upd_apply simp add: fun_upd_same)
next
  case (Cons x xs)
  then show ?case by (auto split: option.splits)
qed

section \<open>The tree\<close>

definition good_name :: "string \<Rightarrow> bool" where
  "good_name s \<longleftrightarrow> s \<noteq> [] \<and> length s < RAMFS_MAX_NAME \<and> CHR ''/'' \<notin> set s \<and> s \<noteq> ''.'' \<and> s \<noteq> ''..''"

definition dir_ok :: "(u32 \<Rightarrow> u32 list) \<Rightarrow> (u32 \<rightharpoonup> ramfs_node) \<Rightarrow> u32 \<Rightarrow> ramfs_node \<Rightarrow> bool" where
  "dir_ok K h d n \<longleftrightarrow>
     chain h (nd_children n) (K d) \<and> length (K d) = unat (child_count n) \<and>
     (nd_type n \<noteq> RAMFS_TYPE_DIR \<longrightarrow> K d = []) \<and> distinct (map (name_of h) (K d)) \<and>
     (\<forall>c \<in> set (K d). map_option nd_parent (h c) = Some d)"

definition entry_ok ::
  "(u32 \<Rightarrow> u32 list) \<Rightarrow> (u32 \<Rightarrow> nat) \<Rightarrow> (u32 \<rightharpoonup> ramfs_node) \<Rightarrow> u32 \<Rightarrow> ramfs_node \<Rightarrow> bool" where
  "entry_ok K D h c n \<longleftrightarrow>
     good_name (nd_name n) \<and> nd_parent n \<in> dom h \<and> c \<in> set (K (nd_parent n)) \<and>
     D c = Suc (D (nd_parent n))"

definition tree_ok ::
  "(u32 \<Rightarrow> u32 list) \<Rightarrow> (u32 \<Rightarrow> nat) \<Rightarrow> u32 \<Rightarrow> (u32 \<rightharpoonup> ramfs_node) \<Rightarrow> bool" where
  \<comment> \<open>\<open>K d\<close> lists the children of \<open>d\<close> and \<open>D\<close> is the depth below the root\<close>
  "tree_ok K D r h \<longleftrightarrow>
     (\<exists>rn. h r = Some rn \<and> nd_type rn = RAMFS_TYPE_DIR \<and> nd_parent rn = 0) \<and> h 0 = None \<and>
     finite (dom h) \<and> card (dom h) \<le> RAMFS_MAX_FILES \<and>
     (\<forall>d n. h d = Some n \<longrightarrow> dir_ok K h d n) \<and>
     (\<forall>c n. h c = Some n \<longrightarrow> c \<noteq> r \<longrightarrow> entry_ok K D h c n)"

lemma tree_okD:
  assumes "tree_ok K D r h"
  shows "h 0 = None" and "finite (dom h)" and "card (dom h) \<le> 64"
    and "h d = Some n \<Longrightarrow> dir_ok K h d n"
    and "h c = Some n \<Longrightarrow> c \<noteq> r \<Longrightarrow> entry_ok K D h c n"
  using assms by (auto simp: tree_ok_def)

lemma tree_ok_root:
  assumes "tree_ok K D r h"
  obtains rn where "h r = Some rn" and "nd_type rn = RAMFS_TYPE_DIR" and "nd_parent rn = 0" and "r \<noteq> 0"
proof -
  have "h 0 = None" by (rule tree_okD(1) [OF assms])
  then have "h r = Some rn \<Longrightarrow> r \<noteq> 0" for rn by auto
  with assms that show ?thesis unfolding tree_ok_def by blast
qed

lemma dir_okD:
  assumes "dir_ok K h d n"
  shows "chain h (nd_children n) (K d)" and "length (K d) = unat (child_count n)"
    and "nd_type n \<noteq> RAMFS_TYPE_DIR \<Longrightarrow> K d = []" and "distinct (map (name_of h) (K d))"
    and "distinct (K d)" and "c \<in> set (K d) \<Longrightarrow> map_option nd_parent (h c) = Some d"
    and "0 \<notin> set (K d)"
  using assms chain_live [of h "nd_children n" "K d" 0] by (auto simp: dir_ok_def distinct_map)

lemma kids_live:
  assumes "tree_ok K D r h" and "h d = Some n" and "c \<in> set (K d)"
  obtains cn where "h c = Some cn" and "nd_parent cn = d" and "c \<noteq> r" and "c \<noteq> 0"
proof -
  have ok: "dir_ok K h d n" using assms by (auto simp: tree_ok_def)
  obtain cn where cn: "h c = Some cn" "c \<noteq> 0"
    using chain_live [OF dir_okD(1) [OF ok] assms(3)] by auto
  have par: "nd_parent cn = d" using dir_okD(6) [OF ok assms(3)] cn by simp
  have "c \<noteq> r"
    using assms par cn by (auto simp: tree_ok_def)
  with that cn par show ?thesis by blast
qed

lemma kids_bound:
  assumes t: "tree_ok K D r h" and d: "h d = Some n"
  shows "length (K d) < 64"
proof -
  have "set (K d) \<subseteq> dom h - {r}" using kids_live [OF t d] by blast
  moreover have "r \<in> dom h" by (rule tree_ok_root [OF t]) blast
  ultimately have "card (set (K d)) < card (dom h)"
    using tree_okD(2) [OF t] by (intro psubset_card_mono) auto
  then show ?thesis
    using tree_okD(3) [OF t] dir_okD(5) [OF tree_okD(4) [OF t d]] by (simp add: distinct_card)
qed

lemma find_child_tree:
  assumes t: "tree_ok K D r (heap fs)" and d: "heap fs d = Some n"
  shows "find_child fs name RAMFS_MAX_FILES (nd_children n) = Some (pick (heap fs) name (K d))"
  using find_child_chain [OF dir_okD(1) [OF tree_okD(4) [OF t d]], of 64 name] kids_bound [OF t d]
  by simp

lemma find_sibling_tree:
  assumes t: "tree_ok K D r (heap fs)" and d: "heap fs d = Some n"
  shows "find_sibling fs name (nd_children n) = Some (pick (heap fs) name (K d))"
  by (rule find_sibling_chain [OF dir_okD(1) [OF tree_okD(4) [OF t d]]])

lemma pick_tree:
  assumes t: "tree_ok K D r h" and d: "h d = Some n" and p: "pick h name (K d) \<noteq> 0"
  obtains cn where "h (pick h name (K d)) = Some cn" and "nd_parent cn = d" and "nd_name cn = name"
    and "pick h name (K d) \<noteq> r" and "pick h name (K d) \<in> set (K d)"
proof -
  have "pick h name (K d) \<in> set (K d)" "name_of h (pick h name (K d)) = name"
    using pick_in [OF p] by auto
  with kids_live [OF t d] that show ?thesis by (metis name_of_def option.simps(5))
qed

lemma hidden_defined:
  assumes t: "tree_ok K D r (heap fs)" and c: "heap fs c = Some n"
  shows "\<exists>b. hidden_from_caller cur fs n = Some b"
proof (cases "nd_parent n = 0")
  case False
  then have "c \<noteq> r" using t c by (auto simp: tree_ok_def)
  then have "nd_parent n \<in> dom (heap fs)" using tree_okD(5) [OF t c] by (simp add: entry_ok_def)
  then show ?thesis by (auto simp: hidden_from_caller_def Let_def)
next
  case True
  then have "hidden_from_caller cur fs n = Some False" by (simp add: hidden_from_caller_def)
  then show ?thesis ..
qed

section \<open>Paths and lookups\<close>

lemma split_loop_good:
  assumes "split_loop m comps c path = Some r" and "\<forall>x \<in> set comps. good_name x"
    and "length c < 32" and "CHR ''/'' \<notin> set c" and "length comps \<le> m"
    and "length comps = m \<Longrightarrow> c = []"
  shows "(\<forall>x \<in> set r. good_name x) \<and> length r \<le> m"
  using assms
proof (induction m comps c path arbitrary: r rule: split_loop.induct)
  case (1 m comps c)
  have "c \<noteq> [] \<Longrightarrow> length comps < m" using "1.prems"(5,6) by (meson le_neq_implies_less)
  moreover have "push_comp comps c = Some r \<Longrightarrow> c \<noteq> [] \<Longrightarrow> r = comps @ [c] \<and> good_name c"
    using "1.prems"(3,4) by (simp add: push_comp_def good_name_def split: if_splits)
  ultimately show ?case
    using "1.prems"(1,2,5) by (cases "c = []") auto
next
  case (2 m comps c x path)
  from "2.prems"(1) have m: "length comps < m" by (simp split: if_splits)
  consider (skip) "x = CHR ''/''" "c = []" | (push) "x = CHR ''/''" "c \<noteq> []" | (char) "x \<noteq> CHR ''/''"
    by blast
  then show ?case
  proof cases
    case skip
    show ?thesis
      by (rule "2.IH"(1) [OF m skip]) (use "2.prems" skip m in simp_all)
  next
    case push
    with "2.prems" m obtain comps' where c': "push_comp comps c = Some comps'"
      "split_loop m comps' [] path = Some r"
      by (auto simp: bind_eq_Some_conv)
    have eq: "comps' = comps @ [c]" "good_name c"
      using c'(1) push "2.prems" by (auto simp: push_comp_def good_name_def split: if_splits)
    show ?thesis
      by (rule "2.IH"(2) [OF m push c']) (use "2.prems" eq m in simp_all)
  next
    case char
    show ?thesis
      by (rule "2.IH"(3) [OF m char]) (use "2.prems" char m in simp_all)
  qed
qed

lemma split_path_good: "split_path path = Some r \<Longrightarrow> (\<forall>x \<in> set r. good_name x) \<and> length r \<le> 16"
  unfolding split_path_def by (drule split_loop_good) auto

definition hidden_node :: "task option \<Rightarrow> ramfs \<Rightarrow> u32 \<Rightarrow> bool" where
  "hidden_node cur fs c \<longleftrightarrow> Option.bind (heap fs c) (hidden_from_caller cur fs) = Some True"

lemma lookup_comps_step:
  assumes t: "tree_ok K D r (heap fs)" and p: "heap fs p = Some n"
  shows "lookup_comps cur hide fs (c # cs) p =
    (let ch = pick (heap fs) c (K p) in
     if nd_type n \<noteq> RAMFS_TYPE_DIR \<or> \<not> may_search cur n \<or> ch = 0 \<or> hide \<and> hidden_node cur fs ch
     then Some 0 else lookup_comps cur hide fs cs ch)"
proof (cases "pick (heap fs) c (K p) = 0")
  case True
  then show ?thesis by (simp add: p find_child_tree [OF t p])
next
  case False
  then obtain cn where cn: "heap fs (pick (heap fs) c (K p)) = Some cn" by (rule pick_tree [OF t p])
  obtain b where "hidden_from_caller cur fs cn = Some b" using hidden_defined [OF t cn] by blast
  with cn False show ?thesis by (simp add: p find_child_tree [OF t p] Let_def hidden_node_def)
qed

lemma lookup_comps_safe:
  assumes t: "tree_ok K D r (heap fs)" and "p \<in> dom (heap fs)"
  shows "\<exists>q. lookup_comps cur hide fs cs p = Some q \<and> (q = 0 \<or> q \<in> dom (heap fs))"
  using assms(2)
proof (induction cs arbitrary: p)
  case (Cons c cs)
  then obtain n where n: "heap fs p = Some n" by auto
  have "pick (heap fs) c (K p) \<noteq> 0 \<Longrightarrow> pick (heap fs) c (K p) \<in> dom (heap fs)"
    using pick_tree [OF t n] by (metis domI)
  then show ?case
    using lookup_comps_step [OF t n, of cur hide c cs] Cons.IH [of "pick (heap fs) c (K p)"]
    by (auto simp: Let_def simp del: lookup_comps.simps)
qed simp

lemma lookup_safe:
  assumes t: "tree_ok K D (fs_root fs) (heap fs)"
  shows "\<exists>q. ramfs_lookup_locked cur fs path hide = Some q \<and> (q = 0 \<or> q \<in> dom (heap fs))"
proof -
  have r: "fs_root fs \<in> dom (heap fs)" by (rule tree_ok_root [OF t]) blast
  show ?thesis
    using lookup_comps_safe [OF t r] r
    by (auto simp: ramfs_lookup_locked_def split: option.splits)
qed

lemma walk_loop_safe:
  assumes t: "tree_ok K D r (heap fs)" and "heap fs p = Some n" and "nd_type n = RAMFS_TYPE_DIR"
  shows "\<exists>w. walk_loop cur fs cs p = Some w \<and>
    (\<forall>par. w = Inr par \<longrightarrow>
       (\<exists>pn. heap fs par = Some pn \<and> nd_type pn = RAMFS_TYPE_DIR) \<and>
       (\<forall>c. lookup_comps cur False fs (cs @ [c]) p = Some (pick (heap fs) c (K par))))"
  using assms(2,3)
proof (induction cs arbitrary: p n)
  case Nil
  have "may_search cur n \<Longrightarrow> lookup_comps cur False fs [c] p = Some (pick (heap fs) c (K p))" for c
    using lookup_comps_step [OF t Nil(1), of cur False c "[]"] Nil(2)
    by (auto simp: Let_def simp del: lookup_comps.simps(2))
  then show ?case using Nil by (auto simp del: lookup_comps.simps(2))
next
  case (Cons c cs)
  let ?ch = "pick (heap fs) c (K p)"
  show ?case
  proof (cases "may_search cur n \<and> ?ch \<noteq> 0")
    case False
    then show ?thesis by (auto simp: Cons.prems find_sibling_tree [OF t Cons.prems(1)])
  next
    case True
    then obtain cn where cn: "heap fs ?ch = Some cn" using pick_tree [OF t Cons.prems(1)] by metis
    obtain b where b: "hidden_from_caller cur fs cn = Some b" using hidden_defined [OF t cn] by blast
    have step: "lookup_comps cur False fs (c # cs') p = lookup_comps cur False fs cs' ?ch" for cs'
      using lookup_comps_step [OF t Cons.prems(1), of cur False c cs'] True Cons.prems(2)
      by (auto simp: Let_def simp del: lookup_comps.simps)
    show ?thesis
      using Cons.IH [OF cn] True b cn
      by (auto simp: Cons.prems find_sibling_tree [OF t Cons.prems(1)] step simp del: lookup_comps.simps)
  qed
qed

lemma walk_safe:
  assumes t: "tree_ok K D (fs_root fs) (heap fs)"
  shows "\<exists>w. walk_to_parent cur fs comps = Some w \<and>
    (\<forall>par. w = Inr par \<longrightarrow> (\<exists>pn. heap fs par = Some pn \<and> nd_type pn = RAMFS_TYPE_DIR))"
proof -
  obtain rn where "heap fs (fs_root fs) = Some rn" "nd_type rn = RAMFS_TYPE_DIR"
    by (rule tree_ok_root [OF t])
  from walk_loop_safe [OF t this] show ?thesis unfolding walk_to_parent_def by blast
qed

lemma walk_any:
  \<comment> \<open>the name looked up by the duplicate check is the one the walk would create\<close>
  assumes t: "tree_ok K D (fs_root fs) (heap fs)"
    and "split_path path = Some comps" and "comps \<noteq> []"
    and "walk_to_parent cur fs comps = Some (Inr par)"
    and "ramfs_find_any_locked cur fs path = Some any"
  shows "any = pick (heap fs) (last comps) (K par)"
proof -
  obtain rn where r: "heap fs (fs_root fs) = Some rn" "nd_type rn = RAMFS_TYPE_DIR" "fs_root fs \<noteq> 0"
    by (rule tree_ok_root [OF t])
  have "lookup_comps cur False fs (butlast comps @ [last comps]) (fs_root fs) =
      Some (pick (heap fs) (last comps) (K par))"
    using walk_loop_safe [OF t r(1,2), of cur "butlast comps"] assms(4)
    by (auto simp: walk_to_parent_def)
  then have "lookup_comps cur False fs comps (fs_root fs) = Some (pick (heap fs) (last comps) (K par))"
    by (simp only: append_butlast_last_id [OF assms(3)])
  moreover have "path \<noteq> ''/''" using assms(2,3) by (auto simp: split_path_def)
  ultimately show ?thesis
    using assms(2,5) r by (simp add: ramfs_find_any_locked_def ramfs_lookup_locked_def)
qed

section \<open>Changing the tree\<close>

definition links :: "ramfs_node \<Rightarrow> string \<times> u32 \<times> u32" where
  "links n = (nd_name n, nd_parent n, nd_next n)"

definition heads :: "ramfs_node \<Rightarrow> u32 \<times> u16 \<times> ramfs_type" where
  "heads n = (nd_children n, child_count n, nd_type n)"

lemma links_eqD:
  assumes "map_option links (h c) = map_option links (h' c)"
  shows "name_of h c = name_of h' c" and "map_option nd_parent (h c) = map_option nd_parent (h' c)"
    and "map_option nd_next (h c) = map_option nd_next (h' c)"
  using assms by (cases "h c"; cases "h' c"; simp add: links_def name_of_def)+

lemma dir_ok_cong:
  assumes d: "dir_ok K h d n" and K: "K' d = K d" and n: "heads n' = heads n"
    and eq: "\<And>c. c \<in> set (K d) \<Longrightarrow> map_option links (h c) = map_option links (h' c)"
  shows "dir_ok K' h' d n'"
proof -
  have names: "name_of h c = name_of h' c"
    and parents: "map_option nd_parent (h c) = map_option nd_parent (h' c)"
    and nexts: "map_option nd_next (h c) = map_option nd_next (h' c)" if "c \<in> set (K d)" for c
    using links_eqD [of h c h'] eq [OF that] by blast+
  have "chain h' x (K d) = chain h x (K d)" for x
    by (rule chain_cong) (simp add: nexts)
  moreover have "map (name_of h') (K d) = map (name_of h) (K d)"
    by (simp add: names)
  then have "distinct (map (name_of h') (K d))" using dir_okD(4) [OF d] by (simp only:)
  ultimately show ?thesis
    using d n parents by (simp add: dir_ok_def K heads_def)
qed

lemma tree_okI:
  assumes "h r = Some rn" and "nd_type rn = RAMFS_TYPE_DIR" and "nd_parent rn = 0" and "h 0 = None"
    and "finite (dom h)" and "card (dom h) \<le> 64"
    and "\<And>d n. h d = Some n \<Longrightarrow> dir_ok K h d n"
    and "\<And>c n. h c = Some n \<Longrightarrow> c \<noteq> r \<Longrightarrow> entry_ok K D h c n"
  shows "tree_ok K D r h"
  using assms by (auto simp: tree_ok_def)

lemma tree_ok_same_links:
  assumes t: "tree_ok K D r h"
    and eq: "\<And>c. map_option (\<lambda>n. (links n, heads n)) (h c) = map_option (\<lambda>n. (links n, heads n)) (h' c)"
  shows "tree_ok K D r h'"
proof -
  have both: "\<exists>m. h c = Some m \<and> links m = links n \<and> heads m = heads n" if "h' c = Some n" for c n
    using eq [of c] that by (cases "h c") auto
  have l: "map_option links (h c) = map_option links (h' c)" for c
    using eq [of c] by (cases "h c"; cases "h' c") auto
  have none: "h' c = None \<longleftrightarrow> h c = None" for c
    using eq [of c] by (cases "h c"; cases "h' c") auto
  then have dom: "dom h' = dom h" by (simp add: dom_def)
  obtain rn where rn: "h r = Some rn" "nd_type rn = RAMFS_TYPE_DIR" "nd_parent rn = 0"
    by (rule tree_ok_root [OF t])
  have "r \<in> dom h'" unfolding dom using rn(1) by blast
  then obtain rn' where rn': "h' r = Some rn'" by blast
  have root: "nd_type rn' = RAMFS_TYPE_DIR" "nd_parent rn' = 0"
    using both [OF rn'] rn by (auto simp: links_def heads_def)
  have "dir_ok K h' d n" if hd: "h' d = Some n" for d n
  proof -
    obtain m where m: "h d = Some m" "heads n = heads m" using both [OF hd] by metis
    show ?thesis
      by (rule dir_ok_cong [where K = K and h = h and n = m])
        (use m l tree_okD(4) [OF t m(1)] in simp_all)
  qed
  moreover have "entry_ok K D h' c n" if "h' c = Some n" "c \<noteq> r" for c n
    using both [OF that(1)] tree_okD(5) [OF t _ that(2)] by (auto simp: entry_ok_def links_def dom)
  ultimately show ?thesis
    using tree_okD(1-3) [OF t] rn' root none by (intro tree_okI) (simp_all add: dom)
qed

lemma depth_parent:
  assumes "tree_ok K D r h" and "h d = Some n" and "c \<in> set (K d)"
  shows "D c = Suc (D d)"
  by (rule kids_live [OF assms]) (use tree_okD(5) [OF assms(1)] in \<open>auto simp: entry_ok_def\<close>)

lemma tree_ok_rename:
  assumes t: "tree_ok K D r h" and p: "h p = Some n" "p \<noteq> r" and nm: "good_name nm"
    and free: "nm \<notin> name_of h ` set (K (nd_parent n))"
  shows "tree_ok K D r (h(p \<mapsto> n\<lparr>nd_name := nm\<rparr>))" (is "tree_ok K D r ?h")
proof -
  have ent: "entry_ok K D h p n" by (rule tree_okD(5) [OF t p])
  have dir: "dir_ok K ?h d m'" if hd: "h d = Some m" and m': "heads m' = heads m" for d m m'
  proof (cases "p \<in> set (K d)")
    case False
    show ?thesis
      by (rule dir_ok_cong [where K = K and h = h and n = m])
        (use tree_okD(4) [OF t hd] m' False in auto)
  next
    case True
    then have d: "nd_parent n = d" by (rule kids_live [OF t hd]) (use p in simp)
    have ok: "dir_ok K h d m" by (rule tree_okD(4) [OF t hd])
    have names: "name_of ?h c = (if c = p then nm else name_of h c)" for c by (simp add: name_of_def)
    have "distinct (map (name_of ?h) (K d))"
      using dir_okD(4,5) [OF ok] free d by (auto simp: distinct_map inj_on_def names)
    moreover have "chain ?h (nd_children m') (K d)"
      using dir_okD(1) [OF ok] m' p by (subst chain_cong [of _ _ h]) (auto simp: heads_def)
    ultimately show ?thesis using ok m' p by (auto simp: dir_ok_def heads_def)
  qed
  obtain rn where "h r = Some rn" "nd_type rn = RAMFS_TYPE_DIR" "nd_parent rn = 0" "r \<noteq> 0"
    by (rule tree_ok_root [OF t])
  moreover have "dom ?h = dom h" using p by auto
  moreover have "dir_ok K ?h d m'" if "?h d = Some m'" for d m'
    using that dir [of d] p by (auto simp: heads_def split: if_splits)
  moreover have "entry_ok K D ?h c m" if "?h c = Some m" "c \<noteq> r" for c m
    using that tree_okD(5) [OF t, of c] ent nm p by (auto simp: entry_ok_def split: if_splits)
  ultimately show ?thesis
    using tree_okD(1-3) [OF t] p(2) by (intro tree_okI) (auto simp: p(1) split: if_splits)
qed

lemma unat_u16_inc: "unat (x :: u16) < 65535 \<Longrightarrow> unat (x + 1) = Suc (unat x)"
  by (simp add: unat_word_ariths)

lemma unat_u16_dec: "0 < unat (x :: u16) \<Longrightarrow> unat (x - 1) = unat x - 1"
  by (metis Suc_pred' unat_eq_zero unat_minus_one word_neq_0_conv unat_0 less_numeral_extra(3) diff_Suc_1)

lemma tree_ok_link:
  assumes t: "tree_ok K D r h" and par: "h par = Some pn" "nd_type pn = RAMFS_TYPE_DIR"
    and p: "h p = None" "p \<noteq> 0" and card: "card (dom h) < 64"
    and nn: "nd_children nn = 0" "child_count nn = 0" "nd_parent nn = par"
      "nd_next nn = nd_children pn" "good_name (nd_name nn)"
    and free: "nd_name nn \<notin> name_of h ` set (K par)"
  shows "tree_ok (K(par := p # K par, p := [])) (D(p := Suc (D par))) r
    (h(p \<mapsto> nn, par \<mapsto> pn\<lparr>nd_children := p, child_count := child_count pn + 1\<rparr>))"
    (is "tree_ok ?K ?D r ?h")
proof -
  define pn' where "pn' = pn\<lparr>nd_children := p, child_count := child_count pn + 1\<rparr>"
  define g where "g = ?h"
  have ne: "p \<noteq> par" using p par by auto
  have gp: "g p = Some nn" and gpar: "g par = Some pn'" and other: "c \<noteq> p \<Longrightarrow> c \<noteq> par \<Longrightarrow> g c = h c"
    and dom: "dom g = insert p (dom h)" for c
    using ne par by (auto simp: g_def pn'_def)
  have par_ok: "dir_ok K h par pn" by (rule tree_okD(4) [OF t par(1)])
  have fresh: "c \<noteq> p" if "h d = Some m" and "c \<in> set (K d)" for c d m
    by (rule kids_live [OF t that]) (use p in auto)
  have same: "map_option links (h c) = map_option links (g c)" if "c \<noteq> p" for c
    using that par gpar other by (cases "c = par") (simp_all add: links_def pn'_def)
  have links: "name_of g c = name_of h c" "map_option nd_parent (g c) = map_option nd_parent (h c)"
    "map_option nd_next (g c) = map_option nd_next (h c)" if "c \<in> set (K par)" for c
    using links_eqD [of h c g] same [OF fresh [OF par(1) that]] by simp_all
  have "dir_ok ?K g par pn'"
  proof -
    have "chain g x (K par) = chain h x (K par)" for x
      by (rule chain_cong) (simp add: links)
    moreover have m: "map (name_of g) (K par) = map (name_of h) (K par)" by (simp add: links)
    have "distinct (map (name_of g) (K par))" using dir_okD(4) [OF par_ok] by (simp only: m)
    moreover have "name_of g p \<notin> name_of g ` set (K par)"
      using free by (simp add: links name_of_def [of g p] gp)
    moreover have "unat (child_count pn') = Suc (length (K par))"
      using kids_bound [OF t par(1)] dir_okD(2) [OF par_ok] by (simp add: pn'_def unat_u16_inc)
    moreover have "map_option nd_parent (g c) = Some par" if "c \<in> set (K par)" for c
      using dir_okD(6) [OF par_ok that] links(2) [OF that] by (simp only:)
    ultimately show ?thesis
      using dir_okD(1) [OF par_ok] ne p(2) nn(3,4) gp par(2) by (simp add: dir_ok_def) (simp add: pn'_def)
  qed
  moreover have "dir_ok ?K g p nn"
    using nn by (simp add: dir_ok_def)
  moreover have "dir_ok ?K g d m" if "h d = Some m" "d \<noteq> par" for d m
    by (rule dir_ok_cong [where K = K and h = h and n = m])
      (use that tree_okD(4) [OF t that(1)] same fresh [OF that(1)] p(1) in auto)
  ultimately have dirs: "dir_ok ?K g d m" if "g d = Some m" for d m
    using that gp gpar other [of d] by (cases "d = par"; cases "d = p") auto
  have ents: "entry_ok ?K ?D g c m" if gc: "g c = Some m" and cr: "c \<noteq> r" for c m
  proof (cases "c = p")
    case True
    then show ?thesis using gc ne nn gp dom par by (auto simp: entry_ok_def)
  next
    case False
    then obtain m' where m': "h c = Some m'" "nd_name m' = nd_name m" "nd_parent m' = nd_parent m"
      using same [OF False] gc by (cases "h c") (auto simp: links_def)
    have ent: "entry_ok K D h c m'" by (rule tree_okD(5) [OF t m'(1) cr])
    then have "nd_parent m \<noteq> p" using m' p by (auto simp: entry_ok_def)
    then show ?thesis
      using ent m' False dom by (auto simp: entry_ok_def)
  qed
  obtain rn where rn: "h r = Some rn" "nd_type rn = RAMFS_TYPE_DIR" "nd_parent rn = 0" "r \<noteq> 0"
    by (rule tree_ok_root [OF t])
  have "\<exists>rn'. g r = Some rn' \<and> nd_type rn' = RAMFS_TYPE_DIR \<and> nd_parent rn' = 0"
  proof (cases "r = par")
    case True
    then show ?thesis using rn par(1) gpar by (auto simp: pn'_def)
  next
    case False
    moreover have "r \<noteq> p" using rn p by auto
    ultimately show ?thesis using rn other [of r] by simp
  qed
  moreover have "g 0 = None"
    using tree_okD(1) [OF t] dom p(2) by (metis domIff insert_iff)
  moreover have "card (dom g) \<le> 64" using card p tree_okD(2) [OF t] by (simp add: dom domIff)
  ultimately have "tree_ok ?K ?D r g"
    using dirs ents tree_okD(2) [OF t] by (auto simp: tree_ok_def dom)
  then show ?thesis by (simp add: g_def)
qed

definition pruned :: "(u32 \<Rightarrow> u32 list) \<Rightarrow> u32 \<Rightarrow> u32 \<Rightarrow> (u32 \<rightharpoonup> ramfs_node) \<Rightarrow> (u32 \<rightharpoonup> ramfs_node) \<Rightarrow> bool" where
  \<comment> \<open>\<open>g\<close> is \<open>h\<close> without \<open>p\<close>, changed only in the child list of \<open>par\<close>\<close>
  "pruned K par p h g \<longleftrightarrow> dom g = dom h - {p} \<and>
     (\<forall>c m. g c = Some m \<longrightarrow> (\<exists>m'. h c = Some m' \<and> nd_name m' = nd_name m \<and>
        nd_parent m' = nd_parent m \<and> nd_type m' = nd_type m \<and>
        nd_mode m' = nd_mode m \<and> nd_uid m' = nd_uid m \<and> nd_gid m' = nd_gid m \<and>
        data_pages m' = data_pages m \<and> nd_size m' = nd_size m \<and>
        (c \<notin> set (K par) \<longrightarrow> nd_next m' = nd_next m) \<and>
        (c \<noteq> par \<longrightarrow> nd_children m' = nd_children m \<and> child_count m' = child_count m)))"

lemma prunedD:
  assumes "pruned K par p h g" and "g c = Some m"
  obtains m' where "h c = Some m'" and "nd_name m' = nd_name m" and "nd_parent m' = nd_parent m"
    and "nd_type m' = nd_type m" and "c \<notin> set (K par) \<Longrightarrow> nd_next m' = nd_next m"
    and "c \<noteq> par \<Longrightarrow> heads m' = heads m" and "data_pages m' = data_pages m" and "nd_size m' = nd_size m"
  using assms unfolding pruned_def heads_def by fastforce

lemma tree_ok_remove:
  assumes t: "tree_ok K D r h" and p: "h p = Some n" "p \<noteq> r" "K p = []"
    and K: "K (nd_parent n) = xs @ p # ys" and g: "pruned K (nd_parent n) p h g"
    and gpar: "g (nd_parent n) = Some pn'" "chain g (nd_children pn') (xs @ ys)"
      "unat (child_count pn') = length (xs @ ys)"
  shows "tree_ok (K(nd_parent n := xs @ ys)) D r g" (is "tree_ok ?K D r g")
proof -
  define par where "par = nd_parent n"
  note g = g [folded par_def] and gpar = gpar [folded par_def] and K = K [folded par_def]
  have dom: "dom g = dom h - {p}" using g by (simp add: pruned_def)
  have live: "\<exists>m. g c = Some m" if "h c = Some m'" "c \<noteq> p" for c m'
  proof -
    have "c \<in> dom g" unfolding dom using that by blast
    then show ?thesis by blast
  qed
  obtain pn where pn: "h par = Some pn" by (rule prunedD [OF g gpar(1)])
  have ok: "dir_ok K h par pn" by (rule tree_okD(4) [OF t pn])
  have dist: "p \<notin> set (xs @ ys)" using dir_okD(5) [OF ok] K by auto
  have eq: "name_of g c = name_of h c" "map_option nd_parent (g c) = map_option nd_parent (h c)"
    if hc: "h c = Some m'" and cp: "c \<noteq> p" for c m'
  proof -
    obtain m where m: "g c = Some m" using live [OF hc cp] ..
    show "name_of g c = name_of h c" "map_option nd_parent (g c) = map_option nd_parent (h c)"
      by (rule prunedD [OF g m]; simp add: m name_of_def)+
  qed
  have kid: "\<exists>m. h c = Some m \<and> nd_parent m = d" if hd: "h d = Some m'" and c: "c \<in> set (K d)" for c d m'
    by (rule kids_live [OF t hd c]) blast
  have "dir_ok ?K g par pn'"
  proof -
    have kids: "c \<in> set (xs @ ys) \<Longrightarrow> c \<in> set (K par) \<and> c \<noteq> p" for c using K dist by auto
    have names: "map (name_of g) (xs @ ys) = map (name_of h) (xs @ ys)"
      using kids eq(1) kid [OF pn] by (intro map_cong) metis+
    have "distinct (map (name_of h) (xs @ ys))" using dir_okD(4) [OF ok] K by auto
    then have "distinct (map (name_of g) (xs @ ys))" by (simp only: names)
    moreover have "map_option nd_parent (g c) = Some par" if "c \<in> set (xs @ ys)" for c
      using kid [OF pn, of c] eq(2) [of c] kids [OF that] by auto
    moreover have "nd_type pn' = RAMFS_TYPE_DIR"
      using dir_okD(3) [OF ok] K prunedD [OF g gpar(1)] pn by (metis append_is_Nil_conv list.discI option.inject)
    ultimately show ?thesis using gpar by (auto simp: dir_ok_def par_def [symmetric])
  qed
  moreover have "dir_ok ?K g d m" if gd: "g d = Some m" and dp: "d \<noteq> par" for d m
  proof -
    obtain m' where m': "h d = Some m'" "heads m' = heads m" by (rule prunedD [OF g gd]) (use dp in blast)
    have leq: "map_option links (h c) = map_option links (g c)" if c: "c \<in> set (K d)" for c
    proof -
      obtain k where k: "h c = Some k" "nd_parent k = d" using kid [OF m'(1) c] by blast
      then have "c \<noteq> p" using p(1) dp by (auto simp: par_def)
      then obtain k' where k': "g c = Some k'" using live [OF k(1)] by blast
      have "c \<notin> set (K par)" using kid [OF pn, of c] k dp by auto
      then show ?thesis by (rule_tac prunedD [OF g k']) (auto simp: k k' links_def)
    qed
    show ?thesis
      by (rule dir_ok_cong [where K = K and h = h and n = m'])
        (use tree_okD(4) [OF t m'(1)] m' dp leq in \<open>simp_all add: par_def\<close>)
  qed
  ultimately have dirs: "dir_ok ?K g d m" if "g d = Some m" for d m
    using that gpar(1) by (cases "d = par") auto
  have ents: "entry_ok ?K D g c m" if gc: "g c = Some m" and cr: "c \<noteq> r" for c m
  proof -
    obtain m' where m': "h c = Some m'" "nd_name m' = nd_name m" "nd_parent m' = nd_parent m"
      by (rule prunedD [OF g gc])
    have "c \<noteq> p" using gc dom by auto
    moreover have "nd_parent m \<noteq> p"
      using tree_okD(5) [OF t m'(1) cr] m' p(3) by (auto simp: entry_ok_def)
    ultimately show ?thesis
      using tree_okD(5) [OF t m'(1) cr] m' dom K by (auto simp: entry_ok_def par_def)
  qed
  obtain rn where rn: "h r = Some rn" "nd_type rn = RAMFS_TYPE_DIR" "nd_parent rn = 0" "r \<noteq> 0"
    by (rule tree_ok_root [OF t])
  obtain rn' where rn': "g r = Some rn'" using live [OF rn(1)] p(2) by blast
  have "nd_type rn' = RAMFS_TYPE_DIR \<and> nd_parent rn' = 0"
    by (rule prunedD [OF g rn']) (use rn in auto)
  moreover have "g 0 = None" using tree_okD(1) [OF t] dom by blast
  moreover have "card (dom g) \<le> 64"
    using tree_okD(2,3) [OF t] card_mono [of "dom h" "dom g"] dom by auto
  ultimately show ?thesis
    using dirs ents rn' tree_okD(2) [OF t] by (auto simp: tree_ok_def dom)
qed

end
