(* ===== verification/Ramfs_Safe.thy ===== *)
theory Ramfs_Safe
  imports Ramfs_Inv
begin

text \<open>
  Memory safety of the RAM file system: the full invariant \<open>ramfs_inv\<close>, that
  \<^verbatim>\<open>ramfs_init\<close> establishes it, and that every operation of \<^verbatim>\<open>ramfs.c\<close> keeps it and
  never follows a dangling pointer.
\<close>

section \<open>The invariant\<close>

definition store_ok :: "ramfs \<Rightarrow> bool" where
  \<comment> \<open>the frames of nodes and pages are allocated, distinct and counted\<close>
  "store_ok fs \<longleftrightarrow>
     pmm_inv (fs_pmm fs) \<and> (dom (heap fs) \<union> dom (pages fs)) \<inter> avail_pages (fs_pmm fs) = {} \<and>
     dom (heap fs) \<inter> dom (pages fs) = {} \<and> (\<forall>p \<in> dom (heap fs) \<union> dom (pages fs). page_addr p) \<and>
     unat (total_nodes fs) = card (dom (heap fs))"

definition node_ok :: "(u32 \<rightharpoonup> u8 list) \<Rightarrow> ramfs_node \<Rightarrow> bool" where
  "node_ok pg n \<longleftrightarrow>
     length (data_pages n) = RAMFS_MAX_PAGES \<and> unat (nd_size n) \<le> 65536 \<and>
     (\<forall>i < 16. data_pages n ! i \<noteq> 0 \<longrightarrow> (\<exists>b. pg (data_pages n ! i) = Some b \<and> length b = RAMFS_PAGE_SIZE)) \<and>
     (\<forall>i < 16. i * 4096 < unat (nd_size n) \<longrightarrow> data_pages n ! i \<noteq> 0)"

definition tail_ok :: "nat \<Rightarrow> (u32 \<rightharpoonup> u8 list) \<Rightarrow> ramfs_node \<Rightarrow> bool" where
  \<comment> \<open>bytes from offset \<open>l\<close> on are zero\<close>
  "tail_ok l pg n \<longleftrightarrow>
     (\<forall>i < 16. \<forall>j < 4096. data_pages n ! i \<noteq> 0 \<longrightarrow> l \<le> i * 4096 + j \<longrightarrow>
        the (pg (data_pages n ! i)) ! j = 0)"

definition data_ok :: "(u32 \<rightharpoonup> ramfs_node) \<Rightarrow> (u32 \<rightharpoonup> u8 list) \<Rightarrow> bool" where
  "data_ok h pg \<longleftrightarrow>
     (\<forall>p n. h p = Some n \<longrightarrow> node_ok pg n) \<and>
     (\<forall>p q n m i j. h p = Some n \<longrightarrow> h q = Some m \<longrightarrow> i < 16 \<longrightarrow> j < 16 \<longrightarrow>
        data_pages n ! i \<noteq> 0 \<longrightarrow> data_pages n ! i = data_pages m ! j \<longrightarrow> p = q \<and> i = j) \<and>
     (\<forall>x \<in> dom pg. \<exists>p n i. h p = Some n \<and> i < 16 \<and> data_pages n ! i = x)"

definition fd_live :: "(u32 \<rightharpoonup> ramfs_node) \<Rightarrow> ramfs_fd \<Rightarrow> bool" where
  "fd_live h f \<longleftrightarrow>
     (\<exists>n. h (fd_node f) = Some n \<and> nd_type n = RAMFS_TYPE_FILE \<and> refs f \<noteq> 0 \<and> unat (fd_pos f) \<le> 65536 \<and>
        (\<forall>i < 16. i * 4096 < unat (fd_pos f) \<longrightarrow> data_pages n ! i \<noteq> 0))"

definition fds_ok :: "(u32 \<rightharpoonup> ramfs_node) \<Rightarrow> ramfs_fd list \<Rightarrow> bool" where
  "fds_ok h fds \<longleftrightarrow> length fds = RAMFS_MAX_FDS \<and> (\<forall>f \<in> set fds. in_use f \<longrightarrow> fd_live h f)"

definition tails_ok :: "(u32 \<rightharpoonup> ramfs_node) \<Rightarrow> (u32 \<rightharpoonup> u8 list) \<Rightarrow> bool" where
  "tails_ok h pg \<longleftrightarrow> (\<forall>p n. h p = Some n \<longrightarrow> tail_ok (unat (nd_size n)) pg n)"

definition ramfs_core :: "ramfs \<Rightarrow> bool" where
  "ramfs_core fs \<longleftrightarrow>
     (\<exists>K D. tree_ok K D (fs_root fs) (heap fs)) \<and> store_ok fs \<and> data_ok (heap fs) (pages fs) \<and>
     fds_ok (heap fs) (file_descriptors fs)"

definition ramfs_inv :: "ramfs \<Rightarrow> bool" where
  "ramfs_inv fs \<longleftrightarrow> ramfs_core fs \<and> tails_ok (heap fs) (pages fs)"

lemma ramfs_invD:
  assumes "ramfs_inv fs"
  shows "ramfs_core fs" and "\<exists>K D. tree_ok K D (fs_root fs) (heap fs)" and "store_ok fs"
    and "data_ok (heap fs) (pages fs)" and "fds_ok (heap fs) (file_descriptors fs)"
    and "tails_ok (heap fs) (pages fs)"
  using assms by (auto simp: ramfs_inv_def ramfs_core_def)

lemma ramfs_coreI [inv_intros]:
  assumes "tree_ok K D (fs_root fs) (heap fs)" and "store_ok fs" and "data_ok (heap fs) (pages fs)"
    and "fds_ok (heap fs) (file_descriptors fs)"
  shows "ramfs_core fs"
  using assms by (auto simp: ramfs_core_def)

lemma data_okD:
  assumes "data_ok h pg"
  shows "h p = Some n \<Longrightarrow> node_ok pg n"
    and "h p = Some n \<Longrightarrow> h q = Some m \<Longrightarrow> i < 16 \<Longrightarrow> j < 16 \<Longrightarrow> data_pages n ! i \<noteq> 0 \<Longrightarrow>
      data_pages n ! i = data_pages m ! j \<Longrightarrow> p = q \<and> i = j"
    and "x \<in> dom pg \<Longrightarrow> \<exists>p n i. h p = Some n \<and> i < 16 \<and> data_pages n ! i = x"
  using assms unfolding data_ok_def by blast+

lemma fds_okD:
  assumes "fds_ok h fds"
  shows "length fds = 16" and "i < 16 \<Longrightarrow> in_use (fds ! i) \<Longrightarrow> fd_live h (fds ! i)"
  using assms by (auto simp: fds_ok_def)

section \<open>Changes that keep the data\<close>

definition dview :: "ramfs_node \<Rightarrow> ramfs_type \<times> u32 list \<times> u32" where
  "dview n = (nd_type n, data_pages n, nd_size n)"

lemma data_ok_pages:
  assumes eq: "\<And>c. map_option data_pages (h c) = map_option data_pages (g c)" and "data_ok h pg"
    and nodes: "\<And>c n. g c = Some n \<Longrightarrow> node_ok pg n"
  shows "data_ok g pg"
proof -
  have bwd: "\<exists>m. h c = Some m \<and> data_pages m = data_pages n" if "g c = Some n" for c n
    using eq [of c] that by (cases "h c") auto
  have fwd: "\<exists>m. g c = Some m \<and> data_pages m = data_pages n" if "h c = Some n" for c n
    using eq [of c] that by (cases "g c") auto
  have "p = q \<and> i = j"
    if "g p = Some n" "g q = Some m" "i < 16" "j < 16" "data_pages n ! i \<noteq> 0"
      "data_pages n ! i = data_pages m ! j" for p q n m i j
    using bwd [OF that(1)] bwd [OF that(2)] data_okD(2) [OF assms(2)] that(3-6) by metis
  moreover have "\<exists>p n i. g p = Some n \<and> i < 16 \<and> data_pages n ! i = x" if "x \<in> dom pg" for x
    using data_okD(3) [OF assms(2) that] fwd by metis
  ultimately show ?thesis unfolding data_ok_def using nodes by blast
qed

lemma data_ok_dview:
  assumes eq: "\<And>c. map_option dview (h c) = map_option dview (g c)" and "data_ok h pg"
  shows "data_ok g pg"
proof (rule data_ok_pages [OF _ assms(2)])
  show "map_option data_pages (h c) = map_option data_pages (g c)" for c
    using eq [of c] by (cases "h c"; cases "g c") (auto simp: dview_def)
  show "node_ok pg n" if gc: "g c = Some n" for c n
  proof -
    obtain m where m: "h c = Some m" "data_pages m = data_pages n" "nd_size m = nd_size n"
      using eq [of c] gc by (cases "h c") (auto simp: dview_def)
    show ?thesis using data_okD(1) [OF assms(2) m(1)] m by (simp add: node_ok_def)
  qed
qed

lemma tails_ok_dview:
  assumes eq: "\<And>c. map_option dview (h c) = map_option dview (g c)" and "tails_ok h pg"
  shows "tails_ok g pg"
proof -
  have bwd: "\<exists>m. h c = Some m \<and> data_pages m = data_pages n \<and> nd_size m = nd_size n" if "g c = Some n" for c n
    using eq [of c] that by (cases "h c") (auto simp: dview_def)
  show ?thesis using bwd assms(2) unfolding tails_ok_def tail_ok_def by metis
qed

lemma fds_ok_dview:
  assumes eq: "\<And>c. map_option dview (h c) = map_option dview (g c)" and "fds_ok h fds"
  shows "fds_ok g fds"
proof -
  have fwd: "\<exists>m. g c = Some m \<and> dview m = dview n" if "h c = Some n" for c n
    using eq [of c] that by (cases "g c") auto
  have "fd_live g f" if "fd_live h f" for f
    using that fwd unfolding fd_live_def dview_def by (metis prod.inject)
  then show ?thesis using assms(2) by (auto simp: fds_ok_def)
qed

section \<open>Creating nodes\<close>

lemma page_addr_0: "\<not> page_addr 0"
  by (simp add: page_addr_def)

lemma alloc_node_fails:
  assumes "pmm_inv (fs_pmm fs)" and "alloc_node nm ty uid gid fs = (0, fs')"
  shows "fs' = fs"
proof (cases "total_nodes fs \<ge> 64")
  case False
  obtain p pm where a: "pmm_alloc (fs_pmm fs) = (p, pm)" by fastforce
  with assms False have "p = 0" "fs' = fs\<lparr>fs_pmm := pm\<rparr>"
    by (auto simp: alloc_node_def split: if_splits)
  then show ?thesis using pf.alloc_fails [OF assms(1)] a by simp
qed (use assms in \<open>simp add: alloc_node_def\<close>)

lemma alloc_node_takes:
  assumes s: "store_ok fs" and a: "alloc_node nm ty uid gid fs = (p, fs')" and p: "p \<noteq> 0"
  obtains pm where "fs' = fs\<lparr>heap := (heap fs)(p \<mapsto> new_node nm ty uid gid),
      total_nodes := total_nodes fs + 1, fs_pmm := pm\<rparr>"
    and "store_ok fs'" and "p \<notin> dom (heap fs)" and "p \<notin> dom (pages fs)"
    and "card (dom (heap fs)) < 64"
proof -
  have inv: "pmm_inv (fs_pmm fs)" using s by (simp add: store_ok_def)
  obtain pm where al: "pmm_alloc (fs_pmm fs) = (p, pm)"
    and fs': "fs' = fs\<lparr>heap := (heap fs)(p \<mapsto> new_node nm ty uid gid),
      total_nodes := total_nodes fs + 1, fs_pmm := pm\<rparr>"
    and room: "total_nodes fs < 64"
    using a p by (auto simp: alloc_node_def not_le split: if_splits prod.splits)
  let ?H = "dom (heap fs) \<union> dom (pages fs)"
  have H: "?H \<inter> avail_pages (fs_pmm fs) = {}" using s by (simp add: store_ok_def)
  have fresh: "p \<notin> ?H" by (rule pf.alloc_fresh [OF inv al p H])
  have owned: "insert p ?H \<inter> avail_pages pm = {}" by (rule pf.alloc_owned [OF inv al p H])
  have fin: "finite (dom (heap fs))"
    using s room by (cases "finite (dom (heap fs))") (auto simp: store_ok_def)
  have lt: "unat (total_nodes fs) < 64" using room by (simp add: word_less_nat_alt)
  then have "unat (total_nodes fs + 1) = unat (total_nodes fs) + 1" by (intro unat_u32_inc) simp
  then have "store_ok fs'"
    using s fresh owned pf.alloc_page [OF inv al p] pf.alloc_inv' [OF inv al] fin
    by (auto simp: store_ok_def fs')
  moreover have "card (dom (heap fs)) < 64" using lt s by (simp add: store_ok_def)
  ultimately show ?thesis using that fs' fresh by blast
qed

lemma node_ok_new: "node_ok pg (new_node nm ty uid gid)"
  by (simp add: node_ok_def new_node_def)

lemma new_node_pages: "data_pages (new_node nm ty uid gid) = replicate 16 0"
  by (simp add: new_node_def)

lemma data_ok_new:
  assumes "data_ok h pg" and "h p = None"
  shows "data_ok (h(p \<mapsto> new_node nm ty uid gid)) pg" (is "data_ok ?g pg")
proof -
  have old: "h c = Some n" if "?g c = Some n" "i < 16" "data_pages n ! i \<noteq> 0" for c n i
    using that by (auto simp: new_node_pages split: if_splits)
  have "node_ok pg n" if "?g c = Some n" for c n
    using that data_okD(1) [OF assms(1)] node_ok_new by (auto split: if_splits)
  moreover have "q = q' \<and> i = j"
    if "?g q = Some n" "?g q' = Some m" "i < 16" "j < 16" "data_pages n ! i \<noteq> 0"
      "data_pages n ! i = data_pages m ! j" for q q' n m i j
    using data_okD(2) [OF assms(1)] old that by metis
  moreover have "\<exists>q n i. ?g q = Some n \<and> i < 16 \<and> data_pages n ! i = x" if "x \<in> dom pg" for x
    using data_okD(3) [OF assms(1) that] assms(2) by (metis fun_upd_other option.distinct(1))
  ultimately show ?thesis unfolding data_ok_def by blast
qed

lemma tails_ok_new: "tails_ok h pg \<Longrightarrow> tails_ok (h(p \<mapsto> new_node nm ty uid gid)) pg"
  by (auto simp: tails_ok_def tail_ok_def new_node_pages)

lemma fds_ok_new:
  assumes "fds_ok h fds" and "h p = None"
  shows "fds_ok (h(p \<mapsto> n)) fds"
  using assms by (fastforce simp: fds_ok_def fd_live_def)

lemma create_safe:
  assumes inv: "ramfs_inv fs" and t: "tree_ok K D (fs_root fs) (heap fs)"
    and par: "heap fs par = Some pn" "nd_type pn = RAMFS_TYPE_DIR" and nm: "good_name nm"
    and free: "pick (heap fs) nm (K par) = 0"
    and a: "alloc_node nm ty uid gid fs = (p, fs')" and p: "p \<noteq> 0"
  shows "\<exists>fs''. link_child par p fs' = Some fs'' \<and> ramfs_inv fs'' \<and>
    heap fs'' = (heap fs)
      (p \<mapsto> (new_node nm ty uid gid)\<lparr>nd_parent := par, nd_next := nd_children pn\<rparr>,
       par \<mapsto> pn\<lparr>nd_children := p, child_count := child_count pn + 1\<rparr>) \<and>
    file_descriptors fs'' = file_descriptors fs \<and> pages fs'' = pages fs \<and> fs_root fs'' = fs_root fs \<and>
    tree_ok (K(par := p # K par, p := [])) (D(p := Suc (D par))) (fs_root fs) (heap fs'') \<and>
    p \<notin> dom (heap fs)"
proof -
  note invs = ramfs_invD [OF inv]
  obtain pm where fs': "fs' = fs\<lparr>heap := (heap fs)(p \<mapsto> new_node nm ty uid gid),
      total_nodes := total_nodes fs + 1, fs_pmm := pm\<rparr>"
    and st: "store_ok fs'" and fresh: "p \<notin> dom (heap fs)" and card: "card (dom (heap fs)) < 64"
    using alloc_node_takes [OF invs(3) a p] by metis
  define nn where "nn = (new_node nm ty uid gid)\<lparr>nd_parent := par, nd_next := nd_children pn\<rparr>"
  define pn' where "pn' = pn\<lparr>nd_children := p, child_count := child_count pn + 1\<rparr>"
  define g where "g = (heap fs)(p \<mapsto> nn, par \<mapsto> pn')"
  have hp: "heap fs p = None" and ne: "p \<noteq> par" using fresh par by auto
  have link: "link_child par p fs' = Some (fs'\<lparr>heap := g\<rparr>)"
    using ne par by (simp add: link_child_def upd_node_def fs' g_def nn_def pn'_def)
  have name: "nd_name nn = nm" using nm by (simp add: nn_def new_node_def good_name_def)
  have "0 \<notin> set (K par)" by (rule dir_okD(7) [OF tree_okD(4) [OF t par(1)]])
  then have "nd_name nn \<notin> name_of (heap fs) ` set (K par)" using free name by (simp add: pick_0)
  then have tree: "tree_ok (K(par := p # K par, p := [])) (D(p := Suc (D par))) (fs_root fs) g"
    unfolding g_def pn'_def
    by (intro tree_ok_link [OF t par hp p card]) (use nm name in \<open>simp_all add: nn_def new_node_def\<close>)
  have view: "map_option dview (((heap fs)(p \<mapsto> new_node nm ty uid gid)) c) = map_option dview (g c)" for c
    using par ne by (simp add: g_def dview_def nn_def pn'_def)
  have "dom g = dom (heap fs')" using par by (auto simp: g_def fs')
  then have "store_ok (fs'\<lparr>heap := g\<rparr>)" using st by (simp add: store_ok_def)
  moreover have "data_ok g (pages fs)" by (rule data_ok_dview [OF view data_ok_new [OF invs(4) hp]])
  moreover have "tails_ok g (pages fs)" by (rule tails_ok_dview [OF view tails_ok_new [OF invs(6)]])
  moreover have "fds_ok g (file_descriptors fs)" by (rule fds_ok_dview [OF view fds_ok_new [OF invs(5) hp]])
  ultimately have "ramfs_inv (fs'\<lparr>heap := g\<rparr>)"
    using tree unfolding ramfs_inv_def ramfs_core_def by (auto simp: fs')
  then show ?thesis using link tree fresh by (simp add: g_def nn_def pn'_def fs')
qed

section \<open>Stepping through an operation\<close>

lemma wp_upd_node [step_simps]:
  "heap fs p = Some n \<Longrightarrow> wp (upd_node p f fs) Q = Q (fs\<lparr>heap := (heap fs)(p \<mapsto> f n)\<rparr>)"
  by (simp add: upd_node_def wp_def)

abbreviation safe :: "('a \<times> ramfs) option \<Rightarrow> bool" where
  "safe m \<equiv> wp m (\<lambda>(_, fs). ramfs_inv fs)"

lemma inv_lookup:
  assumes "ramfs_inv fs"
  obtains q where "ramfs_lookup_locked cur fs path hide = Some q"
    and "q \<noteq> 0 \<Longrightarrow> \<exists>n. heap fs q = Some n"
  using ramfs_invD(2) [OF assms] lookup_safe [of _ _ fs cur path hide] by blast

lemma create_branch_safe:
  \<comment> \<open>what \<open>ramfs_mkdir\<close> and \<open>ramfs_open\<close> do once the parent is found and the name is free\<close>
  assumes inv: "ramfs_inv fs" and sp: "split_path path = Some comps" "comps \<noteq> []"
    and w: "walk_to_parent cur fs comps = Some (Inr par)"
    and any: "ramfs_find_any_locked cur fs path = Some 0"
    and a: "alloc_node (last comps) ty uid gid fs = (p, fs')"
  shows "if p = 0 then fs' = fs else wp (link_child par p fs') (\<lambda>fs''. ramfs_inv fs'' \<and>
    (\<exists>n. heap fs'' p = Some n \<and> nd_type n = ty))"
proof (cases "p = 0")
  case True
  then show ?thesis
    using alloc_node_fails [of fs _ _ _ _ fs'] a ramfs_invD(3) [OF inv] by (simp add: store_ok_def)
next
  case False
  obtain K D where t: "tree_ok K D (fs_root fs) (heap fs)" using ramfs_invD(2) [OF inv] by blast
  obtain pn where pn: "heap fs par = Some pn" "nd_type pn = RAMFS_TYPE_DIR"
    using walk_safe [OF t, of cur comps] w by auto
  have "good_name (last comps)" using split_path_good [OF sp(1)] sp(2) by simp
  moreover have "pick (heap fs) (last comps) (K par) = 0"
    using walk_any [OF t sp w any] by simp
  moreover have "p \<noteq> par"
    using alloc_node_takes [OF ramfs_invD(3) [OF inv] a False] pn by (metis domI)
  ultimately show ?thesis
    using create_safe [OF inv t pn _ _ a False] False
    by (auto simp: wp_iff new_node_def)
qed

lemma inv_walk:
  assumes "ramfs_inv fs"
  obtains w where "walk_to_parent cur fs comps = Some w"
    and "\<And>par. w = Inr par \<Longrightarrow> \<exists>pn. heap fs par = Some pn"
  using ramfs_invD(2) [OF assms] walk_safe [of _ _ fs cur comps] by blast

lemma ramfs_mkdir_safe:
  assumes inv: "ramfs_inv fs"
  shows "safe (ramfs_mkdir cur path fs)"
proof -
  obtain ex where ex: "ramfs_find_locked cur fs path = Some ex"
    by (rule inv_lookup [OF inv, of cur path True]) (simp add: ramfs_find_locked_def)
  obtain any where any: "ramfs_find_any_locked cur fs path = Some any"
    by (rule inv_lookup [OF inv, of cur path False]) (simp add: ramfs_find_any_locked_def)
  show ?thesis
  proof (cases "split_path path")
    case None
    then show ?thesis by (simp add: ramfs_mkdir_def ex step_simps inv)
  next
    case (Some comps)
    obtain w where w: "walk_to_parent cur fs comps = Some w"
      "\<And>par. w = Inr par \<Longrightarrow> \<exists>pn. heap fs par = Some pn"
      using inv_walk [OF inv] by metis
    show ?thesis
    proof (cases w)
      case (Inl e)
      then show ?thesis using Some w by (simp add: ramfs_mkdir_def ex step_simps inv)
    next
      case (Inr par)
      then obtain pn where pn: "heap fs par = Some pn" using w(2) by blast
      obtain uid gid where cred: "ramfs_get_current_credentials cur = (uid, gid)" by fastforce
      obtain p fs' where a: "alloc_node (last comps) RAMFS_TYPE_DIR uid gid fs = (p, fs')" by fastforce
      have "safe (if p = 0 then Some (-6, fs') else Option.bind (link_child par p fs') (\<lambda>fs. Some (0, fs)))"
        if "comps \<noteq> []" "any = 0"
        using create_branch_safe [OF inv Some that(1) _ _ a, of cur par] w(1) Inr any that(2) inv
        by (auto simp: step_simps wp_iff split: if_splits)
      then show ?thesis
        using Some w(1) Inr pn any cred a by (auto simp: ramfs_mkdir_def ex step_simps inv)
    qed
  qed
qed

section \<open>Opening\<close>

lemma open_create_safe:
  assumes inv: "ramfs_inv fs"
  shows "wp (open_create cur path fs)
    (\<lambda>(res, fs'). ramfs_inv fs' \<and> (\<forall>nd. res = Inr nd \<longrightarrow> (\<exists>n. heap fs' nd = Some n)))"
proof -
  obtain ex where ex: "ramfs_find_locked cur fs path = Some ex"
    "ex \<noteq> 0 \<Longrightarrow> \<exists>n. heap fs ex = Some n"
    using inv_lookup [OF inv, of cur path True] by (auto simp: ramfs_find_locked_def)
  obtain any where any: "ramfs_find_any_locked cur fs path = Some any"
    by (rule inv_lookup [OF inv, of cur path False]) (simp add: ramfs_find_any_locked_def)
  show ?thesis
  proof (cases "split_path path")
    case None
    then show ?thesis using ex by (simp add: open_create_def step_simps inv)
  next
    case (Some comps)
    obtain w where w: "walk_to_parent cur fs comps = Some w"
      "\<And>par. w = Inr par \<Longrightarrow> \<exists>pn. heap fs par = Some pn"
      using inv_walk [OF inv] by metis
    show ?thesis
    proof (cases w)
      case (Inl e)
      then show ?thesis using Some w ex by (simp add: open_create_def step_simps inv)
    next
      case (Inr par)
      then obtain pn where pn: "heap fs par = Some pn" using w(2) by blast
      obtain uid gid where cred: "ramfs_get_current_credentials cur = (uid, gid)" by fastforce
      obtain p fs' where a: "alloc_node (last comps) RAMFS_TYPE_FILE uid gid fs = (p, fs')" by fastforce
      have "comps \<noteq> [] \<Longrightarrow> any = 0 \<Longrightarrow> if p = 0 then fs' = fs
          else wp (link_child par p fs') (\<lambda>fs''. ramfs_inv fs'' \<and> (\<exists>n. heap fs'' p = Some n))"
        using create_branch_safe [OF inv Some _ _ _ a, of cur par] w(1) Inr any
        by (auto simp: wp_iff split: if_splits)
      then show ?thesis
        using Some w(1) Inr pn any cred a ex
        by (auto simp: open_create_def step_simps inv wp_iff split: if_splits)
    qed
  qed
qed

lemma ramfs_pick_fd_slot:
  assumes "0 \<le> ramfs_pick_fd cur fs"
  shows "nat (ramfs_pick_fd cur fs) < 16 \<and> \<not> in_use (file_descriptors fs ! nat (ramfs_pick_fd cur fs))"
proof -
  let ?free = "filter (\<lambda>i. \<not> in_use (file_descriptors fs ! i)) [0..<16]"
  obtain fd rest where f: "?free = fd # rest"
    using assms by (cases ?free) (simp_all add: ramfs_pick_fd_def)
  then have "fd \<in> set ?free" by simp
  moreover have "ramfs_pick_fd cur fs = int fd"
    using assms f by (auto simp: ramfs_pick_fd_def Let_def simp del: upt_rec_numeral split: option.splits if_splits)
  ultimately show ?thesis by simp
qed

lemma fds_ok_upd:
  assumes "fds_ok h fds" and "i < 16 \<Longrightarrow> in_use f \<Longrightarrow> fd_live h f"
  shows "fds_ok h (fds[i := f])"
proof (cases "i < 16")
  case True
  then show ?thesis
    using assms set_update_subset_insert [of fds i f] by (auto simp: fds_ok_def)
next
  case False
  then have "fds[i := f] = fds" using fds_okD(1) [OF assms(1)] by (intro list_update_beyond) simp
  then show ?thesis using assms(1) by simp
qed

lemma inv_upd_fd:
  assumes "ramfs_inv fs" and "i < 16 \<Longrightarrow> in_use (f (file_descriptors fs ! i)) \<Longrightarrow>
    fd_live (heap fs) (f (file_descriptors fs ! i))"
  shows "ramfs_inv (upd_fd i f fs)"
  using assms fds_ok_upd [of "heap fs" "file_descriptors fs" i "f (file_descriptors fs ! i)"]
  by (auto simp: ramfs_inv_def ramfs_core_def upd_fd_def store_ok_def)

lemma open_node_safe:
  assumes inv: "ramfs_inv fs" and nd: "nd \<noteq> 0 \<Longrightarrow> \<exists>n. heap fs nd = Some n"
  shows "safe (open_node cur nd flags fs)"
proof (cases "nd = 0")
  case False
  then obtain n where n: "heap fs nd = Some n" using nd by blast
  show ?thesis
    by (auto simp: open_node_def step_simps n inv False Let_def fd_live_def intro!: inv_upd_fd)
qed (simp add: open_node_def step_simps inv)

lemma ramfs_open_safe:
  assumes inv: "ramfs_inv fs"
  shows "safe (ramfs_open cur path flags fs)"
proof -
  obtain nd where nd: "ramfs_find cur fs path = Some nd" "nd \<noteq> 0 \<Longrightarrow> \<exists>n. heap fs nd = Some n"
    using inv_lookup [OF inv, of cur path True] by (auto simp: ramfs_find_def ramfs_find_locked_def)
  have "wp (open_create cur path fs) (\<lambda>(res, fs). safe
      (case res of Inl e \<Rightarrow> Some (e, fs) | Inr nd \<Rightarrow> open_node cur nd flags fs))"
    using open_create_safe [OF inv, of cur path] open_node_safe
    by (fastforce simp: wp_iff split: sum.splits)
  then show ?thesis
    using nd inv open_node_safe [OF inv]
    by (auto simp: ramfs_open_def Let_def step_simps split_def)
qed

section \<open>Descriptors\<close>

lemma inv_fd:
  assumes "ramfs_inv fs" and "fd_ok fs fd"
  obtains n where "heap fs (fd_node (file_descriptors fs ! nat fd)) = Some n"
    and "nd_type n = RAMFS_TYPE_FILE" and "fd_live (heap fs) (file_descriptors fs ! nat fd)"
    and "node_ok (pages fs) n" and "nat fd < 16"
    and "fd_node (file_descriptors fs ! nat fd) \<noteq> 0"
proof -
  let ?f = "file_descriptors fs ! nat fd"
  have fd: "nat fd < 16" using assms(2) by (auto simp: fd_ok_def)
  have live: "fd_live (heap fs) ?f"
    using fds_okD(2) [OF ramfs_invD(5) [OF assms(1)] fd] assms(2) by (simp add: fd_ok_def)
  then obtain n where n: "heap fs (fd_node ?f) = Some n" "nd_type n = RAMFS_TYPE_FILE"
    by (auto simp: fd_live_def)
  have "heap fs 0 = None" using ramfs_invD(2) [OF assms(1)] tree_okD(1) by blast
  then have "fd_node ?f \<noteq> 0" using n by auto
  then show ?thesis using that n live data_okD(1) [OF ramfs_invD(4) [OF assms(1)] n(1)] fd by blast
qed

definition byte_at :: "(u32 \<rightharpoonup> u8 list) \<Rightarrow> ramfs_node \<Rightarrow> nat \<Rightarrow> u8" where
  "byte_at pg n off = the (pg (data_pages n ! (off div 4096))) ! (off mod 4096)"

lemma u32_page: "unat ((x :: u32) div 4096) = unat x div 4096" "unat (x mod 4096) = unat x mod 4096"
  by (simp_all add: unat_div unat_mod)

lemma read_loop_bytes:
  assumes ok: "node_ok (pages fs) n" and "unat pos + i + k \<le> unat (nd_size n)"
  shows "read_loop fs n pos i k = Some (map (byte_at (pages fs) n) [unat pos + i..<unat pos + i + k])"
  using assms(2)
proof (induction k arbitrary: i)
  case (Suc k)
  let ?o = "unat pos + i"
  have sz: "unat (nd_size n) \<le> 65536" using ok by (simp add: node_ok_def)
  have off: "unat (pos + of_nat i) = ?o"
    using Suc.prems sz by (subst unat_u32_add_no_wrap) auto
  have pg: "?o div 4096 < 16" using Suc.prems sz by (simp add: less_mult_imp_div_less)
  have "?o div 4096 * 4096 < unat (nd_size n)"
    using Suc.prems div_times_less_eq_dividend [of ?o 4096] by linarith
  then have "data_pages n ! (?o div 4096) \<noteq> 0"
    using ok pg unfolding node_ok_def by blast
  moreover from this obtain b where "pages fs (data_pages n ! (?o div 4096)) = Some b"
    using ok pg unfolding node_ok_def by blast
  moreover have "[?o..<?o + Suc k] = ?o # [unat pos + Suc i..<unat pos + Suc i + k]"
    by (simp add: upt_conv_Cons)
  ultimately show ?case
    using Suc.IH [of "Suc i"] Suc.prems pg off by (simp add: Let_def u32_page byte_at_def)
qed simp

lemma fd_live_moved:
  assumes "fd_live h f" and "h (fd_node f) = Some n" and "node_ok pg n" and "unat pos \<le> unat (nd_size n)"
  shows "fd_live h (f\<lparr>fd_pos := pos\<rparr>)"
  using assms by (fastforce simp: fd_live_def node_ok_def)

lemma ramfs_read_safe:
  assumes inv: "ramfs_inv fs"
  shows "wp (ramfs_read fd count fs) (\<lambda>(_, _, fs). ramfs_inv fs)"
proof (cases "fd_ok fs fd")
  case False
  then show ?thesis by (simp add: ramfs_read_def step_simps inv)
next
  case True
  let ?f = "file_descriptors fs ! nat fd"
  obtain n where n: "heap fs (fd_node ?f) = Some n" "fd_live (heap fs) ?f" "node_ok (pages fs) n"
    "fd_node ?f \<noteq> 0"
    using inv_fd [OF inv True] by metis
  let ?pos = "fd_pos ?f"
  let ?k = "if count < nd_size n - ?pos then count else nd_size n - ?pos"
  show ?thesis
  proof (cases "?pos < nd_size n")
    case lt: True
    have k: "unat ?pos + unat ?k \<le> unat (nd_size n)"
      using lt by (auto simp: word_less_nat_alt unat_sub_if')
    let ?bs = "map (byte_at (pages fs) n) [unat ?pos..<unat ?pos + unat ?k]"
    have r: "read_loop fs n ?pos 0 (unat ?k) = Some ?bs"
      using read_loop_bytes [OF n(3), of ?pos 0 "unat ?k"] k by simp
    have "unat (?pos + of_nat (length ?bs)) \<le> unat (nd_size n)"
      using k by (simp add: unat_word_ariths)
    then have "fd_live (heap fs) (?f\<lparr>fd_pos := ?pos + of_nat (length ?bs)\<rparr>)"
      by (rule fd_live_moved [OF n(2,1,3)])
    then have "ramfs_inv (upd_fd (nat fd) (\<lambda>f. f\<lparr>fd_pos := fd_pos f + of_nat (length ?bs)\<rparr>) fs)"
      by (intro inv_upd_fd inv)
    then show ?thesis
      using True n lt r inv by (auto simp: ramfs_read_def step_simps Let_def)
  next
    case False
    then show ?thesis using True n inv by (simp add: ramfs_read_def step_simps Let_def not_less)
  qed
qed

lemma ramfs_seek_safe:
  assumes inv: "ramfs_inv fs"
  shows "safe (ramfs_seek fd offset fs)"
proof (cases "fd_ok fs fd")
  case True
  let ?f = "file_descriptors fs ! nat fd"
  obtain n where n: "heap fs (fd_node ?f) = Some n" "fd_live (heap fs) ?f" "node_ok (pages fs) n"
    "fd_node ?f \<noteq> 0"
    using inv_fd [OF inv True] by metis
  have "fd_live (heap fs) (?f\<lparr>fd_pos := if nd_size n < offset then nd_size n else offset\<rparr>)"
    by (rule fd_live_moved [OF n(2,1,3)]) (auto simp: word_less_nat_alt)
  then have "ramfs_inv (upd_fd (nat fd)
      (\<lambda>f. f\<lparr>fd_pos := if nd_size n < offset then nd_size n else offset\<rparr>) fs)"
    by (intro inv_upd_fd inv)
  then show ?thesis using True n by (simp add: ramfs_seek_def step_simps Let_def)
qed (simp add: ramfs_seek_def step_simps inv)

lemma refs_plus: "(r :: u8) < 255 \<Longrightarrow> r + 1 \<noteq> 0"
proof
  assume "r < 255" and "r + 1 = 0"
  then have "r = - 1" by (simp add: eq_neg_iff_add_eq_0)
  with \<open>r < 255\<close> show False by simp
qed

lemma fd_live_refs: "fd_live h f \<Longrightarrow> r \<noteq> 0 \<Longrightarrow> fd_live h (f\<lparr>refs := r\<rparr>)"
  by (auto simp: fd_live_def)

lemma ramfs_fd_ref_safe:
  assumes inv: "ramfs_inv fs"
  shows "ramfs_inv (snd (ramfs_fd_ref fd fs))"
proof -
  have "in_use (file_descriptors fs ! nat fd) \<Longrightarrow> nat fd < 16 \<Longrightarrow>
      fd_live (heap fs) (file_descriptors fs ! nat fd)"
    using fds_okD(2) [OF ramfs_invD(5) [OF inv]] by simp
  then show ?thesis
    by (auto simp: ramfs_fd_ref_def Let_def refs_plus inv intro!: inv_upd_fd fd_live_refs)
qed

lemma ramfs_close_safe:
  assumes inv: "ramfs_inv fs"
  shows "ramfs_inv (ramfs_close fd fs)"
proof -
  have "in_use (file_descriptors fs ! nat fd) \<Longrightarrow> nat fd < 16 \<Longrightarrow>
      fd_live (heap fs) (file_descriptors fs ! nat fd)"
    using fds_okD(2) [OF ramfs_invD(5) [OF inv]] by simp
  then show ?thesis
    by (auto simp: ramfs_close_def Let_def inv intro!: inv_upd_fd fd_live_refs)
qed

end
