(* ===== verification/Ramfs_Remove.thy ===== *)
theory Ramfs_Remove
  imports Ramfs_Safe
begin

text \<open>
  Safety of the operations that take nodes away or rename them: \<^verbatim>\<open>ramfs_unlink\<close>,
  \<^verbatim>\<open>ramfs_rmdir\<close>, \<^verbatim>\<open>ramfs_rename\<close> and \<^verbatim>\<open>ramfs_chmod\<close>.
\<close>

section \<open>The list surgery\<close>

lemma entry_parent:
  assumes t: "tree_ok K D r h" and p: "h p = Some n" "p \<noteq> r"
  obtains pn where "h (nd_parent n) = Some pn" and "p \<in> set (K (nd_parent n))"
    and "D p = Suc (D (nd_parent n))" and "nd_parent n \<noteq> p" and "nd_parent n \<noteq> 0"
proof -
  have e: "entry_ok K D h p n" by (rule tree_okD(5) [OF t p])
  then obtain pn where "h (nd_parent n) = Some pn" by (auto simp: entry_ok_def)
  moreover from this have "nd_parent n \<noteq> 0" using tree_okD(1) [OF t] by auto
  moreover have "nd_parent n \<noteq> p" using e by (auto simp: entry_ok_def)
  ultimately show ?thesis using that e by (auto simp: entry_ok_def)
qed

lemma unlink_head:
  assumes h: "heap fs p = Some n" "heap fs par = Some pn" "par \<noteq> p" and head: "nd_children pn = p"
  shows "unlink_child par p fs = Some (Inr (fs\<lparr>heap :=
    (heap fs)(par \<mapsto> pn\<lparr>nd_children := nd_next n, child_count := child_count pn - 1\<rparr>)\<rparr>))"
  using assms by (simp add: unlink_child_def upd_node_def)

lemma unlink_middle:
  assumes h: "heap fs p = Some n" "heap fs par = Some pn" "par \<noteq> p" and head: "nd_children pn \<noteq> p"
    and prev: "find_prev fs p 64 (nd_children pn) = Some (Inr prev)" "prev \<noteq> 0" "prev \<noteq> par"
      "heap fs prev = Some pm"
  shows "unlink_child par p fs = Some (Inr (fs\<lparr>heap :=
    (heap fs)(prev \<mapsto> pm\<lparr>nd_next := nd_next n\<rparr>, par \<mapsto> pn\<lparr>child_count := child_count pn - 1\<rparr>)\<rparr>))"
  using assms by (simp add: unlink_child_def upd_node_def)

lemma unlink_child_prunes:
  assumes t: "tree_ok K D r (heap fs)" and p: "heap fs p = Some n" "p \<noteq> r"
  obtains X pn' xs ys where "unlink_child (nd_parent n) p fs = Some (Inr (fs\<lparr>heap := X\<rparr>))"
    and "K (nd_parent n) = xs @ p # ys" and "X p = Some n" and "X (nd_parent n) = Some pn'"
    and "pruned K (nd_parent n) p (heap fs) (X(p := None))"
    and "chain (X(p := None)) (nd_children pn') (xs @ ys)" and "unat (child_count pn') = length (xs @ ys)"
proof -
  obtain pn where pn: "heap fs (nd_parent n) = Some pn" "p \<in> set (K (nd_parent n))" "nd_parent n \<noteq> p"
    using entry_parent [OF t p] by metis
  define par where "par = nd_parent n"
  note pn = pn [folded par_def]
  have ok: "dir_ok K (heap fs) par pn" by (rule tree_okD(4) [OF t pn(1)])
  obtain xs ys where K: "K par = xs @ p # ys" using pn(2) by (metis split_list)
  have dist: "distinct (xs @ p # ys)" using dir_okD(5) [OF ok] K by simp
  have ch: "chain (heap fs) (nd_children pn) (xs @ p # ys)" using dir_okD(1) [OF ok] K by simp
  have cc: "unat (child_count pn) = Suc (length (xs @ ys))" using dir_okD(2) [OF ok] K by simp
  have cc': "unat (child_count pn - 1) = length (xs @ ys)" using cc by (subst unat_u16_dec) auto
  show ?thesis
  proof (cases xs rule: rev_cases)
    case Nil
    let ?X = "(heap fs)(par \<mapsto> pn\<lparr>nd_children := nd_next n, child_count := child_count pn - 1\<rparr>)"
    have hd: "nd_children pn = p" "chain (heap fs) (nd_next n) ys" using ch Nil p by auto
    have "chain (?X(p := None)) (nd_next n) ys = chain (heap fs) (nd_next n) ys"
      using dist pn by (intro chain_cong) auto
    moreover have "pruned K par p (heap fs) (?X(p := None))"
      using pn by (auto simp: pruned_def split: if_splits)
    ultimately show ?thesis
      using that [of ?X xs ys] unlink_head [OF p(1) pn(1,3) hd(1)] K hd cc' Nil pn p
      by (simp add: par_def)
  next
    case (snoc zs prev)
    have ch': "chain (heap fs) (nd_children pn) (zs @ prev # p # ys)" using ch snoc by simp
    have pin: "prev \<in> set (K par)" using K snoc by simp
    obtain pm where pm: "heap fs prev = Some pm" "prev \<noteq> 0" using kids_live [OF t pn(1) pin] by metis
    have "D prev = Suc (D par)" by (rule depth_parent [OF t pn(1) pin])
    then have pne: "prev \<noteq> par" by auto
    have first: "nd_children pn \<noteq> p" using ch' dist snoc by (cases zs) auto
    have "length zs \<le> 64" using kids_bound [OF t pn(1)] K snoc by simp
    then have fp: "find_prev fs p 64 (nd_children pn) = Some (Inr prev)"
      using find_prev_chain [OF ch'] dist snoc by auto
    let ?X = "(heap fs)(prev \<mapsto> pm\<lparr>nd_next := nd_next n\<rparr>, par \<mapsto> pn\<lparr>child_count := child_count pn - 1\<rparr>)"
    have "chain ((heap fs)(prev \<mapsto> pm\<lparr>nd_next := nd_next n\<rparr>)) (nd_children pn) (zs @ prev # ys)"
      by (rule chain_remove [OF ch' _ pm(1) p(1)]) (use dist snoc in simp)
    moreover have "chain (?X(p := None)) (nd_children pn) (zs @ prev # ys) =
        chain ((heap fs)(prev \<mapsto> pm\<lparr>nd_next := nd_next n\<rparr>)) (nd_children pn) (zs @ prev # ys)"
      by (rule chain_cong) (use dist snoc pn pne in auto)
    moreover have "pruned K par p (heap fs) (?X(p := None))"
      using pn pm pin by (auto simp: pruned_def split: if_splits)
    moreover have "?X p = Some n" using p pn(3) dist snoc by auto
    ultimately show ?thesis
      using that [of ?X xs ys] unlink_middle [OF p(1) pn(1,3) first fp pm(2) pne pm(1)] K cc' snoc
      by (simp add: par_def)
  qed
qed

section \<open>Giving frames back\<close>

lemma free_pages_frame [frame_rules]:
  "heap (free_pages pgs fs) = heap fs" "fs_root (free_pages pgs fs) = fs_root fs"
  "file_descriptors (free_pages pgs fs) = file_descriptors fs"
  "total_nodes (free_pages pgs fs) = total_nodes fs"
  "pages (free_pages pgs fs) = (\<lambda>x. if x \<in> set pgs - {0} then None else pages fs x)"
  by (induction pgs arbitrary: fs) (auto simp: fun_eq_iff)

lemma free_pages_store:
  assumes "store_ok fs" and "\<And>pg. pg \<in> set pgs \<Longrightarrow> pg \<noteq> 0 \<Longrightarrow> pg \<notin> dom (heap fs)"
  shows "store_ok (free_pages pgs fs)"
  using assms
proof (induction pgs arbitrary: fs)
  case (Cons pg pgs)
  let ?fs = "fs\<lparr>pages := (pages fs)(pg := None), fs_pmm := pmm_free pg (fs_pmm fs)\<rparr>"
  show ?case
  proof (cases "pg = 0")
    case False
    let ?H = "dom (heap fs) \<union> (dom (pages fs) - {pg})"
    have inv: "pmm_inv (fs_pmm fs)" using Cons.prems(1) by (simp add: store_ok_def)
    have "?H \<inter> avail_pages (fs_pmm fs) = {}" using Cons.prems(1) by (auto simp: store_ok_def)
    then have "?H \<inter> avail_pages (pmm_free pg (fs_pmm fs)) = {}"
      using Cons.prems(2) [of pg] False by (intro pf.free_owned [OF inv]) auto
    then have "store_ok ?fs"
      using Cons.prems(1) pf.free_inv [OF inv] by (auto simp: store_ok_def)
    then show ?thesis using Cons.IH [of ?fs] Cons.prems(2) False by simp
  qed (use Cons in simp)
qed simp

lemma free_pages_avail:
  assumes "pmm_inv (fs_pmm fs)" and "\<And>pg. pg \<in> set pgs \<Longrightarrow> pg \<noteq> 0 \<Longrightarrow> page_addr pg"
  shows "avail_pages (fs_pmm (free_pages pgs fs)) = avail_pages (fs_pmm fs) \<union> (set pgs - {0}) \<and>
    pmm_inv (fs_pmm (free_pages pgs fs))"
  using assms
proof (induction pgs arbitrary: fs)
  case (Cons pg pgs)
  show ?case
  proof (cases "pg = 0")
    case False
    let ?fs = "fs\<lparr>pages := (pages fs)(pg := None), fs_pmm := pmm_free pg (fs_pmm fs)\<rparr>"
    have "avail_pages (fs_pmm ?fs) = insert pg (avail_pages (fs_pmm fs))"
      using pf.free_gives [OF Cons.prems(1)] Cons.prems(2) [of pg] False by simp
    then show ?thesis
      using Cons.IH [of ?fs] pf.free_inv [OF Cons.prems(1)] Cons.prems(2) False by auto
  qed (use Cons in auto)
qed simp

lemma free_node_store:
  assumes s: "store_ok fs" and p: "heap fs p = Some n" "p \<noteq> 0" and fin: "finite (dom (heap fs))"
    and pgs: "\<And>pg. pg \<in> set (data_pages n) \<Longrightarrow> pg \<noteq> 0 \<Longrightarrow> pg \<notin> dom (heap fs)"
  shows "\<exists>fs'. free_node p fs = Some fs' \<and> store_ok fs' \<and> heap fs' = (heap fs)(p := None) \<and>
    pages fs' = (\<lambda>x. if x \<in> set (data_pages n) - {0} then None else pages fs x) \<and>
    fs_root fs' = fs_root fs \<and> file_descriptors fs' = file_descriptors fs \<and>
    ((\<forall>pg \<in> set (data_pages n). pg \<noteq> 0 \<longrightarrow> page_addr pg) \<longrightarrow>
      avail_pages (fs_pmm fs') = avail_pages (fs_pmm fs) \<union> insert p (set (data_pages n) - {0}))"
proof -
  let ?fs = "free_pages (data_pages n) fs"
  have s1: "store_ok ?fs" by (rule free_pages_store [OF s pgs])
  have inv: "pmm_inv (fs_pmm ?fs)" using s1 by (simp add: store_ok_def)
  let ?H = "(dom (heap fs) - {p}) \<union> dom (pages ?fs)"
  have "p \<notin> dom (pages ?fs)" using s1 p by (auto simp: store_ok_def free_pages_frame(1))
  moreover have "?H \<inter> avail_pages (fs_pmm ?fs) = {}"
    using s1 by (auto simp: store_ok_def free_pages_frame(1))
  ultimately have H: "?H \<inter> avail_pages (pmm_free p (fs_pmm ?fs)) = {}"
    by (intro pf.free_owned [OF inv]) auto
  have "p \<in> dom (heap fs)" using p by blast
  then have "card (dom (heap fs) - {p}) = card (dom (heap fs)) - 1" and "card (dom (heap fs)) \<noteq> 0"
    using fin by (auto simp: card_gt_0_iff)
  moreover have "unat (total_nodes fs) = card (dom (heap fs))" using s by (simp add: store_ok_def)
  ultimately have "unat (total_nodes fs - 1) = card (dom (heap fs) - {p})"
    by (subst unat_u32_dec) (simp_all add: unat_eq_zero [symmetric])
  then have "store_ok (?fs\<lparr>heap := (heap ?fs)(p := None), fs_pmm := pmm_free p (fs_pmm ?fs),
      total_nodes := total_nodes ?fs - 1\<rparr>)"
    using s1 H pf.free_inv [OF inv] by (auto simp: store_ok_def free_pages_frame(1,4))
  moreover have "avail_pages (pmm_free p (fs_pmm ?fs)) = avail_pages (fs_pmm fs) \<union> insert p (set (data_pages n) - {0})"
    if "\<forall>pg \<in> set (data_pages n). pg \<noteq> 0 \<longrightarrow> page_addr pg"
  proof -
    have "page_addr p" using s p by (auto simp: store_ok_def)
    then show ?thesis
      using pf.free_gives [OF inv] free_pages_avail [of fs "data_pages n"] that s by (auto simp: store_ok_def)
  qed
  ultimately show ?thesis using p by (simp add: free_node_def Let_def free_pages_frame)
qed

lemma pruned_data:
  assumes d: "data_ok h pg" and g: "pruned K par p h g" and p: "h p = Some n" and pg0: "pg 0 = None"
    and pg': "pg' = (\<lambda>x. if x \<in> set (data_pages n) - {0} then None else pg x)"
  shows "data_ok g pg'" and "tails_ok h pg \<Longrightarrow> tails_ok g pg'"
proof -
  have dom: "dom g = dom h - {p}" using g by (simp add: pruned_def)
  have len: "length (data_pages n) = 16" using data_okD(1) [OF d p] by (simp add: node_ok_def)
  have kept: "\<exists>m'. h c = Some m' \<and> data_pages m' = data_pages m \<and> nd_size m' = nd_size m"
    if "g c = Some m" for c m
    by (rule prunedD [OF g that]) blast
  have other: "pg' (data_pages m ! i) = pg (data_pages m ! i)"
    if gc: "g c = Some m" and i: "i < 16" "data_pages m ! i \<noteq> 0" for c m i
  proof -
    obtain m' where m': "h c = Some m'" "data_pages m' = data_pages m" using kept [OF gc] by blast
    have "c \<noteq> p" using gc dom by auto
    then have "data_pages m ! i \<noteq> data_pages n ! j" if "j < 16" for j
      using data_okD(2) [OF d m'(1) p i(1) that] m'(2) i(2) by auto
    then have "data_pages m ! i \<notin> set (data_pages n)" using len by (metis in_set_conv_nth)
    then show ?thesis by (simp add: pg')
  qed
  have nodes: "node_ok pg' m" if gc: "g c = Some m" for c m
  proof -
    obtain m' where m': "h c = Some m'" "data_pages m' = data_pages m" "nd_size m' = nd_size m"
      using kept [OF gc] by blast
    show ?thesis
      using data_okD(1) [OF d m'(1)] m' other [OF gc] by (simp add: node_ok_def)
  qed
  have uniq: "q = q' \<and> i = j"
    if "g q = Some m" "g q' = Some k" "i < 16" "j < 16" "data_pages m ! i \<noteq> 0"
      "data_pages m ! i = data_pages k ! j" for q q' m k i j
    using kept [OF that(1)] kept [OF that(2)] data_okD(2) [OF d] that(3-6) by metis
  have owned: "\<exists>q m i. g q = Some m \<and> i < 16 \<and> data_pages m ! i = x" if x: "x \<in> dom pg'" for x
  proof -
    have "x \<in> dom pg" and nx: "x \<notin> set (data_pages n) - {0}" using x by (auto simp: pg' split: if_splits)
    then obtain q m i where q: "h q = Some m" "i < 16" "data_pages m ! i = x" using data_okD(3) [OF d] by blast
    show ?thesis
    proof (cases "q = p")
      case True
      then have "x = 0" using nx q p len by auto
      then show ?thesis using x pg0 by (auto simp: pg')
    next
      case False
      then have "q \<in> dom g" unfolding dom using q by blast
      then obtain k where k: "g q = Some k" by blast
      then have "data_pages k = data_pages m" using kept [OF k] q by auto
      then show ?thesis using k q by metis
    qed
  qed
  show "data_ok g pg'" unfolding data_ok_def using nodes uniq owned by blast
  show "tails_ok g pg'" if t: "tails_ok h pg"
    unfolding tails_ok_def tail_ok_def
    using t kept other unfolding tails_ok_def tail_ok_def by metis
qed

section \<open>The operations\<close>

lemma pruned_fds:
  assumes "fds_ok h fds" and g: "pruned K par p h g"
    and idle: "\<forall>f \<in> set fds. in_use f \<longrightarrow> fd_node f \<noteq> p"
  shows "fds_ok g fds"
proof -
  have dom: "dom g = dom h - {p}" using g by (simp add: pruned_def)
  have "fd_live g f" if live: "fd_live h f" and ne: "fd_node f \<noteq> p" for f
  proof -
    obtain n where n: "h (fd_node f) = Some n" using live by (auto simp: fd_live_def)
    have "fd_node f \<in> dom g" unfolding dom using n ne by blast
    then obtain m where m: "g (fd_node f) = Some m" by blast
    have "nd_type m = nd_type n \<and> data_pages m = data_pages n"
      by (rule prunedD [OF g m]) (use n in simp)
    then show ?thesis using live n m by (auto simp: fd_live_def)
  qed
  then show ?thesis using assms(1) idle by (auto simp: fds_ok_def)
qed

lemma remove_safe:
  assumes inv: "ramfs_inv fs" and p: "heap fs p = Some n" "p \<noteq> fs_root fs"
    and leaf: "nd_type n \<noteq> RAMFS_TYPE_DIR \<or> nd_children n = 0"
    and idle: "\<not> ramfs_node_is_busy hook fs p" and t: "tree_ok K D (fs_root fs) (heap fs)"
  shows "\<exists>fs' fs'' xs ys. unlink_child (nd_parent n) p fs = Some (Inr fs') \<and> free_node p fs' = Some fs'' \<and>
    ramfs_inv fs'' \<and> dom (pages fs'') = dom (pages fs) - set (data_pages n) \<and>
    avail_pages (fs_pmm fs'') = avail_pages (fs_pmm fs) \<union> insert p (set (data_pages n) - {0}) \<and>
    file_descriptors fs'' = file_descriptors fs \<and> fs_root fs'' = fs_root fs \<and>
    K p = [] \<and> K (nd_parent n) = xs @ p # ys \<and> pruned K (nd_parent n) p (heap fs) (heap fs'') \<and>
    tree_ok (K(nd_parent n := xs @ ys)) D (fs_root fs) (heap fs'')"
proof -
  note invs = ramfs_invD [OF inv]
  have p0: "p \<noteq> 0" using tree_okD(1) [OF t] p by auto
  have ok: "dir_ok K (heap fs) p n" by (rule tree_okD(4) [OF t p(1)])
  have Kp: "K p = []" using leaf dir_okD(1,3) [OF ok] by (auto simp: chain_Nil_iff)
  obtain X pn' xs ys where un: "unlink_child (nd_parent n) p fs = Some (Inr (fs\<lparr>heap := X\<rparr>))"
    and K: "K (nd_parent n) = xs @ p # ys" and X: "X p = Some n" "X (nd_parent n) = Some pn'"
    and pr: "pruned K (nd_parent n) p (heap fs) (X(p := None))"
    and ch: "chain (X(p := None)) (nd_children pn') (xs @ ys)"
    and cc: "unat (child_count pn') = length (xs @ ys)"
    by (rule unlink_child_prunes [OF t p])
  have ne: "nd_parent n \<noteq> p" using entry_parent [OF t p] by metis
  have tree: "tree_ok (K(nd_parent n := xs @ ys)) D (fs_root fs) (X(p := None))"
    by (rule tree_ok_remove [OF t p Kp K pr _ ch cc]) (use X ne in simp)
  have domX: "dom X = dom (heap fs)"
    using pr X p by (auto simp: pruned_def dom_def fun_eq_iff split: if_splits)
  have st: "store_ok (fs\<lparr>heap := X\<rparr>)" using invs(3) domX by (simp add: store_ok_def)
  have nok: "node_ok (pages fs) n" by (rule data_okD(1) [OF invs(4) p(1)])
  have pgs: "pg \<notin> dom X \<and> page_addr pg" if "pg \<in> set (data_pages n)" "pg \<noteq> 0" for pg
  proof -
    have "pg \<in> dom (pages fs)" using nok that by (auto simp: node_ok_def in_set_conv_nth)
    then show ?thesis unfolding domX using invs(3) by (auto simp: store_ok_def)
  qed
  obtain fs'' where fr: "free_node p (fs\<lparr>heap := X\<rparr>) = Some fs''" and st'': "store_ok fs''"
    and h'': "heap fs'' = X(p := None)"
    and pg'': "pages fs'' = (\<lambda>x. if x \<in> set (data_pages n) - {0} then None else pages fs x)"
    and rest: "fs_root fs'' = fs_root fs" "file_descriptors fs'' = file_descriptors fs"
    and av: "avail_pages (fs_pmm fs'') = avail_pages (fs_pmm fs) \<union> insert p (set (data_pages n) - {0})"
    using free_node_store [OF st _ p0, of n] X(1) pgs tree_okD(2) [OF t] domX
    by (auto cong: if_cong)
  have pg0: "pages fs 0 = None" using invs(3) page_addr_0 by (auto simp: store_ok_def)
  have "fds_ok (heap fs'') (file_descriptors fs'')"
    using pruned_fds [OF invs(5) pr] idle p0 unfolding h'' rest by (auto simp: ramfs_node_is_busy_def)
  then have "ramfs_inv fs''"
    using tree st'' pruned_data [OF invs(4) pr p(1) pg0 pg''] invs(6)
    unfolding ramfs_inv_def ramfs_core_def by (auto simp: h'' rest)
  moreover have "dom (pages fs'') = dom (pages fs) - set (data_pages n)"
    using pg0 by (auto simp: pg'' split: if_splits)
  ultimately show ?thesis using un fr av rest Kp K pr [folded h''] tree [folded h''] by blast
qed

lemma inv_find:
  assumes inv: "ramfs_inv fs"
  shows "\<exists>p. ramfs_find_locked cur fs path = Some p \<and> (p \<noteq> 0 \<longrightarrow> (\<exists>n. heap fs p = Some n))"
  unfolding ramfs_find_locked_def by (rule inv_lookup [OF inv]) blast

lemma inv_parent:
  assumes inv: "ramfs_inv fs" and "heap fs p = Some n" and "nd_parent n \<noteq> 0"
  obtains pn where "heap fs (nd_parent n) = Some pn" and "p \<noteq> fs_root fs"
proof -
  obtain K D where t: "tree_ok K D (fs_root fs) (heap fs)" using ramfs_invD(2) [OF inv] by blast
  have "p \<noteq> fs_root fs" by (rule tree_ok_root [OF t]) (use assms in auto)
  then show ?thesis using entry_parent [OF t assms(2)] that by metis
qed

lemma ramfs_unlink_safe:
  assumes inv: "ramfs_inv fs"
  shows "safe (ramfs_unlink cur hook path fs)"
proof -
  obtain K D where t: "tree_ok K D (fs_root fs) (heap fs)" using ramfs_invD(2) [OF inv] by blast
  obtain p where f: "ramfs_find_locked cur fs path = Some p" "p \<noteq> 0 \<Longrightarrow> \<exists>n. heap fs p = Some n"
    using inv_find [OF inv, of cur path] by blast
  show ?thesis
  proof (cases "p = 0 \<or> p = fs_root fs")
    case False
    then obtain n where n: "heap fs p = Some n" using f(2) by blast
    have par: "\<exists>pn. heap fs (nd_parent n) = Some pn" if "nd_parent n \<noteq> 0"
      by (rule inv_parent [OF inv n that]) blast
    show ?thesis
    proof (cases "nd_type n \<noteq> RAMFS_TYPE_FILE \<or> ramfs_node_is_busy hook fs p")
      case True
      then show ?thesis using par f(1) inv False n by (auto simp: ramfs_unlink_def step_simps)
    next
      case idle: False
      then obtain fs' fs'' where "unlink_child (nd_parent n) p fs = Some (Inr fs')"
        "free_node p fs' = Some fs''" "ramfs_inv fs''"
        using remove_safe [OF inv n _ _ _ t, of hook] False by auto
      then show ?thesis using par f(1) inv False n idle by (auto simp: ramfs_unlink_def step_simps)
    qed
  qed (use f inv in \<open>auto simp: ramfs_unlink_def step_simps\<close>)
qed

lemma ramfs_rmdir_safe:
  assumes inv: "ramfs_inv fs"
  shows "safe (ramfs_rmdir cur hook path fs)"
proof -
  obtain K D where t: "tree_ok K D (fs_root fs) (heap fs)" using ramfs_invD(2) [OF inv] by blast
  obtain p where f: "ramfs_find_locked cur fs path = Some p" "p \<noteq> 0 \<Longrightarrow> \<exists>n. heap fs p = Some n"
    using inv_find [OF inv, of cur path] by blast
  show ?thesis
  proof (cases "p = 0 \<or> p = fs_root fs")
    case False
    then obtain n where n: "heap fs p = Some n" using f(2) by blast
    have par: "\<exists>pn. heap fs (nd_parent n) = Some pn" if "nd_parent n \<noteq> 0"
      by (rule inv_parent [OF inv n that]) blast
    show ?thesis
    proof (cases "nd_type n \<noteq> RAMFS_TYPE_DIR \<or> nd_children n \<noteq> 0 \<or> ramfs_node_is_busy hook fs p")
      case True
      then show ?thesis using par f(1) inv False n by (auto simp: ramfs_rmdir_def step_simps)
    next
      case idle: False
      then obtain fs' fs'' where "unlink_child (nd_parent n) p fs = Some (Inr fs')"
        "free_node p fs' = Some fs''" "ramfs_inv fs''"
        using remove_safe [OF inv n _ _ _ t, of hook] False by auto
      then show ?thesis using par f(1) inv False n idle by (auto simp: ramfs_rmdir_def step_simps)
    qed
  qed (use f inv in \<open>auto simp: ramfs_rmdir_def step_simps\<close>)
qed

lemma inv_upd_heap:
  assumes inv: "ramfs_inv fs" and p: "heap fs p = Some n" and d: "dview n' = dview n"
    and t: "tree_ok K D (fs_root fs) ((heap fs)(p \<mapsto> n'))"
  shows "ramfs_inv (fs\<lparr>heap := (heap fs)(p \<mapsto> n')\<rparr>)"
proof -
  note invs = ramfs_invD [OF inv]
  have view: "map_option dview (heap fs c) = map_option dview (((heap fs)(p \<mapsto> n')) c)" for c
    using p d by simp
  have dom: "dom ((heap fs)(p \<mapsto> n')) = dom (heap fs)" using p by auto
  have "store_ok (fs\<lparr>heap := (heap fs)(p \<mapsto> n')\<rparr>)" using invs(3) by (simp add: store_ok_def insert_absorb p domI)
  moreover have "data_ok ((heap fs)(p \<mapsto> n')) (pages fs)" by (rule data_ok_dview [OF view invs(4)])
  moreover have "tails_ok ((heap fs)(p \<mapsto> n')) (pages fs)" by (rule tails_ok_dview [OF view invs(6)])
  moreover have "fds_ok ((heap fs)(p \<mapsto> n')) (file_descriptors fs)"
    by (rule fds_ok_dview [OF view invs(5)])
  ultimately show ?thesis
    using t unfolding ramfs_inv_def ramfs_core_def by auto
qed

lemma ramfs_rename_safe:
  assumes inv: "ramfs_inv fs"
  shows "safe (ramfs_rename cur old_path new_path fs)"
proof -
  obtain K D where t: "tree_ok K D (fs_root fs) (heap fs)" using ramfs_invD(2) [OF inv] by blast
  obtain p where p: "ramfs_find_locked cur fs old_path = Some p" "p \<noteq> 0 \<Longrightarrow> \<exists>n. heap fs p = Some n"
    using inv_find [OF inv, of cur old_path] by blast
  obtain q where q: "ramfs_find_locked cur fs new_path = Some q" using inv_find [OF inv] by blast
  obtain any where any: "ramfs_find_any_locked cur fs new_path = Some any"
    by (rule inv_lookup [OF inv, of cur new_path False]) (simp add: ramfs_find_any_locked_def)
  show ?thesis
  proof (cases "p = 0 \<or> p = fs_root fs")
    case True
    then show ?thesis using p inv by (auto simp: ramfs_rename_def step_simps)
  next
    case False
    then obtain n where n: "heap fs p = Some n" using p(2) by blast
    obtain pn where pn: "heap fs (nd_parent n) = Some pn" using entry_parent [OF t n] False by metis
    show ?thesis
    proof (cases "split_path new_path")
      case None
      then show ?thesis using p q n pn inv by (simp add: ramfs_rename_def step_simps)
    next
      case (Some comps)
      obtain w where w: "walk_to_parent cur fs comps = Some w" using inv_walk [OF inv] by metis
      have ok: "ramfs_inv (fs\<lparr>heap := (heap fs)(p \<mapsto> n\<lparr>nd_name := last comps\<rparr>)\<rparr>)"
        if "comps \<noteq> []" "w = Inr (nd_parent n)" "any = 0"
      proof (rule inv_upd_heap [OF inv n])
        have "pick (heap fs) (last comps) (K (nd_parent n)) = 0"
          using walk_any [OF t Some that(1) _ any] w that by simp
        moreover have "0 \<notin> set (K (nd_parent n))" by (rule dir_okD(7) [OF tree_okD(4) [OF t pn]])
        ultimately have "last comps \<notin> name_of (heap fs) ` set (K (nd_parent n))" by (simp add: pick_0)
        then show "tree_ok K D (fs_root fs) ((heap fs)(p \<mapsto> n\<lparr>nd_name := last comps\<rparr>))"
          using split_path_good [OF Some] that(1) False by (intro tree_ok_rename [OF t n]) auto
      qed (simp add: dview_def)
      show ?thesis
        using p q n pn Some w any ok inv
        by (auto simp: ramfs_rename_def step_simps split: sum.splits)
    qed
  qed
qed

lemma ramfs_chmod_safe:
  assumes inv: "ramfs_inv fs"
  shows "safe (ramfs_chmod cur path mode fs)"
proof -
  obtain K D where t: "tree_ok K D (fs_root fs) (heap fs)" using ramfs_invD(2) [OF inv] by blast
  obtain p where p: "ramfs_find_locked cur fs path = Some p" "p \<noteq> 0 \<Longrightarrow> \<exists>n. heap fs p = Some n"
    using inv_find [OF inv, of cur path] by blast
  have "ramfs_inv (fs\<lparr>heap := (heap fs)(p \<mapsto> n\<lparr>nd_mode := m\<rparr>)\<rparr>)" if n: "heap fs p = Some n" for n m
    by (rule inv_upd_heap [OF inv n], simp add: dview_def, rule tree_ok_same_links [OF t])
      (use n in \<open>simp add: links_def heads_def\<close>)
  then show ?thesis
    using p inv by (cases "p = 0") (auto simp: ramfs_chmod_def ramfs_find_def step_simps Let_def)
qed

lemma ramfs_list_safe:
  assumes inv: "ramfs_inv fs"
  shows "\<exists>r. ramfs_list cur path limit fs = Some r"
proof -
  obtain K D where t: "tree_ok K D (fs_root fs) (heap fs)" using ramfs_invD(2) [OF inv] by blast
  obtain p where p: "ramfs_find_locked cur fs path = Some p" "p \<noteq> 0 \<Longrightarrow> \<exists>n. heap fs p = Some n"
    using inv_find [OF inv, of cur path] by blast
  have "\<exists>es. list_children fs limit (nd_children n) = Some es" if n: "heap fs p = Some n" for n
    using list_children_chain [OF dir_okD(1) [OF tree_okD(4) [OF t n]]] by blast
  then show ?thesis using p by (cases "p = 0") (auto simp: ramfs_list_def)
qed

lemma ramfs_fd_size_safe: "ramfs_inv fs \<Longrightarrow> \<exists>r. ramfs_fd_size fd fs = Some r"
  by (cases "fd_ok fs fd") (auto simp: ramfs_fd_size_def Let_def elim: inv_fd)

lemma ramfs_mkstemps_safe:
  assumes inv: "ramfs_inv fs"
  shows "wp (ramfs_mkstemps cur bytes sz fs) (\<lambda>(_, _, fs). ramfs_inv fs)"
proof (cases cur)
  case (Some t)
  let ?path = "mkstemps_path (t_private_tmp_dir t) bytes"
  obtain p where p: "ramfs_find_locked cur fs ?path = Some p" using inv_find [OF inv] by blast
  obtain fd fs' where o: "ramfs_open cur ?path (RAMFS_FLAG_READ OR RAMFS_FLAG_WRITE) fs = Some (fd, fs')"
    "ramfs_inv fs'"
    using ramfs_open_safe [OF inv, of cur ?path "RAMFS_FLAG_READ OR RAMFS_FLAG_WRITE"] by (auto simp: wp_iff)
  show ?thesis
    using p o inv Some by (simp add: ramfs_mkstemps_def ramfs_find_def step_simps Let_def)
qed (simp add: ramfs_mkstemps_def step_simps inv)

end
