(* ===== verification/Ramfs_File.thy ===== *)
theory Ramfs_File
  imports Ramfs_Remove
begin

text \<open>
  File contents: \<^verbatim>\<open>ramfs_write\<close>, \<^verbatim>\<open>ramfs_truncate\<close> and \<^verbatim>\<open>ramfs_read\<close> over the page
  tables refine operations on a plain byte list, and they keep the invariant of the file
  system. A page slot that is not backed reads as zero in the abstraction.
\<close>

section \<open>The bytes of a file\<close>

definition vbyte :: "(u32 \<rightharpoonup> u8 list) \<Rightarrow> ramfs_node \<Rightarrow> nat \<Rightarrow> u8" where
  "vbyte pg n off = (if data_pages n ! (off div 4096) = 0 then 0 else byte_at pg n off)"

definition fsbyte :: "ramfs \<Rightarrow> u32 \<Rightarrow> nat \<Rightarrow> u8" where
  "fsbyte fs q off = (case heap fs q of Some n \<Rightarrow> vbyte (pages fs) n off | None \<Rightarrow> 0)"

definition contents :: "ramfs \<Rightarrow> u32 \<Rightarrow> u8 list" where
  "contents fs p = (case heap fs p of
     Some n \<Rightarrow> map (vbyte (pages fs) n) [0..<unat (nd_size n)] | None \<Rightarrow> [])"

lemma page_of_offset: "(off :: nat) < 65536 \<Longrightarrow> off div 4096 < 16"
  by (simp add: less_mult_imp_div_less)

lemma tail_ok_vbyte: "tail_ok l pg n \<longleftrightarrow> (\<forall>off < 65536. l \<le> off \<longrightarrow> vbyte pg n off = 0)"
proof
  assume t: "tail_ok l pg n"
  show "\<forall>off < 65536. l \<le> off \<longrightarrow> vbyte pg n off = 0"
  proof (intro allI impI)
    fix off :: nat assume off: "off < 65536" "l \<le> off"
    have "l \<le> off div 4096 * 4096 + off mod 4096" using off by simp
    then show "vbyte pg n off = 0"
      using t page_of_offset [OF off(1)] by (simp add: tail_ok_def vbyte_def byte_at_def)
  qed
next
  assume v: "\<forall>off < 65536. l \<le> off \<longrightarrow> vbyte pg n off = 0"
  show "tail_ok l pg n"
    unfolding tail_ok_def
  proof (intro allI impI)
    fix i j :: nat assume "i < 16" "j < 4096" "data_pages n ! i \<noteq> 0" "l \<le> i * 4096 + j"
    then show "the (pg (data_pages n ! i)) ! j = 0"
      using v [rule_format, of "i * 4096 + j"] by (simp add: vbyte_def byte_at_def)
  qed
qed

section \<open>Backing a page\<close>

definition wrote :: "u32 \<Rightarrow> ramfs \<Rightarrow> ramfs \<Rightarrow> bool" where
  \<comment> \<open>only the page table of \<open>p\<close> may have changed, and only by backing more pages\<close>
  "wrote p fs fs' \<longleftrightarrow>
     fs_root fs' = fs_root fs \<and> file_descriptors fs' = file_descriptors fs \<and>
     (\<forall>q. q \<noteq> p \<longrightarrow> heap fs' q = heap fs q) \<and>
     (\<exists>n n'. heap fs p = Some n \<and> heap fs' p = Some n' \<and> n' = n\<lparr>data_pages := data_pages n'\<rparr> \<and>
        (\<forall>i < 16. data_pages n ! i \<noteq> 0 \<longrightarrow> data_pages n' ! i \<noteq> 0))"

lemma wrote_refl: "heap fs p = Some n \<Longrightarrow> wrote p fs fs"
  by (auto simp: wrote_def)

lemma wroteD:
  assumes "wrote p fs fs'" and "heap fs p = Some n"
  obtains n' where "heap fs' p = Some n'" and "n' = n\<lparr>data_pages := data_pages n'\<rparr>"
    and "\<And>i. i < 16 \<Longrightarrow> data_pages n ! i \<noteq> 0 \<Longrightarrow> data_pages n' ! i \<noteq> 0"
  using assms by (auto simp: wrote_def)

lemma wrote_trans:
  assumes "wrote p fs fs'" and "wrote p fs' fs''"
  shows "wrote p fs fs''"
proof -
  obtain n where n: "heap fs p = Some n" using assms(1) by (auto simp: wrote_def)
  obtain n' where n': "heap fs' p = Some n'" "n' = n\<lparr>data_pages := data_pages n'\<rparr>"
    "\<And>i. i < 16 \<Longrightarrow> data_pages n ! i \<noteq> 0 \<Longrightarrow> data_pages n' ! i \<noteq> 0"
    using wroteD [OF assms(1) n] by metis
  obtain n'' where n'': "heap fs'' p = Some n''" "n'' = n'\<lparr>data_pages := data_pages n''\<rparr>"
    "\<And>i. i < 16 \<Longrightarrow> data_pages n' ! i \<noteq> 0 \<Longrightarrow> data_pages n'' ! i \<noteq> 0"
    using wroteD [OF assms(2) n'(1)] by metis
  have "n'' = n\<lparr>data_pages := data_pages n''\<rparr>" by (subst n''(2), subst n'(2)) simp
  then show ?thesis using assms n n'' n'(3) unfolding wrote_def by auto
qed

lemma wrote_fds:
  assumes "wrote p fs fs'" and "fds_ok (heap fs) fds"
  shows "fds_ok (heap fs') fds"
proof -
  have "fd_live (heap fs') f" if live: "fd_live (heap fs) f" for f
  proof (cases "fd_node f = p")
    case True
    then obtain n where n: "heap fs p = Some n" using live by (auto simp: fd_live_def)
    obtain n' where n': "heap fs' p = Some n'" "n' = n\<lparr>data_pages := data_pages n'\<rparr>"
      "\<And>i. i < 16 \<Longrightarrow> data_pages n ! i \<noteq> 0 \<Longrightarrow> data_pages n' ! i \<noteq> 0"
      using wroteD [OF assms(1) n] by metis
    have "nd_type n' = nd_type n" by (subst n'(2)) simp
    then show ?thesis using live n n' True by (auto simp: fd_live_def)
  next
    case False
    then show ?thesis using live assms(1) by (auto simp: fd_live_def wrote_def)
  qed
  then show ?thesis using assms(2) by (auto simp: fds_ok_def)
qed

lemma wrote_tree:
  assumes w: "wrote p fs fs'" and t: "tree_ok K D r (heap fs)"
  shows "tree_ok K D r (heap fs')"
proof (rule tree_ok_same_links [OF t])
  fix c
  show "map_option (\<lambda>n. (links n, heads n)) (heap fs c) = map_option (\<lambda>n. (links n, heads n)) (heap fs' c)"
  proof (cases "c = p")
    case True
    obtain n where n: "heap fs p = Some n" using w by (auto simp: wrote_def)
    obtain n' where n': "heap fs' p = Some n'" "n' = n\<lparr>data_pages := data_pages n'\<rparr>"
      by (rule wroteD [OF w n])
    have "links n' = links n" "heads n' = heads n"
      by (subst n'(2), simp add: links_def heads_def)+
    then show ?thesis using n n' True by simp
  qed (use w in \<open>simp add: wrote_def\<close>)
qed

lemma ramfs_coreD:
  assumes "ramfs_core fs"
  shows "\<exists>K D. tree_ok K D (fs_root fs) (heap fs)" and "store_ok fs"
    and "data_ok (heap fs) (pages fs)" and "fds_ok (heap fs) (file_descriptors fs)"
  using assms by (auto simp: ramfs_core_def)

lemma core_node:
  assumes "ramfs_core fs" and "heap fs p = Some n"
  shows "node_ok (pages fs) n"
  by (rule data_okD(1) [OF ramfs_coreD(3) [OF assms(1)] assms(2)])

lemma node_okD:
  assumes "node_ok pg n"
  shows "length (data_pages n) = 16" and "unat (nd_size n) \<le> 65536"
    and "i < 16 \<Longrightarrow> data_pages n ! i \<noteq> 0 \<Longrightarrow> \<exists>b. pg (data_pages n ! i) = Some b \<and> length b = 4096"
    and "i < 16 \<Longrightarrow> i * 4096 < unat (nd_size n) \<Longrightarrow> data_pages n ! i \<noteq> 0"
  using assms by (auto simp: node_ok_def)

lemma data_ok_back:
  assumes d: "data_ok h pg" and p: "h p = Some n" and i: "i < 16" "data_pages n ! i = 0"
    and x: "pg x = None" "x \<noteq> 0" and pg0: "pg 0 = None"
  shows "data_ok (h(p \<mapsto> n\<lparr>data_pages := (data_pages n)[i := x]\<rparr>)) (pg(x \<mapsto> replicate 4096 0))"
    (is "data_ok ?h ?pg")
proof -
  define n' where "n' = n\<lparr>data_pages := (data_pages n)[i := x]\<rparr>"
  have len: "length (data_pages n) = 16" by (rule node_okD(1) [OF data_okD(1) [OF d p]])
  have other: "data_pages m ! j \<noteq> x" if "h q = Some m" "j < 16" for q m j
    using node_okD(3) [OF data_okD(1) [OF d that(1)] that(2)] x by auto
  have slot: "data_pages n' ! j = (if j = i then x else data_pages n ! j)" if "j < 16" for j
    using that len by (simp add: n'_def nth_list_update)
  have h: "?h q = (if q = p then Some n' else h q)" for q by (simp add: n'_def)
  have old: "\<exists>m'. h q = Some m' \<and> (j \<noteq> i \<or> q \<noteq> p \<longrightarrow> data_pages m' ! j = data_pages m ! j)"
    if "?h q = Some m" "j < 16" for q m j
    using that slot p by (auto simp: h split: if_splits)
  have isx: "data_pages m ! j = x \<longleftrightarrow> q = p \<and> j = i" if hq: "?h q = Some m" and j: "j < 16" for q m j
  proof (cases "q = p")
    case True
    then have "m = n'" using hq by (simp add: n'_def)
    then show ?thesis using slot [OF j] other [OF p j] True by auto
  next
    case False
    then show ?thesis using hq other [OF _ j] by auto
  qed
  have "node_ok ?pg m" if hq: "?h q = Some m" for q m
  proof (cases "q = p")
    case True
    then have m: "m = n'" using hq by (simp add: n'_def)
    have "unat (nd_size n') \<le> 65536" using node_okD(2) [OF data_okD(1) [OF d p]] by (simp add: n'_def)
    moreover have "\<exists>b. ?pg (data_pages n' ! j) = Some b \<and> length b = 4096"
      if "j < 16" "data_pages n' ! j \<noteq> 0" for j
      using that slot [OF that(1)] node_okD(3) [OF data_okD(1) [OF d p] that(1)] by (auto split: if_splits)
    moreover have "data_pages n' ! j \<noteq> 0" if "j < 16" "j * 4096 < unat (nd_size n')" for j
      using that slot [OF that(1)] node_okD(4) [OF data_okD(1) [OF d p] that(1)] x by (auto simp: n'_def)
    moreover have "length (data_pages n') = 16" using len by (simp add: n'_def)
    ultimately show ?thesis unfolding m node_ok_def by blast
  next
    case False
    then have "h q = Some m" using hq by simp
    then show ?thesis using data_okD(1) [OF d] other by (auto simp: node_ok_def)
  qed
  moreover have "q = q' \<and> j = k"
    if a: "?h q = Some m" "?h q' = Some m'" "j < 16" "k < 16" "data_pages m ! j \<noteq> 0"
      "data_pages m ! j = data_pages m' ! k" for q q' m m' j k
  proof -
    have "(q = p \<and> j = i) = (q' = p \<and> k = i)"
      using isx [OF a(1,3)] isx [OF a(2,4)] a(6) by simp
    moreover have "q = q' \<and> j = k" if "\<not> (q = p \<and> j = i)" "\<not> (q' = p \<and> k = i)"
      using old [OF a(1,3)] old [OF a(2,4)] data_okD(2) [OF d _ _ a(3,4)] a(5,6) that by metis
    ultimately show ?thesis by blast
  qed
  moreover have "\<exists>q m j. ?h q = Some m \<and> j < 16 \<and> data_pages m ! j = y" if y: "y \<in> dom ?pg" for y
  proof (cases "y = x")
    case True
    then show ?thesis using slot [OF i(1)] i(1) h [of p] by metis
  next
    case False
    then have dy: "y \<in> dom pg" using y by simp
    then obtain q m j where q: "h q = Some m" "j < 16" "data_pages m ! j = y"
      using data_okD(3) [OF d] by blast
    show ?thesis
    proof (cases "q = p \<and> j = i")
      case True
      then have "y = 0" using q p i by auto
      then show ?thesis using dy pg0 by auto
    next
      case False
      then show ?thesis using q slot [OF q(2)] h p by (metis option.inject)
    qed
  qed
  ultimately show ?thesis unfolding data_ok_def by blast
qed

lemma core_pages_0: "ramfs_core fs \<Longrightarrow> pages fs 0 = None"
  using page_addr_0 by (auto simp: ramfs_core_def store_ok_def)

lemma write_page_grows:
  assumes c: "ramfs_core fs" and p: "heap fs p = Some n" and i: "i < 16" "data_pages n ! i = 0"
    and a: "pmm_alloc (fs_pmm fs) = (x, pm)" and x: "x \<noteq> 0"
    and fs': "fs' = fs\<lparr>fs_pmm := pm, heap := (heap fs)(p \<mapsto> n\<lparr>data_pages := (data_pages n)[i := x]\<rparr>),
      pages := (pages fs)(x \<mapsto> replicate 4096 0)\<rparr>"
  shows "ramfs_core fs' \<and> wrote p fs fs' \<and> (\<forall>q. \<forall>off < 65536. fsbyte fs' q off = fsbyte fs q off)"
proof -
  note cs = ramfs_coreD [OF c]
  obtain K D where t: "tree_ok K D (fs_root fs) (heap fs)" using cs(1) by blast
  have inv: "pmm_inv (fs_pmm fs)" using cs(2) by (simp add: store_ok_def)
  let ?H = "dom (heap fs) \<union> dom (pages fs)"
  have H: "?H \<inter> avail_pages (fs_pmm fs) = {}" using cs(2) by (simp add: store_ok_def)
  have fresh: "x \<notin> ?H" by (rule pf.alloc_fresh [OF inv a x H])
  have owned: "insert x ?H \<inter> avail_pages pm = {}" by (rule pf.alloc_owned [OF inv a x H])
  have len: "length (data_pages n) = 16" by (rule node_okD(1) [OF core_node [OF c p]])
  have wr: "wrote p fs fs'"
    using p i x len by (auto simp: wrote_def fs' nth_list_update)
  have dom: "dom (heap fs') = dom (heap fs)" using p by (auto simp: fs')
  have "store_ok fs'"
    using cs(2) fresh owned pf.alloc_page [OF inv a x] pf.alloc_inv' [OF inv a]
    unfolding store_ok_def dom by (auto simp: fs')
  moreover have "data_ok (heap fs') (pages fs')"
    using data_ok_back [OF cs(3) p i _ x core_pages_0 [OF c]] fresh by (auto simp: fs')
  moreover have "tree_ok K D (fs_root fs') (heap fs')" using wrote_tree [OF wr t] by (simp add: fs')
  moreover have "fds_ok (heap fs') (file_descriptors fs')" using wrote_fds [OF wr cs(4)] by (simp add: fs')
  moreover have "fsbyte fs' q off = fsbyte fs q off" if off: "off < 65536" for q off
  proof -
    have pg: "off div 4096 < 16" by (rule page_of_offset [OF off])
    have old: "data_pages m ! (off div 4096) \<noteq> x" if "heap fs q = Some m" for q m
      using node_okD(3) [OF core_node [OF c that] pg] fresh x by fastforce
    show ?thesis
      using pg i x p len old
      by (auto simp: fsbyte_def vbyte_def byte_at_def fs' nth_list_update split: option.splits)
  qed
  ultimately show ?thesis using wr by (auto simp: ramfs_core_def)
qed

lemma write_page_ok:
  assumes c: "ramfs_core fs" and p: "heap fs p = Some n" and i: "i < 16"
  shows "wp (write_page p i fs) (\<lambda>(ok, fs'). ramfs_core fs' \<and> wrote p fs fs' \<and>
    (\<forall>q. \<forall>off < 65536. fsbyte fs' q off = fsbyte fs q off) \<and>
    (ok \<longrightarrow> (\<exists>n'. heap fs' p = Some n' \<and> data_pages n' ! i \<noteq> 0)) \<and>
    (\<not> ok \<longrightarrow> fst (pmm_alloc (fs_pmm fs')) = 0))"
proof (cases "data_pages n ! i = 0")
  case False
  then show ?thesis using c p wrote_refl [OF p] by (simp add: write_page_def step_simps)
next
  case True
  obtain x pm where a: "pmm_alloc (fs_pmm fs) = (x, pm)" by fastforce
  show ?thesis
  proof (cases "x = 0")
    case x: True
    have inv: "pmm_inv (fs_pmm fs)" using ramfs_coreD(2) [OF c] by (simp add: store_ok_def)
    have "pm = fs_pmm fs" using pf.alloc_fails [OF inv] a x by simp
    moreover have "(data_pages n)[i := 0] = data_pages n" using True by (metis list_update_id)
    ultimately have "write_page p i fs = Some (False, fs)"
      using a p True x by (simp add: write_page_def upd_node_def map_upd_triv)
    then show ?thesis using c wrote_refl [OF p] a x by (simp add: step_simps)
  next
    case x: False
    have len: "length (data_pages n) = 16" by (rule node_okD(1) [OF core_node [OF c p]])
    show ?thesis
      using write_page_grows [OF c p i True a x refl] a p True x i len
      by (simp add: write_page_def upd_node_def step_simps nth_list_update)
  qed
qed

lemma store_byte_ok:
  assumes c: "ramfs_core fs" and p: "heap fs p = Some n" and off: "off < 65536"
    and x: "data_pages n ! (off div 4096) = x" "x \<noteq> 0" and b: "pages fs x = Some bytes"
    and fs': "fs' = fs\<lparr>pages := (pages fs)(x \<mapsto> bytes[off mod 4096 := v])\<rparr>"
  shows "ramfs_core fs' \<and> wrote p fs fs' \<and>
    (\<forall>q. \<forall>o' < 65536. fsbyte fs' q o' = (if q = p \<and> o' = off then v else fsbyte fs q o'))"
proof -
  note cs = ramfs_coreD [OF c]
  have pg: "off div 4096 < 16" by (rule page_of_offset [OF off])
  have len: "length bytes = 4096" using node_okD(3) [OF core_node [OF c p] pg] x b by auto
  have dom: "dom (pages fs') = dom (pages fs)" using b by (auto simp: fs')
  have "store_ok fs'" using cs(2) unfolding store_ok_def dom by (simp add: fs')
  moreover have node: "node_ok (pages fs') m" if "node_ok (pages fs) m" for m
    using that b len by (auto simp: node_ok_def fs')
  have "data_ok (heap fs') (pages fs')"
    using cs(3) node unfolding data_ok_def dom by (simp add: fs')
  moreover have "fsbyte fs' q o' = (if q = p \<and> o' = off then v else fsbyte fs q o')" if o: "o' < 65536" for q o'
  proof (cases "heap fs q")
    case (Some m)
    have pg': "o' div 4096 < 16" by (rule page_of_offset [OF o])
    show ?thesis
    proof (cases "data_pages m ! (o' div 4096) = x")
      case True
      have "p = q \<and> off div 4096 = o' div 4096"
        using data_okD(2) [OF cs(3) p Some pg pg'] x True by simp
      moreover from this have "o' \<noteq> off \<Longrightarrow> o' mod 4096 \<noteq> off mod 4096"
        using mult_div_mod_eq [of 4096 o'] mult_div_mod_eq [of 4096 off] by metis
      ultimately show ?thesis
        using Some True x b len p by (auto simp: fsbyte_def vbyte_def byte_at_def fs' nth_list_update)
    next
      case False
      then have "\<not> (q = p \<and> o' = off)" using Some p x by auto
      then show ?thesis using Some False by (auto simp: fsbyte_def vbyte_def byte_at_def fs')
    qed
  qed (use p in \<open>auto simp: fsbyte_def fs'\<close>)
  ultimately show ?thesis using cs p by (auto simp: ramfs_core_def wrote_def fs')
qed

section \<open>The write loop\<close>

definition loop_post :: "u32 \<Rightarrow> nat \<Rightarrow> u8 list \<Rightarrow> ramfs \<Rightarrow> nat \<Rightarrow> ramfs \<Rightarrow> bool" where
  \<comment> \<open>the first \<open>k\<close> bytes of \<open>bs\<close> stand at offset \<open>o\<close> of \<open>p\<close>, nothing else changed\<close>
  "loop_post p o' bs fs k fs' \<longleftrightarrow>
     k \<le> length bs \<and> ramfs_core fs' \<and> wrote p fs fs' \<and>
     (\<forall>q. \<forall>x < 65536. fsbyte fs' q x =
        (if q = p \<and> o' \<le> x \<and> x < o' + k then bs ! (x - o') else fsbyte fs q x)) \<and>
     (\<forall>n. heap fs' p = Some n \<longrightarrow> (\<forall>x. o' \<le> x \<longrightarrow> x < o' + k \<longrightarrow> data_pages n ! (x div 4096) \<noteq> 0)) \<and>
     (k < length bs \<longrightarrow> fst (pmm_alloc (fs_pmm fs')) = 0)"

lemma loop_post_step:
  assumes b: "\<forall>q. \<forall>x < 65536. fsbyte fs1 q x = (if q = p \<and> x = o' then v else fsbyte fs q x)"
    and w: "wrote p fs fs1" and d: "heap fs1 p = Some n1" "data_pages n1 ! (o' div 4096) \<noteq> 0"
    and o: "o' < 65536" and post: "loop_post p (Suc o') bs fs1 k fs'"
  shows "loop_post p o' (v # bs) fs (Suc k) fs'"
proof -
  have w': "wrote p fs1 fs'" using post by (simp add: loop_post_def)
  have "fsbyte fs' q x = (if q = p \<and> o' \<le> x \<and> x < o' + Suc k then (v # bs) ! (x - o') else fsbyte fs q x)"
    if x: "x < 65536" for q x
  proof -
    have "fsbyte fs' q x = (if q = p \<and> Suc o' \<le> x \<and> x < Suc o' + k then bs ! (x - Suc o') else fsbyte fs1 q x)"
      using post x by (simp add: loop_post_def)
    moreover have "fsbyte fs1 q x = (if q = p \<and> x = o' then v else fsbyte fs q x)" using b x by simp
    moreover have "Suc o' \<le> x \<Longrightarrow> (v # bs) ! (x - o') = bs ! (x - Suc o')" by (simp add: nth_Cons')
    ultimately show ?thesis by auto
  qed
  moreover have "data_pages m ! (x div 4096) \<noteq> 0" if m: "heap fs' p = Some m" and x: "o' \<le> x" "x < o' + Suc k" for m x
  proof (cases "x = o'")
    case True
    obtain n' where "heap fs' p = Some n'" "\<And>i. i < 16 \<Longrightarrow> data_pages n1 ! i \<noteq> 0 \<Longrightarrow> data_pages n' ! i \<noteq> 0"
      using wroteD [OF w' d(1)] by metis
    then show ?thesis using m d(2) True page_of_offset [OF o] by auto
  next
    case False
    then show ?thesis using post m x by (auto simp: loop_post_def)
  qed
  ultimately show ?thesis
    using post wrote_trans [OF w w'] unfolding loop_post_def by (auto simp del: nth_Cons)
qed

lemma write_loop_ok:
  assumes "ramfs_core fs" and "heap fs p = Some n" and "unat pos + i + length bs \<le> 65536"
  shows "wp (write_loop p pos i bs fs) (\<lambda>(j, fs'). \<exists>k. j = i + k \<and> loop_post p (unat pos + i) bs fs k fs')"
  using assms
proof (induction bs arbitrary: i fs n)
  case Nil
  then show ?case using wrote_refl by (auto simp: step_simps loop_post_def)
next
  case (Cons v bs)
  let ?o = "unat pos + i"
  have off: "unat (pos + of_nat i) = ?o" using Cons.prems(3) by (subst unat_u32_add_no_wrap) auto
  have o: "?o < 65536" using Cons.prems(3) by simp
  have pg: "?o div 4096 < 16" by (rule page_of_offset [OF o])
  obtain ok fs1 where wp1: "write_page p (?o div 4096) fs = Some (ok, fs1)" and c1: "ramfs_core fs1"
    and w1: "wrote p fs fs1" and b1: "\<forall>q. \<forall>x < 65536. fsbyte fs1 q x = fsbyte fs q x"
    and ok: "ok \<Longrightarrow> \<exists>n'. heap fs1 p = Some n' \<and> data_pages n' ! (?o div 4096) \<noteq> 0"
    and fail: "\<not> ok \<Longrightarrow> fst (pmm_alloc (fs_pmm fs1)) = 0"
    using write_page_ok [OF Cons.prems(1,2) pg] by (auto simp: wp_iff)
  show ?case
  proof (cases ok)
    case False
    then show ?thesis
      using wp1 c1 w1 b1 fail pg off by (auto simp: u32_page step_simps Let_def loop_post_def)
  next
    case True
    then obtain n1 where n1: "heap fs1 p = Some n1" "data_pages n1 ! (?o div 4096) \<noteq> 0" using ok by blast
    obtain bytes where b: "pages fs1 (data_pages n1 ! (?o div 4096)) = Some bytes"
      using node_okD(3) [OF core_node [OF c1 n1(1)] pg n1(2)] by blast
    define fs2 where "fs2 = fs1\<lparr>pages := (pages fs1)(data_pages n1 ! (?o div 4096) \<mapsto> bytes[?o mod 4096 := v])\<rparr>"
    have s2: "ramfs_core fs2" "wrote p fs1 fs2"
      "\<forall>q. \<forall>x < 65536. fsbyte fs2 q x = (if q = p \<and> x = ?o then v else fsbyte fs1 q x)"
      using store_byte_ok [OF c1 n1(1) o refl n1(2) b fs2_def] by blast+
    have h2: "heap fs2 p = Some n1" using n1 by (simp add: fs2_def)
    have "wp (write_loop p pos (Suc i) bs fs2)
        (\<lambda>(j, fs'). \<exists>k. j = Suc i + k \<and> loop_post p (Suc ?o) bs fs2 k fs')"
      using Cons.IH [OF s2(1) h2, of "Suc i"] Cons.prems(3) by simp
    then obtain k fs' where r: "write_loop p pos (Suc i) bs fs2 = Some (Suc i + k, fs')"
      and post: "loop_post p (Suc ?o) bs fs2 k fs'"
      by (auto simp: wp_iff)
    have b2: "\<forall>q. \<forall>x < 65536. fsbyte fs2 q x = (if q = p \<and> x = ?o then v else fsbyte fs q x)"
      using s2(3) b1 by simp
    have "loop_post p ?o (v # bs) fs (Suc k) fs'"
      by (rule loop_post_step [OF b2 wrote_trans [OF w1 s2(2)] h2 n1(2) o post])
    moreover have "write_loop p pos i (v # bs) fs = Some (i + Suc k, fs')"
      using wp1 True n1 b r pg off by (simp add: u32_page Let_def fs2_def)
    ultimately show ?thesis by (auto simp: step_simps)
  qed
qed

section \<open>Size and position\<close>

lemma core_set_size:
  assumes c: "ramfs_core fs" and p: "heap fs p = Some n" and sz: "unat sz \<le> 65536"
    and backed: "\<And>i. i < 16 \<Longrightarrow> i * 4096 < unat sz \<Longrightarrow> data_pages n ! i \<noteq> 0"
  shows "ramfs_core (fs\<lparr>heap := (heap fs)(p \<mapsto> n\<lparr>nd_size := sz\<rparr>)\<rparr>)" (is "ramfs_core (fs\<lparr>heap := ?h\<rparr>)")
proof -
  note cs = ramfs_coreD [OF c]
  obtain K D where t: "tree_ok K D (fs_root fs) (heap fs)" using cs(1) by blast
  have "tree_ok K D (fs_root fs) ?h"
    by (rule tree_ok_same_links [OF t]) (use p in \<open>simp add: links_def heads_def\<close>)
  moreover have "dom ?h = dom (heap fs)" using p by auto
  then have "store_ok (fs\<lparr>heap := ?h\<rparr>)" using cs(2) by (simp add: store_ok_def)
  moreover have "node_ok (pages fs) m" if "?h q = Some m" for q m
    using that core_node [OF c] sz backed p by (auto simp: node_ok_def split: if_splits)
  then have "data_ok ?h (pages fs)"
    by (rule data_ok_pages [OF _ cs(3), rotated]) (use p in auto)
  moreover have "fds_ok ?h (file_descriptors fs)"
    using cs(4) p by (auto simp: fds_ok_def fd_live_def)
  ultimately show ?thesis by (auto simp: ramfs_core_def)
qed

lemma core_upd_fd:
  assumes "ramfs_core fs" and "i < 16 \<Longrightarrow> in_use (f (file_descriptors fs ! i)) \<Longrightarrow>
    fd_live (heap fs) (f (file_descriptors fs ! i))"
  shows "ramfs_core (upd_fd i f fs)"
  using assms fds_ok_upd [of "heap fs" "file_descriptors fs" i "f (file_descriptors fs ! i)"]
  by (auto simp: ramfs_core_def upd_fd_def store_ok_def)

lemma tails_fsbyte:
  "tails_ok (heap fs) (pages fs) \<longleftrightarrow>
     (\<forall>p n. heap fs p = Some n \<longrightarrow> (\<forall>x < 65536. unat (nd_size n) \<le> x \<longrightarrow> fsbyte fs p x = 0))"
  by (auto simp: tails_ok_def tail_ok_vbyte fsbyte_def)

lemma contents_fsbyte:
  "heap fs p = Some n \<Longrightarrow> contents fs p = map (fsbyte fs p) [0..<unat (nd_size n)]"
  by (simp add: contents_def fsbyte_def)

definition write_spec :: "nat \<Rightarrow> u8 list \<Rightarrow> u8 list \<Rightarrow> u8 list" where
  \<comment> \<open>overwrite from \<open>pos\<close> on, with zeros in a gap beyond the end\<close>
  "write_spec pos bs c =
     take pos (c @ replicate (pos - length c) 0) @ bs @ drop (pos + length bs) c"

lemma length_write_spec: "length (write_spec pos bs c) = max (length c) (pos + length bs)"
  by (auto simp: write_spec_def)

lemma nth_write_spec:
  "x < length (write_spec pos bs c) \<Longrightarrow> write_spec pos bs c ! x =
     (if pos \<le> x \<and> x < pos + length bs then bs ! (x - pos) else if x < length c then c ! x else 0)"
  by (auto simp: write_spec_def nth_append min_def)

lemma write_commit_core:
  assumes inv: "ramfs_inv fs" and fd: "fd_ok fs fd" and f: "f = file_descriptors fs ! nat fd"
    and p: "heap fs (fd_node f) = Some n" and le: "unat (fd_pos f) + length bs \<le> 65536"
    and post: "loop_post (fd_node f) (unat (fd_pos f)) bs fs k fs1"
    and n1: "heap fs1 (fd_node f) = Some n1"
    and s: "s = max (unat (nd_size n)) (unat (fd_pos f) + k)"
  shows "ramfs_core ((upd_fd (nat fd) (\<lambda>f. f\<lparr>fd_pos := fd_pos f + of_nat k\<rparr>) fs1)
      \<lparr>heap := (heap fs1)(fd_node f \<mapsto> n1\<lparr>nd_size := of_nat s\<rparr>)\<rparr>)"
proof -
  let ?p = "fd_node f" and ?pos = "unat (fd_pos f)"
  note pd = post [unfolded loop_post_def]
  have k: "k \<le> length bs" and c1: "ramfs_core fs1" and w: "wrote ?p fs fs1" using pd by auto
  have nn: "n1 = n\<lparr>data_pages := data_pages n1\<rparr>"
    and grow: "\<And>i. i < 16 \<Longrightarrow> data_pages n ! i \<noteq> 0 \<Longrightarrow> data_pages n1 ! i \<noteq> 0"
    using wroteD [OF w p] n1 by (metis option.inject)+
  have ty: "nd_type n1 = nd_type n" by (subst nn) simp
  have live: "fd_live (heap fs) f"
    using fds_okD(2) [OF ramfs_invD(5) [OF inv], of "nat fd"] fd f by (auto simp: fd_ok_def)
  have nok: "node_ok (pages fs) n" by (rule core_node [OF ramfs_invD(1) [OF inv] p])
  have us: "unat (of_nat s :: u32) = s" and s64: "s \<le> 65536" using node_okD(2) [OF nok] le k by (auto simp: s)
  have upos: "unat (fd_pos f + of_nat k) = ?pos + k" using le k by (subst unat_u32_add_no_wrap) auto
  have below: "data_pages n1 ! i \<noteq> 0" if i: "i < 16" "i * 4096 < ?pos + k" for i
  proof (cases "i * 4096 < ?pos")
    case True
    then show ?thesis using live p grow [OF i(1)] i(1) by (auto simp: fd_live_def)
  next
    case False
    then show ?thesis using pd n1 i by (metis not_less nonzero_mult_div_cancel_right zero_neq_numeral)
  qed
  have backed: "data_pages n1 ! i \<noteq> 0" if i: "i < 16" "i * 4096 < s" for i
    using i below [OF i(1)] grow [OF i(1)] node_okD(4) [OF nok i(1)]
    by (auto simp: s max_def split: if_splits)
  have fds1: "file_descriptors fs1 = file_descriptors fs" using w by (simp add: wrote_def)
  define u where "u = upd_fd (nat fd) (\<lambda>f. f\<lparr>fd_pos := fd_pos f + of_nat k\<rparr>) fs1"
  have hu: "heap u = heap fs1" by (simp add: u_def upd_fd_def)
  have "fd_live (heap fs1) (f\<lparr>fd_pos := fd_pos f + of_nat k\<rparr>)"
    using live n1 ty p below le k by (auto simp: fd_live_def upos)
  then have "ramfs_core u"
    unfolding u_def by (intro core_upd_fd [OF c1]) (simp add: fds1 f)
  from core_set_size [OF this, of ?p n1 "of_nat s"] show ?thesis
    using n1 us s64 backed by (simp add: hu u_def [symmetric])
qed

lemma write_commit:
  assumes inv: "ramfs_inv fs" and fd: "fd_ok fs fd" and f: "f = file_descriptors fs ! nat fd"
    and p: "heap fs (fd_node f) = Some n" and le: "unat (fd_pos f) + length bs \<le> 65536"
    and post: "loop_post (fd_node f) (unat (fd_pos f)) bs fs k fs1"
    and n1: "heap fs1 (fd_node f) = Some n1"
    and s: "s = max (unat (nd_size n)) (unat (fd_pos f) + k)"
    and fs2: "fs2 = (upd_fd (nat fd) (\<lambda>f. f\<lparr>fd_pos := fd_pos f + of_nat k\<rparr>) fs1)
      \<lparr>heap := (heap fs1)(fd_node f \<mapsto> n1\<lparr>nd_size := of_nat s\<rparr>)\<rparr>"
  shows "ramfs_inv fs2 \<and>
    contents fs2 (fd_node f) = write_spec (unat (fd_pos f)) (take k bs) (contents fs (fd_node f)) \<and>
    (\<forall>q. q \<noteq> fd_node f \<longrightarrow> contents fs2 q = contents fs q)"
proof -
  let ?p = "fd_node f" and ?pos = "unat (fd_pos f)"
  note pd = post [unfolded loop_post_def]
  have core: "ramfs_core fs2" unfolding fs2 by (rule write_commit_core [OF assms(1-8)])
  have nok: "node_ok (pages fs) n" by (rule core_node [OF ramfs_invD(1) [OF inv] p])
  have us: "unat (of_nat s :: u32) = s" and s64: "s \<le> 65536" and k: "k \<le> length bs"
    using node_okD(2) [OF nok] le pd by (auto simp: s)
  have h2: "heap fs2 q = (if q = ?p then Some (n1\<lparr>nd_size := of_nat s\<rparr>) else heap fs q)" for q
    using pd by (simp add: fs2 wrote_def)
  have "fsbyte fs2 q x = fsbyte fs1 q x" for q x
    using n1 by (auto simp: fsbyte_def vbyte_def byte_at_def fs2 upd_fd_def split: option.splits)
  then have b2: "fsbyte fs2 q x = (if q = ?p \<and> ?pos \<le> x \<and> x < ?pos + k then bs ! (x - ?pos) else fsbyte fs q x)"
    if "x < 65536" for q x using that pd by simp
  have old0: "fsbyte fs q x = 0" if "heap fs q = Some m" "unat (nd_size m) \<le> x" "x < 65536" for q m x
    using ramfs_invD(6) [OF inv] that unfolding tails_fsbyte by blast
  have ge: "unat (nd_size n) \<le> s" "?pos + k \<le> s" by (simp_all add: s)
  have "tails_ok (heap fs2) (pages fs2)"
    unfolding tails_fsbyte using b2 old0 p ge by (auto simp: h2 us split: if_splits)
  moreover have "contents fs2 ?p = write_spec ?pos (take k bs) (contents fs ?p)"
  proof (rule nth_equalityI)
    show len: "length (contents fs2 ?p) = length (write_spec ?pos (take k bs) (contents fs ?p))"
      using k us by (simp add: length_write_spec contents_def h2 p) (simp add: s min_def)
    fix x assume "x < length (contents fs2 ?p)"
    then show "contents fs2 ?p ! x = write_spec ?pos (take k bs) (contents fs ?p) ! x"
      using b2 [of x] old0 [OF p, of x] k s64 len
      by (subst nth_write_spec) (auto simp: contents_fsbyte [OF p] contents_fsbyte [of fs2 ?p, OF h2 [of ?p, simplified]] us)
  qed
  moreover have "contents fs2 q = contents fs q" if q: "q \<noteq> ?p" for q
  proof (cases "heap fs q")
    case (Some m)
    have "unat (nd_size m) \<le> 65536" by (rule node_okD(2) [OF core_node [OF ramfs_invD(1) [OF inv] Some]])
    then show ?thesis using b2 q Some h2 [of q] by (simp add: contents_fsbyte [of _ _ m])
  qed (use q h2 [of q] in \<open>simp add: contents_def\<close>)
  ultimately show ?thesis using core by (simp add: ramfs_inv_def)
qed

section \<open>Reading, writing and truncating\<close>

lemma grow_size:
  assumes "unat needed = x" and "unat (nd_size n) = y"
  shows "(if needed > nd_size n then n\<lparr>nd_size := needed\<rparr> else n) = n\<lparr>nd_size := of_nat (max y x)\<rparr>"
proof (cases "y < x")
  case True
  then have "max y x = unat needed" using assms(1) by simp
  then have "of_nat (max y x) = needed" by simp
  moreover have "nd_size n < needed" using True assms by (simp add: word_less_nat_alt)
  ultimately show ?thesis by simp
next
  case False
  then have "max y x = unat (nd_size n)" using assms(2) by simp
  then have "of_nat (max y x) = nd_size n" by simp
  moreover have "\<not> nd_size n < needed" using False assms by (simp add: word_less_nat_alt)
  ultimately show ?thesis by simp
qed

lemma ramfs_write_effect:
  assumes inv: "ramfs_inv fs" and fd: "fd_ok fs fd" and f: "f = file_descriptors fs ! nat fd"
    and wr: "fd_flags f AND RAMFS_FLAG_WRITE \<noteq> 0" and pos: "unat (fd_pos f) < 65536"
    and m: "m = min (unat count) (65536 - unat (fd_pos f))"
  shows "\<exists>k fs'. ramfs_write fd buf count fs = Some (int k, fs') \<and> k \<le> length (take m buf) \<and>
    ramfs_inv fs' \<and> contents fs' (fd_node f) = write_spec (unat (fd_pos f)) (take k buf) (contents fs (fd_node f)) \<and>
    (\<forall>q. q \<noteq> fd_node f \<longrightarrow> contents fs' q = contents fs q) \<and>
    file_descriptors fs' = (file_descriptors fs)[nat fd := f\<lparr>fd_pos := fd_pos f + of_nat k\<rparr>] \<and>
    (k < length (take m buf) \<longrightarrow> fst (pmm_alloc (fs_pmm fs')) = 0)"
proof -
  let ?p = "fd_node f" and ?pos = "unat (fd_pos f)"
  obtain n where n: "heap fs ?p = Some n" "?p \<noteq> 0" using inv_fd [OF inv fd] f by metis
  have lt: "\<not> RAMFS_MAX_DATA \<le> fd_pos f" using pos by (simp add: word_le_nat_alt)
  define c where "c = (if count > RAMFS_MAX_DATA - fd_pos f then RAMFS_MAX_DATA - fd_pos f else count)"
  have "unat (RAMFS_MAX_DATA - fd_pos f) = 65536 - ?pos" using lt by (simp add: unat_sub_if' word_le_nat_alt)
  then have c: "unat c = m" by (auto simp: c_def m word_less_nat_alt)
  let ?bs = "take m buf"
  have le: "?pos + length ?bs \<le> 65536" using pos by (simp add: m)
  obtain k fs1 where r: "write_loop ?p (fd_pos f) 0 ?bs fs = Some (k, fs1)"
    and post: "loop_post ?p ?pos ?bs fs k fs1"
    using write_loop_ok [OF ramfs_invD(1) [OF inv] n(1), of "fd_pos f" 0 ?bs] le by (auto simp: wp_iff)
  have k: "k \<le> length ?bs" and w: "wrote ?p fs fs1" using post by (auto simp: loop_post_def)
  obtain n1 where n1: "heap fs1 ?p = Some n1" "n1 = n\<lparr>data_pages := data_pages n1\<rparr>"
    by (rule wroteD [OF w n(1)])
  have sz: "nd_size n1 = nd_size n" by (subst n1(2)) simp
  have upos: "unat (fd_pos f + of_nat k) = ?pos + k" using le k by (subst unat_u32_add_no_wrap) auto
  define s where "s = max (unat (nd_size n)) (?pos + k)"
  define fs2 where "fs2 = (upd_fd (nat fd) (\<lambda>f. f\<lparr>fd_pos := fd_pos f + of_nat k\<rparr>) fs1)
      \<lparr>heap := (heap fs1)(?p \<mapsto> n1\<lparr>nd_size := of_nat s\<rparr>)\<rparr>"
  have upd: "upd_node ?p (\<lambda>n. if fd_pos f + of_nat k > nd_size n then n\<lparr>nd_size := fd_pos f + of_nat k\<rparr> else n)
      (upd_fd (nat fd) (\<lambda>f. f\<lparr>fd_pos := fd_pos f + of_nat k\<rparr>) fs1) = Some fs2"
    using n1(1) grow_size [OF upos, of n1 "unat (nd_size n)"] sz
    by (simp add: upd_node_def upd_fd_def fs2_def s_def)
  have "ramfs_write fd buf count fs = Some (int k, fs2)"
    using fd wr n lt r c upd by (simp add: ramfs_write_def Let_def flip: f c_def)
  moreover have "file_descriptors fs2 = (file_descriptors fs)[nat fd := f\<lparr>fd_pos := fd_pos f + of_nat k\<rparr>]"
    using w f by (simp add: fs2_def upd_fd_def wrote_def)
  moreover have "k < length ?bs \<longrightarrow> fst (pmm_alloc (fs_pmm fs2)) = 0"
    using post by (simp add: loop_post_def fs2_def upd_fd_def)
  moreover have "take k ?bs = take k buf" using k by simp
  ultimately show ?thesis
    using write_commit [OF inv fd f n(1) le post n1(1) s_def fs2_def] k by metis
qed

lemma ramfs_write_safe:
  assumes inv: "ramfs_inv fs"
  shows "safe (ramfs_write fd buf count fs)"
proof -
  let ?f = "file_descriptors fs ! nat fd"
  consider (bad) "\<not> fd_ok fs fd" | (ro) "fd_flags ?f AND RAMFS_FLAG_WRITE = 0"
    | (full) "fd_ok fs fd" "fd_flags ?f AND RAMFS_FLAG_WRITE \<noteq> 0" "RAMFS_MAX_DATA \<le> fd_pos ?f"
    | (go) "fd_ok fs fd" "fd_flags ?f AND RAMFS_FLAG_WRITE \<noteq> 0" "unat (fd_pos ?f) < 65536"
    by (fastforce simp: word_le_nat_alt)
  then show ?thesis
  proof cases
    case go
    then show ?thesis using ramfs_write_effect [OF inv go(1) refl go(2,3) refl, of buf count] by (auto simp: wp_iff)
  qed (simp_all add: ramfs_write_def step_simps inv Let_def)
qed

lemma zero_pages_frame:
  assumes "\<And>x. x \<in> set pgs \<Longrightarrow> x \<noteq> 0 \<Longrightarrow> x \<in> dom (pages fs)"
  shows "zero_pages pgs fs = Some (fs\<lparr>pages :=
    (\<lambda>x. if x \<in> set pgs - {0} then Some (replicate 4096 0) else pages fs x)\<rparr>)"
  using assms
proof (induction pgs arbitrary: fs)
  case (Cons pg pgs)
  let ?fs = "fs\<lparr>pages := (pages fs)(pg \<mapsto> replicate 4096 0)\<rparr>"
  show ?case
  proof (cases "pg = 0")
    case True
    then show ?thesis using Cons by (auto simp: fun_eq_iff)
  next
    case False
    then obtain b where b: "pages fs pg = Some b" using Cons.prems by fastforce
    have "zero_pages pgs ?fs = Some (?fs\<lparr>pages :=
        (\<lambda>x. if x \<in> set pgs - {0} then Some (replicate 4096 0) else pages ?fs x)\<rparr>)"
      by (rule Cons.IH) (use Cons.prems in \<open>simp add: domIff\<close>)
    moreover have "(\<lambda>x. if x \<in> set pgs - {0} then Some (replicate 4096 0) else pages ?fs x) =
        (\<lambda>x. if x \<in> set (pg # pgs) - {0} then Some (replicate 4096 0) else pages fs x)"
      using False by auto
    ultimately show ?thesis using b False by simp
  qed
qed simp

lemma core_zero_pages:
  assumes c: "ramfs_core fs" and p: "heap fs p = Some n"
    and fs': "fs' = fs\<lparr>pages := (\<lambda>x. if x \<in> set (data_pages n) - {0} then Some (replicate 4096 0) else pages fs x)\<rparr>"
  shows "ramfs_core fs'" and "x < 65536 \<Longrightarrow> fsbyte fs' q x = (if q = p then 0 else fsbyte fs q x)"
proof -
  note cs = ramfs_coreD [OF c]
  have len: "length (data_pages n) = 16" by (rule node_okD(1) [OF core_node [OF c p]])
  have mem: "y \<in> dom (pages fs)" if "y \<in> set (data_pages n)" "y \<noteq> 0" for y
    using node_okD(3) [OF core_node [OF c p]] that len by (auto simp: in_set_conv_nth)
  have dom: "dom (pages fs') = dom (pages fs)"
    using mem by (auto simp: fs' dom_def split: if_splits)
  have "store_ok fs'" using cs(2) unfolding store_ok_def dom by (simp add: fs')
  moreover have "node_ok (pages fs') m" if "node_ok (pages fs) m" for m
    using that by (auto simp: node_ok_def fs')
  then have "data_ok (heap fs') (pages fs')" using cs(3) unfolding data_ok_def dom by (simp add: fs')
  ultimately show "ramfs_core fs'" using cs by (auto simp: ramfs_core_def fs')
  show "fsbyte fs' q x = (if q = p then 0 else fsbyte fs q x)" if x: "x < 65536"
  proof (cases "heap fs q")
    case (Some m)
    let ?y = "data_pages m ! (x div 4096)"
    have pg: "x div 4096 < 16" by (rule page_of_offset [OF x])
    have "?y \<in> set (data_pages n) - {0} \<longleftrightarrow> q = p \<and> ?y \<noteq> 0"
    proof
      assume "?y \<in> set (data_pages n) - {0}"
      then obtain j where "j < 16" "?y = data_pages n ! j" "?y \<noteq> 0" using len by (auto simp: in_set_conv_nth)
      then show "q = p \<and> ?y \<noteq> 0" using data_okD(2) [OF cs(3) Some p pg] by blast
    next
      assume "q = p \<and> ?y \<noteq> 0"
      then show "?y \<in> set (data_pages n) - {0}" using Some p pg len by auto
    qed
    then show ?thesis using Some by (auto simp: fsbyte_def vbyte_def byte_at_def fs')
  qed (use p in \<open>auto simp: fsbyte_def fs'\<close>)
qed

lemma ramfs_truncate_effect:
  assumes inv: "ramfs_inv fs" and fd: "fd_ok fs fd" and f: "f = file_descriptors fs ! nat fd"
    and wr: "fd_flags f AND RAMFS_FLAG_WRITE \<noteq> 0"
  shows "\<exists>fs'. ramfs_truncate fd fs = Some (0, fs') \<and> ramfs_inv fs' \<and> contents fs' (fd_node f) = [] \<and>
    (\<forall>q. q \<noteq> fd_node f \<longrightarrow> contents fs' q = contents fs q) \<and>
    file_descriptors fs' = (file_descriptors fs)[nat fd := f\<lparr>fd_pos := 0\<rparr>]"
proof -
  let ?p = "fd_node f"
  note c = ramfs_invD(1) [OF inv]
  obtain n where n: "heap fs ?p = Some n" "?p \<noteq> 0" "nd_type n = RAMFS_TYPE_FILE"
    and live: "fd_live (heap fs) f"
    using inv_fd [OF inv fd] f by metis
  define fs1 where "fs1 = fs\<lparr>pages := (\<lambda>x. if x \<in> set (data_pages n) - {0} then Some (replicate 4096 0) else pages fs x)\<rparr>"
  define fs2 where "fs2 = fs1\<lparr>heap := (heap fs1)(?p \<mapsto> n\<lparr>nd_size := 0\<rparr>)\<rparr>"
  define fs3 where "fs3 = upd_fd (nat fd) (\<lambda>f. f\<lparr>fd_pos := 0\<rparr>) fs2"
  have "zero_pages (data_pages n) fs = Some fs1"
    unfolding fs1_def
    by (rule zero_pages_frame) (use node_okD(1,3) [OF core_node [OF c n(1)]] in \<open>auto simp: in_set_conv_nth\<close>)
  moreover have "upd_node ?p (\<lambda>n. n\<lparr>nd_size := 0\<rparr>) fs1 = Some fs2"
    using n by (simp add: upd_node_def fs1_def fs2_def)
  ultimately have run: "ramfs_truncate fd fs = Some (0, fs3)"
    using fd wr n by (simp add: ramfs_truncate_def Let_def fs3_def flip: f)
  have c1: "ramfs_core fs1" and b1: "x < 65536 \<Longrightarrow> fsbyte fs1 q x = (if q = ?p then 0 else fsbyte fs q x)" for q x
    using core_zero_pages [OF c n(1) fs1_def] by blast+
  have "ramfs_core fs2"
    using core_set_size [OF c1, of ?p n 0] n by (simp add: fs2_def fs1_def)
  then have c3: "ramfs_core fs3"
    unfolding fs3_def using live f n
    by (intro core_upd_fd) (auto simp: fs2_def fs1_def fd_live_def)
  have h3: "heap fs3 q = (if q = ?p then Some (n\<lparr>nd_size := 0\<rparr>) else heap fs q)" for q
    by (simp add: fs3_def upd_fd_def fs2_def fs1_def)
  have b3: "fsbyte fs3 q x = (if q = ?p then 0 else fsbyte fs q x)" if "x < 65536" for q x
  proof -
    have "fsbyte fs3 q x = fsbyte fs1 q x"
      using n(1) by (auto simp: fsbyte_def vbyte_def byte_at_def fs3_def upd_fd_def fs2_def fs1_def
          split: option.splits)
    then show ?thesis using b1 [OF that] by simp
  qed
  have "tails_ok (heap fs3) (pages fs3)"
    using ramfs_invD(6) [OF inv] b3 unfolding tails_fsbyte by (auto simp: h3 split: if_splits)
  moreover have "contents fs3 q = contents fs q" if q: "q \<noteq> ?p" for q
  proof (cases "heap fs q")
    case (Some m)
    have "unat (nd_size m) \<le> 65536" by (rule node_okD(2) [OF core_node [OF c Some]])
    then show ?thesis using b3 q Some h3 [of q] by (simp add: contents_fsbyte [of _ _ m])
  qed (use q h3 [of q] in \<open>simp add: contents_def\<close>)
  moreover have "contents fs3 ?p = []" by (simp add: contents_def h3)
  moreover have "file_descriptors fs3 = (file_descriptors fs)[nat fd := f\<lparr>fd_pos := 0\<rparr>]"
    using f by (simp add: fs3_def upd_fd_def fs2_def fs1_def)
  ultimately show ?thesis using run c3 by (auto simp: ramfs_inv_def)
qed

lemma ramfs_truncate_safe:
  assumes inv: "ramfs_inv fs"
  shows "safe (ramfs_truncate fd fs)"
proof (cases "fd_ok fs fd \<and> fd_flags (file_descriptors fs ! nat fd) AND RAMFS_FLAG_WRITE \<noteq> 0")
  case True
  then show ?thesis using ramfs_truncate_effect [OF inv _ refl, of fd] by (auto simp: wp_iff)
qed (auto simp: ramfs_truncate_def step_simps inv Let_def)

end
