(* ===== verification/Ramfs_Tree.thy ===== *)
theory Ramfs_Tree
  imports Ramfs_File
begin

text \<open>
  What the directory operations do to path lookup: a created node is found under its
  path and no other path changes its meaning, a hidden node is treated as an absent one,
  and removal gives every frame of the node back to the allocator.
\<close>

section \<open>Creation and lookup\<close>

definition attrs :: "ramfs_node \<Rightarrow> string \<times> ramfs_type \<times> u16 \<times> u16 \<times> u16 \<times> u32" where
  \<comment> \<open>what a lookup reads of a node besides its child list\<close>
  "attrs n = (nd_name n, nd_type n, nd_mode n, nd_uid n, nd_gid n, nd_parent n)"

lemma permitted_attrs: "attrs n = attrs m \<Longrightarrow> permitted cur n a = permitted cur m a"
  by (cases cur) (simp_all add: attrs_def permitted_def ramfs_check_permission_def split_def)

lemma may_search_attrs: "attrs n = attrs m \<Longrightarrow> may_search cur n = may_search cur m"
  unfolding may_search_def by (rule permitted_attrs)

lemma hidden_from_caller_attrs:
  assumes "attrs n = attrs m" and "map_option attrs (heap fs (nd_parent n)) = map_option attrs (heap fs' (nd_parent n))"
  shows "hidden_from_caller cur fs n = hidden_from_caller cur fs' m"
proof -
  have par: "nd_parent m = nd_parent n" "nd_uid m = nd_uid n" using assms(1) by (auto simp: attrs_def)
  note eq = permitted_attrs [OF assms(1), of cur]
  show ?thesis
  proof (cases "heap fs (nd_parent n)")
    case None
    then have "heap fs' (nd_parent n) = None" using assms(2) by simp
    with None show ?thesis by (simp add: hidden_from_caller_def Let_def par)
  next
    case (Some a)
    then obtain b where b: "heap fs' (nd_parent n) = Some b" "attrs a = attrs b"
      using assms(2) by (cases "heap fs' (nd_parent n)") auto
    show ?thesis
      by (simp add: hidden_from_caller_def Let_def par Some b(1) eq permitted_attrs [OF b(2), of cur])
  qed
qed

text \<open>
  The situation before and after a node \<open>p\<close> called \<open>nm\<close> hangs in the directory \<open>par\<close>:
  \<open>K\<close> and \<open>K'\<close> are the two child maps. Creation reads it forwards, removal backwards.
\<close>

definition hung ::
  "(u32 \<Rightarrow> u32 list) \<Rightarrow> (u32 \<Rightarrow> u32 list) \<Rightarrow> u32 \<Rightarrow> u32 \<Rightarrow> string \<Rightarrow> ramfs \<Rightarrow> ramfs \<Rightarrow> bool" where
  "hung K K' par p nm fs fs' \<longleftrightarrow>
     p \<notin> dom (heap fs) \<and> p \<noteq> 0 \<and> name_of (heap fs') p = nm \<and> nm \<notin> name_of (heap fs) ` set (K par) \<and>
     K' p = [] \<and> (\<forall>d. d \<noteq> par \<longrightarrow> d \<noteq> p \<longrightarrow> K' d = K d) \<and> set (K' par) = insert p (set (K par)) \<and>
     (\<forall>d \<in> dom (heap fs). map_option attrs (heap fs' d) = map_option attrs (heap fs d)) \<and>
     fs_root fs' = fs_root fs"

lemma hungD:
  assumes "hung K K' par p nm fs fs'" and "heap fs d = Some n"
  obtains n' where "heap fs' d = Some n'" and "attrs n' = attrs n" and "d \<noteq> p"
proof -
  have "d \<in> dom (heap fs)" using assms(2) by blast
  then have "map_option attrs (heap fs' d) = map_option attrs (heap fs d)"
    using assms(1) unfolding hung_def by blast
  then have "map_option attrs (heap fs' d) = Some (attrs n)" using assms(2) by simp
  moreover have "d \<noteq> p" using assms by (auto simp: hung_def)
  ultimately show ?thesis using that by (cases "heap fs' d") auto
qed

lemma hung_name_of:
  assumes "hung K K' par p nm fs fs'" and "heap fs d = Some n"
  shows "name_of (heap fs') d = name_of (heap fs) d"
  by (rule hungD [OF assms]) (use assms(2) in \<open>auto simp: name_of_def attrs_def\<close>)

lemma hung_hidden:
  assumes t: "tree_ok K D r (heap fs)" and h: "hung K K' par p nm fs fs'" and d: "heap fs d = Some n"
  shows "hidden_node cur fs' d = hidden_node cur fs d"
proof -
  obtain n' where n': "heap fs' d = Some n'" "attrs n' = attrs n" by (rule hungD [OF h d])
  have "hidden_from_caller cur fs' n' = hidden_from_caller cur fs n"
  proof (cases "nd_parent n = 0")
    case True
    then show ?thesis using n' by (auto simp: hidden_from_caller_def attrs_def Let_def)
  next
    case False
    then have "d \<noteq> r" using t d by (auto simp: tree_ok_def)
    then have "nd_parent n \<in> dom (heap fs)" using tree_okD(5) [OF t d] by (simp add: entry_ok_def)
    then have "map_option attrs (heap fs' (nd_parent n')) = map_option attrs (heap fs (nd_parent n'))"
      using h n' by (auto simp: hung_def attrs_def)
    with n'(2) show ?thesis by (rule hidden_from_caller_attrs)
  qed
  then show ?thesis using n' d by (simp add: hidden_node_def)
qed

lemma pick_iff:
  assumes "distinct (map (name_of h) xs)" and "0 \<notin> set xs" and "q \<noteq> 0"
  shows "pick h c xs = q \<longleftrightarrow> q \<in> set xs \<and> name_of h q = c"
  using pick_in [of h c xs] pick_eq [OF assms(1)] assms(3) by auto

lemma hung_pick:
  assumes t: "tree_ok K D r (heap fs)" and h: "hung K K' par p nm fs fs'" and d: "heap fs d = Some n"
    and t': "tree_ok K' D' r (heap fs')"
  shows "pick (heap fs') c (K' d) = (if d = par \<and> c = nm then p else pick (heap fs) c (K d))"
proof -
  obtain n' where n': "heap fs' d = Some n'" and dp: "d \<noteq> p" by (rule hungD [OF h d])
  note ok = tree_okD(4) [OF t d] and ok' = tree_okD(4) [OF t' n']
  have sets: "set (K' d) = (if d = par then insert p (set (K d)) else set (K d))"
    using h dp by (auto simp: hung_def)
  have names: "x \<in> set (K d) \<Longrightarrow> name_of (heap fs') x = name_of (heap fs) x \<and> x \<noteq> p" for x
    using kids_live [OF t d] hung_name_of [OF h] hungD [OF h] by metis
  have p0: "p \<noteq> 0" "name_of (heap fs') p = nm" "d = par \<Longrightarrow> nm \<notin> name_of (heap fs) ` set (K d)"
    using h by (auto simp: hung_def)
  note iff' = pick_iff [OF dir_okD(4,7) [OF ok'], of _ c] and iff = pick_iff [OF dir_okD(4,7) [OF ok], of _ c]
  show ?thesis
  proof (cases "d = par \<and> c = nm")
    case True
    then show ?thesis using iff' [of p] p0 sets by simp
  next
    case False
    have "pick (heap fs') c (K' d) = q \<longleftrightarrow> pick (heap fs) c (K d) = q" if "q \<noteq> 0" for q
      unfolding iff [OF that] iff' [OF that] using sets names [of q] p0 False by auto
    then show ?thesis using False by (metis (full_types))
  qed
qed

lemma hung_lookup_comps:
  assumes t: "tree_ok K D r (heap fs)" and h: "hung K K' par p nm fs fs'"
    and t': "tree_ok K' D' r (heap fs')" and "d \<in> dom (heap fs)"
  shows "lookup_comps cur hide fs' cs d = lookup_comps cur hide fs cs d \<or>
    lookup_comps cur hide fs cs d = Some 0 \<and> lookup_comps cur hide fs' cs d = Some p"
  using assms(4)
proof (induction cs arbitrary: d)
  case (Cons c cs)
  then obtain n where n: "heap fs d = Some n" by auto
  obtain n' where n': "heap fs' d = Some n'" "attrs n' = attrs n" "d \<noteq> p" by (rule hungD [OF h n])
  have ty: "nd_type n' = nd_type n" "may_search cur n' = may_search cur n"
    using n'(2) may_search_attrs [OF n'(2), of cur] by (simp_all add: attrs_def)
  let ?ch = "pick (heap fs) c (K d)"
  show ?case
  proof (cases "d = par \<and> c = nm")
    case True
    have z: "0 \<notin> set (K d)" by (rule dir_okD(7) [OF tree_okD(4) [OF t n]])
    have "?ch = 0" using h True z by (simp add: pick_0 hung_def)
    moreover have "lookup_comps cur hide fs' cs p = Some p \<or> lookup_comps cur hide fs' cs p = Some 0"
    proof (cases cs)
      case (Cons a list)
      have "p \<in> set (K' d)" using True h by (simp add: hung_def)
      then obtain m where m: "heap fs' p = Some m" by (rule kids_live [OF t' n'(1)])
      have "K' p = []" using h by (simp add: hung_def)
      then show ?thesis using lookup_comps_step [OF t' m, of cur hide a list] Cons by (simp add: Let_def)
    qed simp
    moreover have "pick (heap fs') c (K' d) = p"
      using hung_pick [OF t h n t', of c] True by simp
    ultimately show ?thesis
      unfolding lookup_comps_step [OF t n] lookup_comps_step [OF t' n'(1)] ty Let_def
      by (simp split del: if_split) (simp split: if_split; blast)
  next
    case False
    have same: "?ch \<noteq> 0 \<Longrightarrow> \<exists>cn. heap fs ?ch = Some cn" using pick_tree [OF t n] by metis
    have "pick (heap fs') c (K' d) = ?ch"
      using hung_pick [OF t h n t', of c] False by simp
    moreover have "hidden_node cur fs' ?ch = hidden_node cur fs ?ch" if "?ch \<noteq> 0"
      using same [OF that] hung_hidden [OF t h] by blast
    moreover have "lookup_comps cur hide fs' cs ?ch = lookup_comps cur hide fs cs ?ch \<or>
        lookup_comps cur hide fs cs ?ch = Some 0 \<and> lookup_comps cur hide fs' cs ?ch = Some p" if "?ch \<noteq> 0"
      using same [OF that] Cons.IH [of ?ch] by blast
    ultimately show ?thesis
      unfolding lookup_comps_step [OF t n] lookup_comps_step [OF t' n'(1)] ty Let_def by presburger
  qed
qed simp

lemma walk_loop_step:
  assumes t: "tree_ok K D r (heap fs)" and n: "heap fs d = Some n"
    and w: "walk_loop cur fs (c # cs) d = Some (Inr par)"
  obtains cn where "may_search cur n" and "pick (heap fs) c (K d) \<noteq> 0"
    and "heap fs (pick (heap fs) c (K d)) = Some cn" and "\<not> hidden_node cur fs (pick (heap fs) c (K d))"
    and "nd_type cn = RAMFS_TYPE_DIR" and "walk_loop cur fs cs (pick (heap fs) c (K d)) = Some (Inr par)"
proof -
  let ?ch = "pick (heap fs) c (K d)"
  have ms: "may_search cur n" and ch: "?ch \<noteq> 0"
    using w n find_sibling_tree [OF t n, of c] by (auto split: if_splits)
  then obtain cn where cn: "heap fs ?ch = Some cn" using pick_tree [OF t n] by metis
  obtain b where "hidden_from_caller cur fs cn = Some b" using hidden_defined [OF t cn] by blast
  then have "\<not> hidden_node cur fs ?ch \<and> nd_type cn = RAMFS_TYPE_DIR \<and>
      walk_loop cur fs cs ?ch = Some (Inr par)"
    using w n find_sibling_tree [OF t n, of c] ms ch cn
    by (auto simp: hidden_node_def split: if_splits)
  then show ?thesis using that ms ch cn by blast
qed

lemma hung_walk:
  assumes t: "tree_ok K D r (heap fs)" and h: "hung K K' par p nm fs fs'"
    and t': "tree_ok K' D' r (heap fs')"
    and vis: "\<not> hidden_node cur fs' p"
    and "heap fs d = Some n" and "nd_type n = RAMFS_TYPE_DIR" and "walk_loop cur fs cs d = Some (Inr par)"
  shows "lookup_comps cur True fs' (cs @ [nm]) d = Some p"
  using assms(5-7)
proof (induction cs arbitrary: d n)
  case Nil
  obtain n' where n': "heap fs' d = Some n'" "attrs n' = attrs n" by (rule hungD [OF h Nil(1)])
  have "may_search cur n \<and> d = par" using Nil by (auto split: if_splits)
  moreover have "nd_type n' = nd_type n" using n' by (simp add: attrs_def)
  moreover have "p \<noteq> 0" using h by (simp add: hung_def)
  ultimately show ?case
    using lookup_comps_step [OF t' n'(1), of cur True nm "[]"] hung_pick [OF t h Nil(1) t', of nm]
      may_search_attrs [OF n'(2), of cur] vis Nil(2) by (simp add: Let_def del: lookup_comps.simps(2))
next
  case (Cons c cs)
  let ?ch = "pick (heap fs) c (K d)"
  obtain n' where n': "heap fs' d = Some n'" "attrs n' = attrs n" by (rule hungD [OF h Cons.prems(1)])
  have ty: "nd_type n' = nd_type n" using n' by (simp add: attrs_def)
  obtain cn where w: "may_search cur n" "?ch \<noteq> 0" "heap fs ?ch = Some cn" "\<not> hidden_node cur fs ?ch"
    "nd_type cn = RAMFS_TYPE_DIR" "walk_loop cur fs cs ?ch = Some (Inr par)"
    by (rule walk_loop_step [OF t Cons.prems(1,3)])
  have "d = par \<Longrightarrow> c \<noteq> nm"
  proof
    assume "d = par" "c = nm"
    then have "?ch = 0" using h dir_okD(7) [OF tree_okD(4) [OF t Cons.prems(1)]] by (simp add: pick_0 hung_def)
    then show False using w by simp
  qed
  then have pk: "pick (heap fs') c (K' d) = ?ch"
    using hung_pick [OF t h Cons.prems(1) t', of c] by auto
  have "lookup_comps cur True fs' (cs @ [nm]) ?ch = Some p" by (rule Cons.IH [OF w(3,5,6)])
  then show ?case
    using lookup_comps_step [OF t' n'(1), of cur True c "cs @ [nm]"] pk ty w(1,2,4) Cons.prems(2)
      hung_hidden [OF t h w(3), of cur] may_search_attrs [OF n'(2), of cur]
    by (simp add: Let_def del: lookup_comps.simps)
qed

lemma created_lookup:
  assumes inv: "ramfs_inv fs" and sp: "split_path path = Some comps" "comps \<noteq> []"
    and w: "walk_to_parent cur fs comps = Some (Inr par)"
    and any: "ramfs_find_any_locked cur fs path = Some 0"
    and cred: "ramfs_get_current_credentials cur = (uid, gid)"
    and a: "alloc_node (last comps) ty uid gid fs = (p, fs1)" and p: "p \<noteq> 0"
    and l: "link_child par p fs1 = Some fs'"
  shows "ramfs_inv fs' \<and> p \<notin> dom (heap fs) \<and> ramfs_find_locked cur fs' path = Some p \<and>
    map_option attrs (heap fs' p) =
      Some (last comps, ty, if ty = RAMFS_TYPE_DIR then RAMFS_DEFAULT_DIR_MODE else RAMFS_DEFAULT_FILE_MODE,
        uid, gid, par) \<and>
    (\<forall>cur' path' hide. ramfs_lookup_locked cur' fs' path' hide = ramfs_lookup_locked cur' fs path' hide \<or>
       ramfs_lookup_locked cur' fs path' hide = Some 0 \<and> ramfs_lookup_locked cur' fs' path' hide = Some p)"
proof -
  obtain K D where t: "tree_ok K D (fs_root fs) (heap fs)" using ramfs_invD(2) [OF inv] by blast
  obtain pn where pn: "heap fs par = Some pn" "nd_type pn = RAMFS_TYPE_DIR"
    using walk_safe [OF t, of cur comps] w by auto
  have nm: "good_name (last comps)" using split_path_good [OF sp(1)] sp(2) by simp
  have free: "pick (heap fs) (last comps) (K par) = 0" using walk_any [OF t sp w any] by simp
  obtain rn where rn: "heap fs (fs_root fs) = Some rn" "nd_type rn = RAMFS_TYPE_DIR" "fs_root fs \<noteq> 0"
    by (rule tree_ok_root [OF t])
  let ?nn = "(new_node (last comps) ty uid gid)\<lparr>nd_parent := par, nd_next := nd_children pn\<rparr>"
  have r: "ramfs_inv fs'" "heap fs' = (heap fs)(p \<mapsto> ?nn, par \<mapsto> pn\<lparr>nd_children := p, child_count := child_count pn + 1\<rparr>)"
    "fs_root fs' = fs_root fs" "p \<notin> dom (heap fs)"
    and t': "tree_ok (K(par := p # K par, p := [])) (D(p := Suc (D par))) (fs_root fs) (heap fs')"
    using create_safe [OF inv t pn nm free a p] l by auto
  have ne: "p \<noteq> par" using r(4) pn by auto
  have hp: "heap fs' p = Some ?nn" using r(2) ne by simp
  have nn: "nd_name ?nn = last comps" using nm by (simp add: new_node_def good_name_def)
  have "0 \<notin> set (K par)" by (rule dir_okD(7) [OF tree_okD(4) [OF t pn(1)]])
  then have h: "hung K (K(par := p # K par, p := [])) par p (last comps) fs fs'"
    using r(2,3,4) p free pn nn hp ne unfolding hung_def by (auto simp: pick_0 name_of_def attrs_def)
  have vis: "\<not> hidden_node cur fs' p"
    using hp cred by (simp add: hidden_node_def hidden_from_caller_def new_node_def)
  have "lookup_comps cur True fs' (butlast comps @ [last comps]) (fs_root fs) = Some p"
    using hung_walk [OF t h t' vis rn(1,2)] w by (simp add: walk_to_parent_def)
  then have "lookup_comps cur True fs' comps (fs_root fs) = Some p"
    by (simp only: append_butlast_last_id [OF sp(2)])
  moreover have "path \<noteq> ''/''" using sp by (auto simp: split_path_def)
  ultimately have found: "ramfs_find_locked cur fs' path = Some p"
    using sp rn r(3) by (simp add: ramfs_find_locked_def ramfs_lookup_locked_def)
  have others: "ramfs_lookup_locked cur' fs' path' hide = ramfs_lookup_locked cur' fs path' hide \<or>
      ramfs_lookup_locked cur' fs path' hide = Some 0 \<and> ramfs_lookup_locked cur' fs' path' hide = Some p"
    for cur' path' hide
    using hung_lookup_comps [OF t h t', of "fs_root fs" cur' hide] rn r(3)
    by (auto simp: ramfs_lookup_locked_def split: option.splits)
  show ?thesis
    using r(1,4) found others hp nn by (auto simp: attrs_def new_node_def)
qed

section \<open>Removal and lookup\<close>

lemma pruned_attrs:
  assumes "pruned K par p h g" and "g c = Some m"
  obtains m' where "h c = Some m'" and "attrs m' = attrs m"
  using assms unfolding pruned_def attrs_def by fastforce

lemma removed_lookup:
  assumes inv: "ramfs_inv fs" and p: "heap fs p = Some n" "p \<noteq> fs_root fs"
    and leaf: "nd_type n \<noteq> RAMFS_TYPE_DIR \<or> nd_children n = 0"
    and idle: "\<not> ramfs_node_is_busy hook fs p"
    and un: "unlink_child (nd_parent n) p fs = Some (Inr fs')" and fr: "free_node p fs' = Some fs''"
  shows "ramfs_inv fs'' \<and> dom (heap fs'') = dom (heap fs) - {p} \<and>
    dom (pages fs'') = dom (pages fs) - set (data_pages n) \<and>
    avail_pages (fs_pmm fs'') = avail_pages (fs_pmm fs) \<union> insert p (set (data_pages n) - {0}) \<and>
    (\<forall>cur path hide. ramfs_lookup_locked cur fs'' path hide =
       (if ramfs_lookup_locked cur fs path hide = Some p then Some 0 else ramfs_lookup_locked cur fs path hide))"
proof -
  obtain K D where t: "tree_ok K D (fs_root fs) (heap fs)" using ramfs_invD(2) [OF inv] by blast
  obtain xs ys where r: "ramfs_inv fs''" "dom (pages fs'') = dom (pages fs) - set (data_pages n)"
    "avail_pages (fs_pmm fs'') = avail_pages (fs_pmm fs) \<union> insert p (set (data_pages n) - {0})"
    "fs_root fs'' = fs_root fs" "K p = []" "K (nd_parent n) = xs @ p # ys"
    and pr: "pruned K (nd_parent n) p (heap fs) (heap fs'')"
    and t': "tree_ok (K(nd_parent n := xs @ ys)) D (fs_root fs) (heap fs'')"
    using remove_safe [OF inv p leaf idle t] un fr by fastforce
  have dom: "dom (heap fs'') = dom (heap fs) - {p}" using pr by (simp add: pruned_def)
  obtain pn where pn: "heap fs (nd_parent n) = Some pn" "nd_parent n \<noteq> p"
    using entry_parent [OF t p] by metis
  have p0: "p \<noteq> 0" using tree_okD(1) [OF t] p by auto
  have "distinct (map (name_of (heap fs)) (K (nd_parent n)))"
    by (rule dir_okD(4) [OF tree_okD(4) [OF t pn(1)]])
  then have fresh: "name_of (heap fs) p \<notin> name_of (heap fs) ` set (xs @ ys)" using r(6) by auto
  have at: "map_option attrs (heap fs d) = map_option attrs (heap fs'' d)" if "d \<in> dom (heap fs'')" for d
    using that pruned_attrs [OF pr] by fastforce
  have kids: "c \<in> dom (heap fs'')" if "c \<in> set (xs @ ys)" for c
  proof -
    have "nd_parent n \<in> dom (heap fs'')" unfolding dom using pn by blast
    then obtain pn' where "heap fs'' (nd_parent n) = Some pn'" by blast
    then show ?thesis using kids_live [OF t', of "nd_parent n" pn' c] that by auto
  qed
  have "name_of (heap fs'') c = name_of (heap fs) c" if "c \<in> dom (heap fs'')" for c
    using at [OF that] that p by (auto simp: name_of_def attrs_def split: option.splits)
  then have img: "name_of (heap fs'') ` set (xs @ ys) = name_of (heap fs) ` set (xs @ ys)"
    using kids by (intro image_cong) auto
  have h: "hung (K(nd_parent n := xs @ ys)) K (nd_parent n) p (name_of (heap fs) p) fs'' fs"
    using dom p0 fresh img r(4-6) at unfolding hung_def by auto
  have rd: "fs_root fs \<in> dom (heap fs'')" unfolding dom using p(2) tree_ok_root [OF t] by blast
  have "lookup_comps cur hide fs'' cs (fs_root fs) =
      (if lookup_comps cur hide fs cs (fs_root fs) = Some p then Some 0 else lookup_comps cur hide fs cs (fs_root fs))"
    for cur hide cs
  proof -
    obtain q where "lookup_comps cur hide fs'' cs (fs_root fs) = Some q" "q = 0 \<or> q \<in> dom (heap fs'')"
      using lookup_comps_safe [OF t' rd] by blast
    then have "lookup_comps cur hide fs'' cs (fs_root fs) \<noteq> Some p" using dom p0 by auto
    then show ?thesis using hung_lookup_comps [OF t' h t rd, of cur hide cs] by auto
  qed
  then have "ramfs_lookup_locked cur fs'' path hide =
      (if ramfs_lookup_locked cur fs path hide = Some p then Some 0 else ramfs_lookup_locked cur fs path hide)"
    for cur path hide
    using p(2) p0 r(4) by (simp add: ramfs_lookup_locked_def split: option.splits)
  then show ?thesis using r(1-3) dom by blast
qed

section \<open>Hidden names\<close>

lemma hidden_lookup:
  assumes t: "tree_ok K D r (heap fs)" and "heap fs d = Some n" and "cs \<noteq> []"
    and "lookup_comps cur False fs cs d = Some q" and h: "hidden_node cur fs q"
  shows "lookup_comps cur True fs cs d = Some 0"
  using assms(2-4)
proof (induction cs arbitrary: d n)
  case (Cons c cs)
  let ?ch = "pick (heap fs) c (K d)"
  note st = lookup_comps_step [OF t Cons.prems(1), of cur _ c cs, unfolded Let_def]
  have q0: "q \<noteq> 0" using h tree_okD(1) [OF t] by (auto simp: hidden_node_def)
  then have ok: "nd_type n = RAMFS_TYPE_DIR" "may_search cur n" "?ch \<noteq> 0" "lookup_comps cur False fs cs ?ch = Some q"
    using Cons.prems(3) unfolding st by (auto split: if_splits)
  obtain cn where cn: "heap fs ?ch = Some cn" using pick_tree [OF t Cons.prems(1) ok(3)] by metis
  show ?case
  proof (cases "cs = []")
    case True
    then have "?ch = q" using ok(4) by simp
    then show ?thesis using h unfolding st by simp
  next
    case False
    then show ?thesis using Cons.IH [OF cn False ok(4)] unfolding st by simp
  qed
qed simp

lemma hidden_find:
  assumes inv: "ramfs_inv fs" and any: "ramfs_find_any_locked cur fs path = Some q"
    and h: "hidden_node cur fs q"
  shows "ramfs_find_locked cur fs path = Some 0"
proof -
  obtain K D where t: "tree_ok K D (fs_root fs) (heap fs)" using ramfs_invD(2) [OF inv] by blast
  obtain rn where rn: "heap fs (fs_root fs) = Some rn" "nd_type rn = RAMFS_TYPE_DIR" "nd_parent rn = 0" "fs_root fs \<noteq> 0"
    by (rule tree_ok_root [OF t])
  have "\<not> hidden_node cur fs (fs_root fs)" using rn by (simp add: hidden_node_def hidden_from_caller_def)
  then have qr: "q \<noteq> fs_root fs" using h by auto
  have q0: "q \<noteq> 0" using h tree_okD(1) [OF t] by (auto simp: hidden_node_def)
  obtain comps where c: "split_path path = Some comps" "lookup_comps cur False fs comps (fs_root fs) = Some q"
    "path \<noteq> ''/''"
    using any qr q0 rn(4)
    by (auto simp: ramfs_find_any_locked_def ramfs_lookup_locked_def split: if_splits option.splits)
  then have "comps \<noteq> []" using qr by auto
  then show ?thesis
    using hidden_lookup [OF t rn(1) _ c(2) h] c rn(4)
    by (simp add: ramfs_find_locked_def ramfs_lookup_locked_def)
qed

lemma absent_lookup:
  assumes t: "tree_ok K D r (heap fs)" and "heap fs d = Some n" and "lookup_comps cur False fs cs d = Some 0"
  shows "lookup_comps cur True fs cs d = Some 0"
  using assms(2,3)
proof (induction cs arbitrary: d n)
  case (Cons c cs)
  let ?ch = "pick (heap fs) c (K d)"
  note st = lookup_comps_step [OF t Cons.prems(1), of cur _ c cs, unfolded Let_def]
  show ?case
  proof (cases "nd_type n \<noteq> RAMFS_TYPE_DIR \<or> \<not> may_search cur n \<or> ?ch = 0")
    case False
    then obtain cn where "heap fs ?ch = Some cn" using pick_tree [OF t Cons.prems(1)] by metis
    then show ?thesis using Cons.IH Cons.prems(2) False unfolding st by simp
  qed (simp only: st, simp)
qed simp

lemma absent_find:
  assumes inv: "ramfs_inv fs" and any: "ramfs_find_any_locked cur fs path = Some 0"
  shows "ramfs_find_locked cur fs path = Some 0"
proof -
  obtain K D where t: "tree_ok K D (fs_root fs) (heap fs)" using ramfs_invD(2) [OF inv] by blast
  obtain rn where rn: "heap fs (fs_root fs) = Some rn" "fs_root fs \<noteq> 0" by (rule tree_ok_root [OF t])
  show ?thesis
    using any absent_lookup [OF t rn(1)] rn(2)
    by (auto simp: ramfs_find_any_locked_def ramfs_find_locked_def ramfs_lookup_locked_def split: if_splits option.splits)
qed

lemma hidden_place:
  \<comment> \<open>where a hidden node hangs\<close>
  assumes inv: "ramfs_inv fs" and any: "ramfs_find_any_locked cur fs path = Some q" and h: "hidden_node cur fs q"
  obtains n pn ds x where "heap fs q = Some n" and "heap fs (nd_parent n) = Some pn" and "split_path path = Some (ds @ [x])"
    and "q \<noteq> 0" and "\<And>par. walk_to_parent cur fs (ds @ [x]) = Some (Inr par) \<Longrightarrow> par = nd_parent n"
proof -
  obtain K D where t: "tree_ok K D (fs_root fs) (heap fs)" using ramfs_invD(2) [OF inv] by blast
  obtain rn where rn: "heap fs (fs_root fs) = Some rn" "nd_parent rn = 0" "fs_root fs \<noteq> 0" by (rule tree_ok_root [OF t])
  obtain n where n: "heap fs q = Some n" "hidden_from_caller cur fs n = Some True"
    using h by (auto simp: hidden_node_def split: Option.bind_splits)
  obtain pn where pn: "heap fs (nd_parent n) = Some pn" using n(2)
    by (auto simp: hidden_from_caller_def Let_def split: if_splits Option.bind_splits)
  have qr: "q \<noteq> fs_root fs" using n rn by (auto simp: hidden_from_caller_def)
  have q0: "q \<noteq> 0" using n(1) tree_okD(1) [OF t] by auto
  obtain comps where c: "split_path path = Some comps" "lookup_comps cur False fs comps (fs_root fs) = Some q"
    using any qr q0 rn(3) by (auto simp: ramfs_find_any_locked_def ramfs_lookup_locked_def split: if_splits option.splits)
  then have ne: "comps \<noteq> []" using qr by auto
  then obtain ds x where ds: "comps = ds @ [x]" by (metis append_butlast_last_id)
  have "par = nd_parent n" if w: "walk_to_parent cur fs (ds @ [x]) = Some (Inr par)" for par
  proof -
    have q: "q = pick (heap fs) x (K par)" using walk_any [OF t c(1) ne _ any] w ds by simp
    obtain pm where "heap fs par = Some pm" using inv_walk [OF inv, of cur "ds @ [x]"] w by fastforce
    then obtain cn where "heap fs q = Some cn" "nd_parent cn = par" using pick_tree [OF t, of par pm x] q q0 by blast
    then show ?thesis using n(1) by simp
  qed
  then show ?thesis using that n(1) pn c(1) ds q0 by blast
qed

lemma blind_create:
  \<comment> \<open>two names of one directory that lookup does not find, the caller may not write to the directory\<close>
  assumes inv: "ramfs_inv fs" and f: "ramfs_find_locked cur fs path = Some 0" "ramfs_find_locked cur fs path' = Some 0"
    and sp: "split_path path = Some (ds @ [x])" "split_path path' = Some (ds @ [y])"
    and deny: "\<And>par pn. walk_to_parent cur fs (ds @ [x]) = Some (Inr par) \<Longrightarrow> heap fs par = Some pn \<Longrightarrow> \<not> permitted cur pn RAMFS_FLAG_WRITE"
  shows "ramfs_mkdir cur path fs = ramfs_mkdir cur path' fs" and "ramfs_open cur path flags fs = ramfs_open cur path' flags fs"
    and "ramfs_rename cur old path fs = ramfs_rename cur old path' fs"
proof -
  have w: "walk_to_parent cur fs (ds @ [y]) = walk_to_parent cur fs (ds @ [x])" by (simp add: walk_to_parent_def)
  obtain r where r: "walk_to_parent cur fs (ds @ [x]) = Some r" "\<And>par. r = Inr par \<Longrightarrow> \<exists>pn. heap fs par = Some pn"
    using inv_walk [OF inv, of cur "ds @ [x]"] by blast
  have d: "\<not> permitted cur pn RAMFS_FLAG_WRITE" if "r = Inr par" "heap fs par = Some pn" for par pn using deny r(1) that by blast
  show "ramfs_mkdir cur path fs = ramfs_mkdir cur path' fs"
    using f sp w r d by (cases r) (auto simp: ramfs_mkdir_def)
  have "open_create cur path fs = open_create cur path' fs"
    using f sp w r d by (cases r) (auto simp: open_create_def)
  then show "ramfs_open cur path flags fs = ramfs_open cur path' flags fs" using f by (simp add: ramfs_open_def ramfs_find_def Let_def)
  show "ramfs_rename cur old path fs = ramfs_rename cur old path' fs"
    using f sp w r d by (cases r) (auto simp: ramfs_rename_def intro!: Option.bind_cong)
qed

lemma ramfs_inv_root:
  assumes "ramfs_inv fs"
  shows "fs_root fs \<noteq> 0"
  using ramfs_invD(2) [OF assms] by (auto elim: tree_ok_root)

lemma hidden_create:
  assumes "ramfs_inv fs" and "ramfs_find_any_locked cur fs path = Some q" and "hidden_node cur fs q"
  shows "\<exists>n pn ds x. heap fs q = Some n \<and> heap fs (nd_parent n) = Some pn \<and> split_path path = Some (ds @ [x]) \<and>
      (\<not> permitted cur pn RAMFS_FLAG_WRITE \<longrightarrow>
        (\<forall>other y. split_path other = Some (ds @ [y]) \<longrightarrow> ramfs_find_any_locked cur fs other = Some 0 \<longrightarrow>
          ramfs_mkdir cur path fs = ramfs_mkdir cur other fs \<and>
          (\<forall>flags. ramfs_open cur path flags fs = ramfs_open cur other flags fs) \<and>
          (\<forall>old. ramfs_rename cur old path fs = ramfs_rename cur old other fs))) \<and>
      (\<forall>par. permitted cur pn RAMFS_FLAG_WRITE \<longrightarrow> walk_to_parent cur fs (ds @ [x]) = Some (Inr par) \<longrightarrow>
        ramfs_mkdir cur path fs = Some (-2, fs))"
proof -
  have f: "ramfs_find_locked cur fs path = Some 0" by (rule hidden_find [OF assms])
  obtain n pn ds x where h: "heap fs q = Some n" "heap fs (nd_parent n) = Some pn" "split_path path = Some (ds @ [x])" "q \<noteq> 0"
    and par: "\<And>par. walk_to_parent cur fs (ds @ [x]) = Some (Inr par) \<Longrightarrow> par = nd_parent n"
    using hidden_place [OF assms] by metis
  have deny: "\<not> permitted cur pm RAMFS_FLAG_WRITE"
    if "\<not> permitted cur pn RAMFS_FLAG_WRITE" "walk_to_parent cur fs (ds @ [x]) = Some (Inr d)" "heap fs d = Some pm" for d pm
    using h(2) par [OF that(2)] that(1,3) by simp
  have "ramfs_mkdir cur path fs = ramfs_mkdir cur other fs \<and>
      (\<forall>flags. ramfs_open cur path flags fs = ramfs_open cur other flags fs) \<and>
      (\<forall>old. ramfs_rename cur old path fs = ramfs_rename cur old other fs)"
    if "\<not> permitted cur pn RAMFS_FLAG_WRITE" "split_path other = Some (ds @ [y])" "ramfs_find_any_locked cur fs other = Some 0" for other y
    by (intro conjI allI blind_create [OF assms(1) f absent_find [OF assms(1) that(3)] h(3) that(2)] deny [OF that(1)])
  moreover have "ramfs_mkdir cur path fs = Some (-2, fs)"
    if "permitted cur pn RAMFS_FLAG_WRITE" "walk_to_parent cur fs (ds @ [x]) = Some (Inr d)" for d
    using that par [OF that(2)] f h assms(2) ramfs_inv_root [OF assms(1)] by (simp add: ramfs_mkdir_def)
  ultimately show ?thesis using h(1-3) by blast
qed

end
