(* ===== verification/Ramfs_Ops.thy ===== *)
theory Ramfs_Ops
  imports Ramfs_Tree
begin

text \<open>
  The operations as a whole: \<^verbatim>\<open>ramfs_init\<close> establishes the invariant, a history of
  operations as a list of steps, the access matrix, the effect of a read, the case
  analysis of the operations that return an error code, and a small file system on which
  the properties are instantiated.
\<close>

section \<open>Mounting\<close>

definition unmounted :: "ramfs \<Rightarrow> bool" where
  \<comment> \<open>the static state before \<open>ramfs_init\<close>: nothing allocated, all counters zero\<close>
  "unmounted fs \<longleftrightarrow>
     heap fs = Map.empty \<and> pages fs = Map.empty \<and> total_nodes fs = 0 \<and>
     length (file_descriptors fs) = RAMFS_MAX_FDS \<and> pmm_inv (fs_pmm fs)"

lemma ramfs_init_inv:
  assumes u: "unmounted fs" and ok: "fst (pmm_alloc (fs_pmm fs)) \<noteq> 0"
  shows "ramfs_inv (ramfs_init fs)"
proof -
  have st: "store_ok fs" using u by (simp add: unmounted_def store_ok_def)
  obtain p fs1 where a: "alloc_node ''/'' RAMFS_TYPE_DIR 0 0 fs = (p, fs1)" by fastforce
  have p: "p \<noteq> 0" using a ok u by (auto simp: alloc_node_def unmounted_def split: prod.splits if_splits)
  obtain pm where fs1: "fs1 = fs\<lparr>heap := (heap fs)(p \<mapsto> new_node ''/'' RAMFS_TYPE_DIR 0 0),
      total_nodes := total_nodes fs + 1, fs_pmm := pm\<rparr>" and st1: "store_ok fs1"
    using alloc_node_takes [OF st a p] by metis
  define rn where "rn = (new_node ''/'' RAMFS_TYPE_DIR 0 0)\<lparr>nd_mode := 457\<rparr>"
  define fds where "fds = map (\<lambda>f. f\<lparr>in_use := False, fd_node := 0, fd_pos := 0, fd_flags := 0\<rparr>)
    (file_descriptors fs)"
  have i: "ramfs_init fs = fs1\<lparr>fs_root := p, heap := [p \<mapsto> rn], file_descriptors := fds\<rparr>"
    using a p u by (simp add: ramfs_init_def fs1 rn_def fds_def unmounted_def)
  have "tree_ok (\<lambda>_. []) (\<lambda>_. 0) p [p \<mapsto> rn]"
    using p by (auto simp: tree_ok_def dir_ok_def rn_def new_node_def)
  moreover have "dom [p \<mapsto> rn] = dom (heap fs1)" using u by (simp add: fs1 unmounted_def)
  then have "store_ok (ramfs_init fs)" using st1 by (simp add: store_ok_def i)
  moreover have "data_ok [p \<mapsto> rn] (pages fs)"
    using u by (auto simp: data_ok_def unmounted_def node_ok_def rn_def new_node_def)
  moreover have "tails_ok [p \<mapsto> rn] (pages fs)"
    by (auto simp: tails_ok_def tail_ok_def rn_def new_node_def)
  moreover have "fds_ok [p \<mapsto> rn] fds"
    using u by (auto simp: fds_ok_def fds_def unmounted_def)
  ultimately show ?thesis by (auto simp: ramfs_inv_def ramfs_core_def i fs1)
qed

section \<open>Histories\<close>

datatype fs_op =
    Mkdir string
  | Open string u8
  | Read int u32
  | Write int "u8 list" u32
  | Truncate int
  | Seek int u32
  | Fd_ref int
  | Close int
  | Unlink string
  | Rmdir string
  | Rename string string
  | Chmod string u16
  | Mkstemps "u8 list" u32
  | Listing string nat
  | Fd_size int

fun fs_exec :: "task option \<Rightarrow> (u32 \<Rightarrow> bool) option \<Rightarrow> fs_op \<Rightarrow> ramfs \<Rightarrow> ramfs option" where
  "fs_exec cur hook (Mkdir path) fs = map_option snd (ramfs_mkdir cur path fs)"
| "fs_exec cur hook (Open path flags) fs = map_option snd (ramfs_open cur path flags fs)"
| "fs_exec cur hook (Read fd count) fs = map_option (snd \<circ> snd) (ramfs_read fd count fs)"
| "fs_exec cur hook (Write fd buf count) fs = map_option snd (ramfs_write fd buf count fs)"
| "fs_exec cur hook (Truncate fd) fs = map_option snd (ramfs_truncate fd fs)"
| "fs_exec cur hook (Seek fd off) fs = map_option snd (ramfs_seek fd off fs)"
| "fs_exec cur hook (Fd_ref fd) fs = Some (snd (ramfs_fd_ref fd fs))"
| "fs_exec cur hook (Close fd) fs = Some (ramfs_close fd fs)"
| "fs_exec cur hook (Unlink path) fs = map_option snd (ramfs_unlink cur hook path fs)"
| "fs_exec cur hook (Rmdir path) fs = map_option snd (ramfs_rmdir cur hook path fs)"
| "fs_exec cur hook (Rename a b) fs = map_option snd (ramfs_rename cur a b fs)"
| "fs_exec cur hook (Chmod path mode) fs = map_option snd (ramfs_chmod cur path mode fs)"
| "fs_exec cur hook (Mkstemps bytes sz) fs = map_option (snd \<circ> snd) (ramfs_mkstemps cur bytes sz fs)"
| "fs_exec cur hook (Listing path limit) fs = map_option (\<lambda>_. fs) (ramfs_list cur path limit fs)"
| "fs_exec cur hook (Fd_size fd) fs = map_option (\<lambda>_. fs) (ramfs_fd_size fd fs)"

type_synonym fs_step = "task option \<times> (u32 \<Rightarrow> bool) option \<times> fs_op"

fun fs_run :: "fs_step list \<Rightarrow> ramfs \<Rightarrow> ramfs option" where
  "fs_run [] fs = Some fs"
| "fs_run ((cur, hook, x) # xs) fs = Option.bind (fs_exec cur hook x fs) (fs_run xs)"

lemmas fs_op_safe = ramfs_mkdir_safe ramfs_open_safe ramfs_read_safe ramfs_write_safe
  ramfs_truncate_safe ramfs_seek_safe ramfs_fd_ref_safe ramfs_close_safe ramfs_unlink_safe
  ramfs_rmdir_safe ramfs_rename_safe ramfs_chmod_safe ramfs_mkstemps_safe

lemma fs_exec_safe:
  assumes inv: "ramfs_inv fs"
  shows "wp (fs_exec cur hook x fs) ramfs_inv"
proof (cases x)
  case (Listing path limit)
  then show ?thesis using ramfs_list_safe [OF inv, of cur path limit] inv by (auto simp: wp_iff)
next
  case (Fd_size fd)
  then show ?thesis using ramfs_fd_size_safe [OF inv, of fd] inv by (auto simp: wp_iff)
qed (use inv in \<open>simp_all add: step_simps fs_op_safe [unfolded split_def]\<close>)

lemma fs_run_safe: "ramfs_inv fs \<Longrightarrow> wp (fs_run xs fs) ramfs_inv"
proof (induction xs fs rule: fs_run.induct)
  case (2 cur hook x xs fs)
  obtain fs' where "fs_exec cur hook x fs = Some fs'" "ramfs_inv fs'"
    using fs_exec_safe [OF "2.prems", of cur hook x] by (auto simp: wp_iff)
  with "2.IH" show ?case by (simp add: step_simps)
qed (simp add: step_simps)

section \<open>Permissions\<close>

lemma and_exp_eq_exp: "(m :: u16) AND 2 ^ k = 2 ^ k \<longleftrightarrow> bit m k" if "k < 16"
proof
  assume "m AND 2 ^ k = 2 ^ k"
  then have "bit (m AND 2 ^ k) k" using that by (simp add: bit_simps)
  then show "bit m k" by (simp add: bit_and_iff)
next
  assume "bit m k"
  then show "m AND 2 ^ k = 2 ^ k" by (intro bit_eqI) (auto simp: bit_simps)
qed

lemma and_or_absorb: "(m :: u16) AND (a OR b) = a OR b \<longleftrightarrow> m AND a = a \<and> m AND b = b"
  by (auto simp: bit_eq_iff bit_simps)

lemma flag_bit: "(a :: u8) AND 1 \<noteq> 0 \<longleftrightarrow> bit a 0" "a AND 2 \<noteq> 0 \<longleftrightarrow> bit a 1" "a AND 16 \<noteq> 0 \<longleftrightarrow> bit a 4"
  using and_exp_eq_0_iff_not_bit [of a 0] and_exp_eq_0_iff_not_bit [of a 1]
    and_exp_eq_0_iff_not_bit [of a 4] by simp_all

lemma required_perms_bits:
  assumes "k < 14"
  shows "m AND required_perms access (2 ^ (k + 2)) (2 ^ (k + 1)) (2 ^ k) =
      required_perms access (2 ^ (k + 2)) (2 ^ (k + 1)) (2 ^ k) \<longleftrightarrow>
    (bit access 0 \<longrightarrow> bit m (k + 2)) \<and> (bit access 1 \<longrightarrow> bit m (k + 1)) \<and> (bit access 4 \<longrightarrow> bit m k)"
  unfolding required_perms_def and_or_absorb flag_bit
  using assms by (auto simp: and_exp_eq_exp simp del: power_Suc One_nat_def)

lemma flags_rwx: "(a :: u8) AND (1 OR 2 OR 16) = 0 \<longleftrightarrow> \<not> bit a 0 \<and> \<not> bit a 1 \<and> \<not> bit a 4"
proof -
  have "a AND (1 OR 2 OR 16) = (a AND 1) OR (a AND 2) OR (a AND 16)"
    by (simp only: and.assoc bit.conj_disj_distrib)
  then have "a AND (1 OR 2 OR 16) = 0 \<longleftrightarrow> a AND 1 = 0 \<and> a AND 2 = 0 \<and> a AND 16 = 0"
    by (simp only: or_eq_0_iff)
  then show ?thesis using flag_bit [of a] by blast
qed

definition perm_class :: "task option \<Rightarrow> ramfs_node \<Rightarrow> u16 \<Rightarrow> u16 \<Rightarrow> nat" where
  \<comment> \<open>where the class's three bits start: owner 6, group 3, other 0\<close>
  "perm_class cur n uid gid =
     (if uid = nd_uid n then 6
      else if gid = nd_gid n \<or> (\<exists>t. cur = Some t \<and> nd_gid n \<in> set (t_groups t)) then 3 else 0)"

lemma check_permission_matrix:
  "ramfs_check_permission cur n uid gid access \<longleftrightarrow>
     uid = 0 \<or>
     (bit access 0 \<or> bit access 1 \<or> bit access 4) \<and>
     (bit access 0 \<longrightarrow> bit (nd_mode n) (perm_class cur n uid gid + 2)) \<and>
     (bit access 1 \<longrightarrow> bit (nd_mode n) (perm_class cur n uid gid + 1)) \<and>
     (bit access 4 \<longrightarrow> bit (nd_mode n) (perm_class cur n uid gid))"
proof -
  note class_bits = required_perms_bits [of 6 "nd_mode n" access] required_perms_bits [of 3 "nd_mode n" access]
    required_perms_bits [of 0 "nd_mode n" access]
  show ?thesis
    unfolding ramfs_check_permission_def Let_def flags_rwx
    using class_bits [simplified] by (auto simp: perm_class_def split: option.splits)
qed

section \<open>Reading\<close>

lemma ramfs_read_effect:
  assumes inv: "ramfs_inv fs" and fd: "fd_ok fs fd" and f: "f = file_descriptors fs ! nat fd"
    and rd: "fd_flags f AND RAMFS_FLAG_READ \<noteq> 0"
    and bs: "bs = take (unat count) (drop (unat (fd_pos f)) (contents fs (fd_node f)))"
  shows "ramfs_read fd count fs = Some
    (if length (contents fs (fd_node f)) \<le> unat (fd_pos f) then (0, [], fs)
     else if count = 0 then (-5, [], fs)
     else (int (length bs), bs, upd_fd (nat fd) (\<lambda>f. f\<lparr>fd_pos := fd_pos f + of_nat (length bs)\<rparr>) fs))"
proof -
  let ?pos = "fd_pos f"
  obtain n where n: "heap fs (fd_node f) = Some n" "node_ok (pages fs) n" "fd_node f \<noteq> 0"
    using inv_fd [OF inv fd] f by metis
  have len: "length (contents fs (fd_node f)) = unat (nd_size n)" using n by (simp add: contents_def)
  show ?thesis
  proof (cases "unat (nd_size n) \<le> unat ?pos")
    case True
    then have "nd_size n \<le> ?pos" by (simp add: word_le_nat_alt)
    then show ?thesis using True len fd rd n by (simp add: ramfs_read_def Let_def flip: f)
  next
    case False
    let ?k = "if count < nd_size n - ?pos then count else nd_size n - ?pos"
    have lt: "\<not> nd_size n \<le> ?pos" using False by (simp add: word_le_nat_alt)
    have uk: "unat ?k = min (unat count) (unat (nd_size n) - unat ?pos)"
      using False by (auto simp: word_less_nat_alt unat_sub_if')
    have k: "unat ?pos + unat ?k \<le> unat (nd_size n)" using uk False by simp
    have byte: "byte_at (pages fs) n x = vbyte (pages fs) n x" if "x < unat (nd_size n)" for x
      using node_okD(4) [OF n(2), of "x div 4096"] node_okD(2) [OF n(2)] that page_of_offset [of x]
        div_times_less_eq_dividend [of x 4096]
      by (auto simp: vbyte_def)
    have "map (byte_at (pages fs) n) [unat ?pos..<unat ?pos + unat ?k] =
        map (vbyte (pages fs) n) [unat ?pos..<unat ?pos + unat ?k]"
      using byte k by (intro map_cong) auto
    also have "\<dots> = bs"
      using n(1) uk False unfolding bs contents_def
      by (simp add: take_map drop_map drop_upt take_upt min_def)
    finally have "read_loop fs n ?pos 0 (unat ?k) = Some bs"
      using read_loop_bytes [OF n(2), of ?pos 0 "unat ?k"] k by simp
    moreover have "bs = [] \<longleftrightarrow> count = 0"
      using False len unfolding bs by (simp add: unat_eq_zero)
    ultimately show ?thesis
      using False len fd rd n lt by (simp add: ramfs_read_def Let_def flip: f)
  qed
qed

section \<open>Failures change nothing\<close>

lemma pmm_inv_of: "ramfs_inv fs \<Longrightarrow> pmm_inv (fs_pmm fs)"
  using ramfs_invD(3) by (simp add: store_ok_def)

lemma ramfs_mkdir_cases:
  assumes inv: "ramfs_inv fs" and r: "ramfs_mkdir cur path fs = Some (e, fs')"
  shows "e \<noteq> 0 \<and> fs' = fs \<or>
    e = 0 \<and> (\<exists>comps par p fs1 uid gid. split_path path = Some comps \<and> comps \<noteq> [] \<and>
      walk_to_parent cur fs comps = Some (Inr par) \<and> ramfs_find_any_locked cur fs path = Some 0 \<and>
      ramfs_get_current_credentials cur = (uid, gid) \<and>
      alloc_node (last comps) RAMFS_TYPE_DIR uid gid fs = (p, fs1) \<and> p \<noteq> 0 \<and> link_child par p fs1 = Some fs')"
proof -
  obtain ex where ex: "ramfs_find_locked cur fs path = Some ex" using inv_find [OF inv] by blast
  obtain any where any: "ramfs_find_any_locked cur fs path = Some any"
    by (rule inv_lookup [OF inv, of cur path False]) (simp add: ramfs_find_any_locked_def)
  show ?thesis
  proof (cases "split_path path")
    case None
    then show ?thesis using r ex by (auto simp: ramfs_mkdir_def split: if_splits)
  next
    case (Some comps)
    obtain w where w: "walk_to_parent cur fs comps = Some w" using inv_walk [OF inv] by metis
    obtain uid gid where cred: "ramfs_get_current_credentials cur = (uid, gid)" by fastforce
    obtain p fs1 where a: "alloc_node (last comps) RAMFS_TYPE_DIR uid gid fs = (p, fs1)" by fastforce
    have "p = 0 \<Longrightarrow> fs1 = fs" using alloc_node_fails [OF pmm_inv_of [OF inv]] a by blast
    then show ?thesis
      using r ex any Some w cred a
      by (cases w) (auto simp: ramfs_mkdir_def bind_eq_Some_conv split: if_splits)
  qed
qed

lemma ramfs_unlink_wlp:
  "wlp (ramfs_unlink cur hook path fs) (\<lambda>(e, fs').
    e \<noteq> 0 \<and> fs' = fs \<or>
    e = 0 \<and> (\<exists>p n fs1. ramfs_find_locked cur fs path = Some p \<and> heap fs p = Some n \<and> p \<noteq> fs_root fs \<and>
      nd_type n = RAMFS_TYPE_FILE \<and> \<not> ramfs_node_is_busy hook fs p \<and>
      unlink_child (nd_parent n) p fs = Some (Inr fs1) \<and> free_node p fs1 = Some fs'))"
  by (simp add: ramfs_unlink_def wlp_rules)

lemma ramfs_rmdir_wlp:
  "wlp (ramfs_rmdir cur hook path fs) (\<lambda>(e, fs').
    e \<noteq> 0 \<and> fs' = fs \<or>
    e = 0 \<and> (\<exists>p n fs1. ramfs_find_locked cur fs path = Some p \<and> heap fs p = Some n \<and> p \<noteq> fs_root fs \<and>
      nd_type n = RAMFS_TYPE_DIR \<and> nd_children n = 0 \<and> \<not> ramfs_node_is_busy hook fs p \<and>
      unlink_child (nd_parent n) p fs = Some (Inr fs1) \<and> free_node p fs1 = Some fs'))"
  by (simp add: ramfs_rmdir_def wlp_rules)

lemma ramfs_rename_wlp:
  "wlp (ramfs_rename cur a b fs) (\<lambda>(e, fs').
    e \<noteq> 0 \<and> fs' = fs \<or>
    e = 0 \<and> (\<exists>p n comps. ramfs_find_locked cur fs a = Some p \<and> heap fs p = Some n \<and> p \<noteq> fs_root fs \<and>
      split_path b = Some comps \<and> comps \<noteq> [] \<and> walk_to_parent cur fs comps = Some (Inr (nd_parent n)) \<and>
      ramfs_find_any_locked cur fs b = Some 0 \<and>
      fs' = fs\<lparr>heap := (heap fs)(p \<mapsto> n\<lparr>nd_name := last comps\<rparr>)\<rparr>))"
  by (auto simp: ramfs_rename_def wlp_rules upd_node_def)

lemma ramfs_chmod_wlp:
  "wlp (ramfs_chmod cur path mode fs) (\<lambda>(e, fs').
    e \<noteq> 0 \<and> fs' = fs \<or>
    e = 0 \<and> (\<exists>p n. ramfs_find cur fs path = Some p \<and> heap fs p = Some n \<and>
      (fst (ramfs_get_current_credentials cur) = 0 \<or> fst (ramfs_get_current_credentials cur) = nd_uid n) \<and>
      fs' = fs\<lparr>heap := (heap fs)(p \<mapsto> n\<lparr>nd_mode := mode AND RAMFS_PERM_MASK\<rparr>)\<rparr>))"
  by (auto simp: ramfs_chmod_def wlp_rules upd_node_def Let_def)

section \<open>Reading back what was written\<close>

lemma write_read_back:
  assumes "ramfs_inv fs" and "fd_ok fs fd" and "f = file_descriptors fs ! nat fd"
    and "fd_flags f AND RAMFS_FLAG_WRITE \<noteq> 0" and "fd_flags f AND RAMFS_FLAG_READ \<noteq> 0"
    and "unat (fd_pos f) < 65536" and "ramfs_write fd buf count fs = Some (int k, fs1)" and "0 < k"
  shows "\<exists>fs2 fs3. ramfs_seek fd (fd_pos f) fs1 = Some (int (unat (fd_pos f)), fs2) \<and>
    ramfs_read fd (of_nat k) fs2 = Some (int k, take k buf, fs3)"
proof -
  let ?p = "fd_node f" and ?pos = "unat (fd_pos f)"
  obtain m where m: "m = min (unat count) (65536 - ?pos)" by simp
  have w: "ramfs_inv fs1" "k \<le> length (take m buf)"
    "contents fs1 ?p = write_spec ?pos (take k buf) (contents fs ?p)"
    "file_descriptors fs1 = (file_descriptors fs)[nat fd := f\<lparr>fd_pos := fd_pos f + of_nat k\<rparr>]"
    using ramfs_write_effect [OF assms(1-4,6) m, of buf] assms(7) by auto
  have fd: "nat fd < 16" "0 \<le> fd" "fd < 16" "in_use f" using assms(2,3) by (auto simp: fd_ok_def)
  have len: "length (file_descriptors fs) = 16" by (rule fds_okD(1) [OF ramfs_invD(5) [OF assms(1)]])
  have f1: "file_descriptors fs1 ! nat fd = f\<lparr>fd_pos := fd_pos f + of_nat k\<rparr>" using w(4) fd len by simp
  have ok1: "fd_ok fs1 fd" using fd f1 by (simp add: fd_ok_def)
  obtain n where n: "heap fs1 ?p = Some n" "?p \<noteq> 0" using inv_fd [OF w(1) ok1] f1 by auto
  have sz: "unat (nd_size n) = length (contents fs1 ?p)" using n by (simp add: contents_def)
  have long: "?pos + k \<le> length (contents fs1 ?p)" using w(2,3) by (simp add: length_write_spec)
  define fs2 where "fs2 = upd_fd (nat fd) (\<lambda>g. g\<lparr>fd_pos := fd_pos f\<rparr>) fs1"
  have nle: "\<not> fd_pos f > nd_size n" using sz long by (simp add: word_less_nat_alt)
  have "sint (fd_pos f) = int ?pos" using assms(6) by (intro sint_u32_small) simp
  then have seek: "ramfs_seek fd (fd_pos f) fs1 = Some (int ?pos, fs2)"
    using ok1 n nle f1 assms(3) by (simp add: ramfs_seek_def Let_def fs2_def)
  have inv2: "ramfs_inv fs2"
    using ramfs_seek_safe [OF w(1), of fd "fd_pos f"] seek by (simp add: step_simps)
  have len1: "length (file_descriptors fs1) = 16" by (rule fds_okD(1) [OF ramfs_invD(5) [OF w(1)]])
  have f2: "file_descriptors fs2 ! nat fd = f" using f1 assms(3) fd len1 by (simp add: fs2_def upd_fd_def)
  have ok2: "fd_ok fs2 fd" using fd f2 by (simp add: fd_ok_def)
  have c2: "contents fs2 ?p = contents fs1 ?p" by (simp add: contents_def fs2_def upd_fd_def split: option.split)
  have "k \<le> 65536" using w(2) m by auto
  then have k: "unat (of_nat k :: u32) = k" by (intro unat_u32_of_nat) linarith
  have "take k (drop ?pos (contents fs1 ?p)) = take k buf"
    using w(2) by (simp add: w(3) write_spec_def)
  then show ?thesis
    using ramfs_read_effect [OF inv2 ok2 f2 [symmetric] assms(5) refl, of "of_nat k"] seek long c2 k assms(8) w(2)
    by auto
qed

section \<open>A small file system\<close>

text \<open>Three free frames: the root, one file \<^verbatim>\<open>/a\<close> opened for reading and writing, one data page.\<close>

definition blank_fd :: ramfs_fd where
  "blank_fd = \<lparr>fd_node = 0, fd_pos = 0, fd_flags = 0, in_use = False, close_on_exec = False,
     refs = 0, owner_pid = 0, owner_generation = 0, owner_uid = 0\<rparr>"

definition demo0 :: ramfs where
  "demo0 = \<lparr>heap = Map.empty, pages = Map.empty, fs_root = 0,
     file_descriptors = replicate 16 blank_fd, total_nodes = 0, fs_pmm = pmm_three\<rparr>"

definition demo_root :: ramfs_node where
  "demo_root = (new_node ''/'' RAMFS_TYPE_DIR 0 0)\<lparr>nd_mode := 457\<rparr>"

definition demo1 :: ramfs where
  "demo1 = \<lparr>heap = [0x100000 \<mapsto> demo_root], pages = Map.empty, fs_root = 0x100000,
     file_descriptors = replicate 16 blank_fd, total_nodes = 1, fs_pmm = claim_frame 256 pmm_three\<rparr>"

definition demo_a :: ramfs_node where
  "demo_a = (new_node ''a'' RAMFS_TYPE_FILE 0 0)\<lparr>nd_parent := 0x100000\<rparr>"

definition demo2 :: ramfs where
  "demo2 = \<lparr>heap = [0x100000 \<mapsto> demo_root\<lparr>nd_children := 0x101000, child_count := 1\<rparr>, 0x101000 \<mapsto> demo_a],
     pages = Map.empty, fs_root = 0x100000,
     file_descriptors = (replicate 16 blank_fd)[0 := blank_fd\<lparr>fd_node := 0x101000, fd_flags := 3,
       in_use := True, refs := 1, close_on_exec := True\<rparr>],
     total_nodes = 2, fs_pmm = claim_frame 257 (claim_frame 256 pmm_three)\<rparr>"

lemma unmounted_demo0: "unmounted demo0"
  by (simp add: unmounted_def demo0_def pmm_inv_pmm_three)

lemma demo0_alloc: "fst (pmm_alloc (fs_pmm demo0)) \<noteq> 0"
  by (simp add: demo0_def pmm_alloc_pmm_three)

lemma ramfs_init_demo: "ramfs_init demo0 = demo1"
  by (simp add: ramfs_init_def alloc_node_def demo0_def demo1_def demo_root_def pmm_alloc_pmm_three blank_fd_def)

lemma ramfs_inv_demo1: "ramfs_inv demo1"
  using ramfs_init_inv [OF unmounted_demo0 demo0_alloc] by (simp add: ramfs_init_demo)

lemma free_set_demo: "free_set (claim_frame 256 pmm_three) = {257, 258}"
  using free_set_claim [of pmm_three 256] pmm_inv_pmm_three
  by (auto simp: free_set_pmm_three pmm_inv_def)

lemma first_free_demo: "first_free (free_set (claim_frame 256 pmm_three)) 256 PMM_MAX_FRAMES = Some 257"
  unfolding first_free_def free_set_demo
  by (subst find_upt_skip [of 256 257], simp, simp, subst find_upt_Cons) simp_all

lemma demo_alloc: "pmm_alloc (claim_frame 256 pmm_three) = (0x101000, claim_frame 257 (claim_frame 256 pmm_three))"
  using first_free_demo by (simp add: pmm_alloc_first_free frame_addr_def)

lemma demo1_sel:
  "heap demo1 = [0x100000 \<mapsto> demo_root]" "fs_root demo1 = 0x100000" "total_nodes demo1 = 1"
  "fs_pmm demo1 = claim_frame 256 pmm_three" "file_descriptors demo1 = replicate 16 blank_fd"
  by (simp_all add: demo1_def)

lemma permitted_boot: "permitted None n access"
  by (simp add: permitted_def ramfs_get_current_credentials_def ramfs_check_permission_def)

lemma ramfs_find_demo: "ramfs_lookup_locked None demo1 ''/a'' hide = Some 0"
  by (simp add: ramfs_lookup_locked_def split_path_def push_comp_def demo1_sel demo_root_def
      new_node_def may_search_def permitted_boot find_child.simps)

lemma ramfs_open_demo: "ramfs_open None ''/a'' 3 demo1 = Some (0, demo2)"
proof -
  have pick: "ramfs_pick_fd None fs = 0" if "file_descriptors fs = replicate 16 blank_fd" for fs
    using that by (simp add: ramfs_pick_fd_def blank_fd_def upt_rec)
  have walk: "walk_to_parent None demo1 [''a''] = Some (Inr 0x100000)"
    by (simp add: walk_to_parent_def demo1_sel may_search_def permitted_boot)
  have room: "\<not> (64 :: u32) \<le> 1" by (simp add: word_le_nat_alt)
  have sp: "split_path ''/a'' = Some [''a'']" by (simp add: split_path_def push_comp_def)
  have "open_create None ''/a'' demo1 = Some (Inr 0x101000, demo2\<lparr>file_descriptors := replicate 16 blank_fd\<rparr>)"
    by (simp add: open_create_def ramfs_find_locked_def ramfs_find_any_locked_def ramfs_find_demo sp walk
        demo1_sel permitted_boot ramfs_get_current_credentials_def alloc_node_def demo_alloc link_child_def upd_node_def room)
      (simp add: demo1_def demo_root_def new_node_def demo2_def demo_a_def fun_upd_twist)
  moreover have "heap demo2 0x101000 = Some demo_a" and "nd_type demo_a = RAMFS_TYPE_FILE"
    by (simp_all add: demo2_def demo_a_def new_node_def)
  ultimately show ?thesis
    by (simp add: ramfs_open_def ramfs_find_def ramfs_find_locked_def ramfs_find_demo open_node_def pick
        demo1_sel permitted_boot)
      (simp add: demo2_def upd_fd_def blank_fd_def)
qed

lemma ramfs_inv_demo2: "ramfs_inv demo2"
  using ramfs_open_safe [OF ramfs_inv_demo1, of None "''/a''" 3] by (simp add: ramfs_open_demo step_simps)

lemma demo2_sel:
  "heap demo2 = [0x100000 \<mapsto> demo_root\<lparr>nd_children := 0x101000, child_count := 1\<rparr>, 0x101000 \<mapsto> demo_a]"
  "file_descriptors demo2 ! 0 = blank_fd\<lparr>fd_node := 0x101000, fd_flags := 3,
       in_use := True, refs := 1, close_on_exec := True\<rparr>"
  "fs_root demo2 = 0x100000"
  by (simp_all add: demo2_def)

section \<open>Names in a directory\<close>

lemma inv_names_unique:
  assumes inv: "ramfs_inv fs" and "heap fs p = Some n" and "heap fs q = Some m"
    and "p \<noteq> fs_root fs" and "q \<noteq> fs_root fs"
    and "nd_parent n = nd_parent m" and "nd_name n = nd_name m"
  shows "p = q"
proof -
  obtain K D where t: "tree_ok K D (fs_root fs) (heap fs)" using ramfs_invD(2) [OF inv] by blast
  obtain pn where pn: "heap fs (nd_parent n) = Some pn" and p: "p \<in> set (K (nd_parent n))"
    using entry_parent [OF t assms(2,4)] by metis
  have q: "q \<in> set (K (nd_parent n))" using entry_parent [OF t assms(3,5)] assms(6) by metis
  have "inj_on (name_of (heap fs)) (set (K (nd_parent n)))"
    using dir_okD(4) [OF tree_okD(4) [OF t pn]] by (simp add: distinct_map)
  then show ?thesis using p q assms(2,3,7) by (auto simp: inj_on_def name_of_def)
qed

section \<open>More of the small file system\<close>

lemma demo_alloc2:
  "pmm_alloc (claim_frame 257 (claim_frame 256 pmm_three)) =
     (0x102000, claim_frame 258 (claim_frame 257 (claim_frame 256 pmm_three)))"
proof -
  have len: "length (bitmap (claim_frame 256 pmm_three)) = 8192"
    using pmm_inv_pmm_three by (simp add: pmm_inv_def)
  have free: "free_set (claim_frame 257 (claim_frame 256 pmm_three)) = {258}"
    using free_set_claim [OF len, of 257] free_set_demo by auto
  have "first_free {258} 256 PMM_MAX_FRAMES = Some 258"
    unfolding first_free_def by (subst find_upt_skip [of 256 258], simp, simp, subst find_upt_Cons) simp_all
  then show ?thesis by (simp add: pmm_alloc_first_free free frame_addr_def)
qed

lemma ramfs_write_demo: "\<exists>fs1. ramfs_write 0 [7] 1 demo2 = Some (1, fs1)"
proof -
  have le: "\<not> (65536 :: u32) \<le> 0" "\<not> (65536 :: u32) < 1" by (simp_all add: word_le_nat_alt word_less_nat_alt)
  have pm: "fs_pmm demo2 = claim_frame 257 (claim_frame 256 pmm_three)" by (simp add: demo2_def)
  have "wp (write_page 0x101000 0 demo2) (\<lambda>(ok, fs). ok)"
    by (simp add: write_page_def demo2_sel demo_a_def new_node_def pm demo_alloc2 upd_node_def step_simps)
  then obtain fs where w: "write_page 0x101000 0 demo2 = Some (True, fs)" by (auto simp: wp_iff)
  obtain n where n: "heap fs 0x101000 = Some n" "ramfs_core fs" "data_pages n ! 0 \<noteq> 0"
    using write_page_ok [OF ramfs_invD(1) [OF ramfs_inv_demo2], of "0x101000" demo_a 0] w
    by (auto simp: wp_iff demo2_sel)
  obtain b where "pages fs (data_pages n ! 0) = Some b"
    using node_okD(3) [OF core_node [OF n(2,1)], of 0] n(3) by auto
  then show ?thesis
    using w n by (simp add: ramfs_write_def fd_ok_def demo2_sel blank_fd_def le Let_def upd_node_def upd_fd_def)
qed

lemma inv_heap_0: "ramfs_inv fs \<Longrightarrow> heap fs 0 = None"
  using ramfs_invD(2) tree_okD(1) by blast

lemma ramfs_mkdir_demo: "\<exists>fs'. ramfs_mkdir None ''/d'' demo1 = Some (0, fs')"
proof -
  have look: "ramfs_lookup_locked None demo1 ''/d'' hide = Some 0" for hide
    by (simp add: ramfs_lookup_locked_def split_path_def push_comp_def demo1_sel demo_root_def
        new_node_def may_search_def permitted_boot find_child.simps)
  have walk: "walk_to_parent None demo1 [''d''] = Some (Inr 0x100000)"
    by (simp add: walk_to_parent_def demo1_sel may_search_def permitted_boot)
  have room: "\<not> (64 :: u32) \<le> 1" by (simp add: word_le_nat_alt)
  have sp: "split_path ''/d'' = Some [''d'']" by (simp add: split_path_def push_comp_def)
  show ?thesis
    by (simp add: ramfs_mkdir_def ramfs_find_locked_def ramfs_find_any_locked_def look sp walk
        demo1_sel permitted_boot ramfs_get_current_credentials_def alloc_node_def demo_alloc link_child_def
        upd_node_def room) (simp add: demo_root_def new_node_def)
qed

lemma ramfs_unlink_demo:
  "\<exists>fs'. ramfs_unlink None None ''/a'' (ramfs_close 0 demo2) = Some (0, fs') \<and>
     ramfs_find_locked None (ramfs_close 0 demo2) ''/a'' = Some 0x101000"
proof -
  let ?fs = "ramfs_close 0 demo2"
  have sel: "heap ?fs = heap demo2" "fs_root ?fs = 0x100000"
    by (simp_all add: ramfs_close_def demo2_sel Let_def upd_fd_def blank_fd_def)
  have "find_child ?fs ''a'' 64 0x101000 = Some 0x101000"
    by (subst find_child.simps) (simp add: sel demo2_sel demo_a_def new_node_def)
  then have find: "ramfs_find_locked None ?fs ''/a'' = Some 0x101000"
    by (simp add: ramfs_find_locked_def ramfs_lookup_locked_def split_path_def push_comp_def sel demo2_sel
        demo_root_def new_node_def may_search_def permitted_boot hidden_from_caller_def
        ramfs_get_current_credentials_def)
  have idle: "\<not> ramfs_node_is_busy None ?fs 0x101000"
    by (auto simp: ramfs_node_is_busy_def ramfs_close_def demo2_def upd_fd_def Let_def blank_fd_def
        dest!: set_update_subset_insert [THEN subsetD])
  show ?thesis
    using find idle
    by (simp add: ramfs_unlink_def sel demo2_sel demo_a_def new_node_def permitted_boot unlink_child_def
        demo_root_def upd_node_def free_node_def free_pages_frame Let_def)
qed

definition stranger :: task where
  "stranger = \<lparr>t_pid = 4, t_generation = 1, t_uid = 1000, t_euid = 1000, t_egid = 1000, t_groups = [],
     t_private_tmp_dir = ''/tmp/'', t_capabilities = 6\<rparr>"

lemma stranger_demo:
  "ramfs_find_any_locked (Some stranger) demo2 ''/a'' = Some 0x101000"
  "hidden_node (Some stranger) demo2 0x101000"
proof -
  have "find_child demo2 ''a'' 64 0x101000 = Some 0x101000"
    by (subst find_child.simps) (simp add: demo2_sel demo_a_def new_node_def)
  then show "ramfs_find_any_locked (Some stranger) demo2 ''/a'' = Some 0x101000"
    by (simp add: ramfs_find_any_locked_def ramfs_lookup_locked_def split_path_def push_comp_def demo2_sel
        demo_root_def new_node_def may_search_def permitted_def ramfs_get_current_credentials_def stranger_def
        ramfs_check_permission_def required_perms_def)
  show "hidden_node (Some stranger) demo2 0x101000"
    by (simp add: hidden_node_def hidden_from_caller_def demo2_sel demo_a_def demo_root_def new_node_def
        permitted_def ramfs_get_current_credentials_def stranger_def ramfs_check_permission_def
        required_perms_def)
qed

lemma stranger_absent: "ramfs_find_any_locked (Some stranger) demo2 ''/b'' = Some 0"
proof -
  have "find_child demo2 ''b'' 64 0x101000 = Some 0"
    by (simp add: find_child.simps demo2_sel demo_a_def new_node_def eval_nat_numeral)
  then show ?thesis
    by (simp add: ramfs_find_any_locked_def ramfs_lookup_locked_def split_path_def push_comp_def demo2_sel
        demo_root_def new_node_def may_search_def permitted_def ramfs_get_current_credentials_def stranger_def
        ramfs_check_permission_def required_perms_def)
qed

lemma ramfs_reopen_demo:
  "\<exists>fd fs'. ramfs_open (Some (stranger\<lparr>t_euid := 0\<rparr>)) ''/a'' 3 demo2 = Some (fd, fs') \<and> 0 \<le> fd"
proof -
  let ?t = "Some (stranger\<lparr>t_euid := 0\<rparr>)"
  have root: "permitted ?t n access" for n access
    by (simp add: permitted_def ramfs_get_current_credentials_def ramfs_check_permission_def)
  have "find_child demo2 ''a'' 64 0x101000 = Some 0x101000"
    by (subst find_child.simps) (simp add: demo2_sel demo_a_def new_node_def)
  then have "ramfs_find ?t demo2 ''/a'' = Some 0x101000"
    by (simp add: ramfs_find_def ramfs_find_locked_def ramfs_lookup_locked_def split_path_def push_comp_def demo2_sel
        demo_root_def new_node_def may_search_def root hidden_from_caller_def ramfs_get_current_credentials_def)
  moreover have "ramfs_pick_fd ?t demo2 = 1"
    by (simp add: ramfs_pick_fd_def demo2_def blank_fd_def upt_rec stranger_def)
  moreover have "nd_type demo_a = RAMFS_TYPE_FILE" by (simp add: demo_a_def new_node_def)
  ultimately show ?thesis by (simp add: ramfs_open_def open_node_def demo2_sel root)
qed

lemma ramfs_reread_demo:
  "\<exists>fs. ramfs_inv fs \<and> fd_ok fs 0 \<and> fd_ok fs 1 \<and> file_descriptors fs ! 0 = (file_descriptors demo2 ! 0)\<lparr>fd_pos := 1\<rparr> \<and>
     file_descriptors fs ! 1 = file_descriptors demo2 ! 0 \<and> contents fs 0x101000 = [7]"
proof -
  let ?f = "file_descriptors demo2 ! nat 0"
  obtain fs1 where w: "ramfs_write 0 [7] 1 demo2 = Some (int 1, fs1)" using ramfs_write_demo by auto
  have f: "fd_ok demo2 0" "fd_flags ?f AND RAMFS_FLAG_WRITE \<noteq> 0" "unat (fd_pos ?f) < 65536"
    by (simp_all add: demo2_sel fd_ok_def blank_fd_def)
  have fs1: "ramfs_inv fs1" "contents fs1 0x101000 = write_spec 0 [7] (contents demo2 0x101000)"
    "file_descriptors fs1 = (file_descriptors demo2)[0 := ?f\<lparr>fd_pos := 1\<rparr>]"
    using ramfs_write_effect [OF ramfs_inv_demo2 f(1) refl f(2,3) refl, of "[7]" 1] w
    by (auto simp: demo2_sel blank_fd_def)
  have len: "length (file_descriptors demo2) = 16" by (rule fds_okD(1) [OF ramfs_invD(5) [OF ramfs_inv_demo2]])
  have "fd_live (heap fs1) (file_descriptors fs1 ! 0)"
    using fds_okD(2) [OF ramfs_invD(5) [OF fs1(1)], of 0] fs1(3) len by (simp add: demo2_sel)
  then have "ramfs_inv (upd_fd 1 (\<lambda>_. ?f) fs1)"
    using len fs1(3) by (intro inv_upd_fd [OF fs1(1)]) (auto simp: fd_live_def demo2_sel blank_fd_def)
  moreover have "contents (upd_fd 1 (\<lambda>_. ?f) fs1) 0x101000 = contents fs1 0x101000"
    by (simp add: contents_def upd_fd_def split: option.split)
  moreover have "contents demo2 0x101000 = []" by (simp add: contents_def demo2_sel demo_a_def new_node_def)
  ultimately show ?thesis
    using fs1(2,3) len by (intro exI [of _ "upd_fd 1 (\<lambda>_. ?f) fs1"])
      (simp add: upd_fd_def fd_ok_def write_spec_def demo2_sel blank_fd_def)
qed

section \<open>Descriptor limits\<close>

definition held :: "(ramfs_fd \<Rightarrow> bool) \<Rightarrow> ramfs \<Rightarrow> nat" where
  "held P fs = length (filter (\<lambda>f. in_use f \<and> P f) (file_descriptors fs))"

definition fd_limits :: "task \<Rightarrow> ramfs \<Rightarrow> bool" where
  "fd_limits t fs \<longleftrightarrow>
     held (\<lambda>f. owner_pid f = t_pid t \<and> owner_generation f = t_generation t) fs \<le> PROCESS_MAX_FDS \<and>
     (t_euid t \<noteq> 0 \<longrightarrow> held (\<lambda>f. owner_uid f = t_uid t) fs \<le> RAMFS_USER_MAX_FDS \<and>
        held (\<lambda>f. True) fs + RAMFS_ROOT_RESERVED_FDS \<le> RAMFS_MAX_FDS)"

lemma filter_upt_nth:
  assumes "length xs = n"
  shows "length (filter (\<lambda>i. P (xs ! i)) [0..<n]) = length (filter P xs)"
proof -
  have "filter P (map ((!) xs) [0..<n]) = map ((!) xs) (filter (P \<circ> (!) xs) [0..<n])"
    by (rule filter_map)
  then have "filter P xs = map ((!) xs) (filter (P \<circ> (!) xs) [0..<n])"
    using assms map_nth [of xs] by simp
  then show ?thesis by (simp add: comp_def)
qed

lemma length_filter_update:
  assumes "i < length xs" and "\<not> P (xs ! i)" and "P y"
  shows "length (filter P (xs[i := y])) = Suc (length (filter P xs))"
  using assms by (induction xs arbitrary: i) (auto simp: nth_Cons split: nat.splits)

lemma ramfs_pick_fd_limits:
  assumes len: "length (file_descriptors fs) = 16" and "0 \<le> ramfs_pick_fd (Some t) fs"
  shows "held (\<lambda>f. owner_pid f = t_pid t \<and> owner_generation f = t_generation t) fs < 8 \<and>
    (t_euid t \<noteq> 0 \<longrightarrow> held (\<lambda>f. owner_uid f = t_uid t) fs < 8 \<and> held (\<lambda>f. True) fs + 4 < 16)"
proof -
  let ?fds = "file_descriptors fs"
  have cnt: "length (filter (\<lambda>i. P (?fds ! i)) (filter (\<lambda>i. in_use (?fds ! i)) [0..<16])) = held P fs" for P
    using filter_upt_nth [OF len, of "\<lambda>f. in_use f \<and> P f"] by (simp add: held_def conj_commute del: upt_rec_numeral)
  have free: "length (filter (\<lambda>i. \<not> in_use (?fds ! i)) [0..<16]) + held (\<lambda>f. True) fs = 16"
    using filter_upt_nth [OF len, of "\<lambda>f. \<not> in_use f"] sum_length_filter_compl [of in_use ?fds] len
    by (simp add: held_def del: upt_rec_numeral)
  show ?thesis
    using assms(2) free cnt [of "\<lambda>f. owner_pid f = t_pid t \<and> owner_generation f = t_generation t"]
      cnt [of "\<lambda>f. owner_uid f = t_uid t"]
    by (auto simp: ramfs_pick_fd_def Let_def simp del: upt_rec_numeral filter_filter split: list.splits if_splits)
qed

lemma open_node_limits_wlp:
  assumes inv: "ramfs_inv fs"
  shows "wlp (open_node (Some t) nd flags fs) (\<lambda>(fd, fs'). 0 \<le> fd \<longrightarrow> fd_limits t fs')"
proof -
  let ?fd = "ramfs_pick_fd (Some t) fs"
  have len: "length (file_descriptors fs) = 16" by (rule fds_okD(1) [OF ramfs_invD(5) [OF inv]])
  have "fd_limits t (upd_fd (nat ?fd) F fs)"
    if fd: "\<not> ?fd < 0" and F: "\<And>f. in_use (F f) \<and> owner_pid (F f) = t_pid t \<and>
      owner_generation (F f) = t_generation t \<and> owner_uid (F f) = t_uid t" for F
  proof -
    have slot: "nat ?fd < length (file_descriptors fs)" "\<not> in_use (file_descriptors fs ! nat ?fd)"
      using ramfs_pick_fd_slot [of "Some t" fs] fd len by auto
    have "held P (upd_fd (nat ?fd) F fs) = Suc (held P fs)" if "\<And>f. P (F f)" for P
      using length_filter_update [OF slot(1), of "\<lambda>f. in_use f \<and> P f"] slot(2) F that
      by (simp add: held_def upd_fd_def)
    then show ?thesis
      using ramfs_pick_fd_limits [OF len, of t] fd F by (auto simp: fd_limits_def)
  qed
  then show ?thesis
    by (simp add: open_node_def wlp_rules Let_def)
qed

lemma open_create_errors: "wlp (open_create cur path fs) (\<lambda>(r, fs'). \<forall>e. r = Inl e \<longrightarrow> e < 0)"
  by (auto simp: open_create_def wlp_rules split_def Let_def)

lemma ramfs_open_limits_wlp:
  assumes inv: "ramfs_inv fs"
  shows "wlp (ramfs_open (Some t) path flags fs) (\<lambda>(fd, fs'). 0 \<le> fd \<longrightarrow> fd_limits t fs')"
proof -
  have early: "e < 0" if "open_create (Some t) path fs = Some (Inl e, fs1)" for e fs1
    using wlpD [OF open_create_errors that] by simp
  have safe: "ramfs_inv fs1" if "open_create (Some t) path fs = Some (r, fs1)" for r fs1
    using open_create_safe [OF inv, of "Some t" path] that by (simp add: step_simps)
  show ?thesis
    using open_node_limits_wlp [OF inv] open_node_limits_wlp [OF safe] early
    by (auto simp: ramfs_open_def Let_def wlp_rules split_def)
qed

section \<open>Long names\<close>

lemma split_loop_plain:
  assumes "CHR ''/'' \<notin> set xs" and "length comps < m" and "length c \<le> 31"
  shows "split_loop m comps c xs = split_loop m comps (take 31 (c @ xs)) []"
  using assms
proof (induction xs arbitrary: c)
  case (Cons x xs)
  then show ?case by (cases "length c < 31") (auto simp: take_Cons')
qed simp

lemma split_path_cut:
  assumes "CHR ''/'' \<notin> set a" and "31 \<le> length a"
  shows "split_path (CHR ''/'' # a) = split_loop 16 [] (take 31 a) []"
proof -
  have "dropWhile (\<lambda>x. x = CHR ''/'') a = a" using assms by (cases a) auto
  then show ?thesis using split_loop_plain [OF assms(1), of "[]" 16 "[]"] by (simp add: split_path_def)
qed

end
