(* ===== verification/Ramfs_Props.thy ===== *)
theory Ramfs_Props
  imports Ramfs_Ops
begin

text \<open>
  The properties of the RAM file system: safety of every history of operations from
  \<^verbatim>\<open>ramfs_init\<close> on, refinement of file contents to byte lists, the access matrix, hidden
  names, creation and removal, descriptor limits, and the places where the code departs
  from its own comments.
\<close>

section \<open>Every history is safe\<close>

text \<open>
  C3: From \<^verbatim>\<open>ramfs_init\<close> on, whatever sequence of operations tasks with any credentials
  perform, and whatever the external busy hook answers, no operation follows a dangling
  pointer or walks a cyclic list: the whole history returns. Afterwards the structural
  invariant holds; in particular every open descriptor points at a live regular file, no
  two entries of a directory share a name, and no frame in use is free in the allocator.
\<close>

theorem ramfs_history_safe:
  assumes "unmounted fs" and "fst (pmm_alloc (fs_pmm fs)) \<noteq> 0"
  shows "\<exists>fs'. fs_run steps (ramfs_init fs) = Some fs' \<and> ramfs_inv fs' \<and>
    (\<forall>f \<in> set (file_descriptors fs'). in_use f \<longrightarrow>
       (\<exists>n. heap fs' (fd_node f) = Some n \<and> nd_type n = RAMFS_TYPE_FILE)) \<and>
    (\<forall>p q n m. heap fs' p = Some n \<longrightarrow> heap fs' q = Some m \<longrightarrow> p \<noteq> fs_root fs' \<longrightarrow> q \<noteq> fs_root fs' \<longrightarrow>
       nd_parent n = nd_parent m \<longrightarrow> nd_name n = nd_name m \<longrightarrow> p = q) \<and>
    (dom (heap fs') \<union> dom (pages fs')) \<inter> avail_pages (fs_pmm fs') = {}"
proof -
  obtain fs' where r: "fs_run steps (ramfs_init fs) = Some fs'" and inv: "ramfs_inv fs'"
    using fs_run_safe [OF ramfs_init_inv [OF assms], of steps] by (auto simp: wp_iff)
  have "\<forall>f \<in> set (file_descriptors fs'). in_use f \<longrightarrow>
      (\<exists>n. heap fs' (fd_node f) = Some n \<and> nd_type n = RAMFS_TYPE_FILE)"
    using ramfs_invD(5) [OF inv] by (auto simp: fds_ok_def fd_live_def)
  moreover have "p = q" if "heap fs' p = Some n" "heap fs' q = Some m" "p \<noteq> fs_root fs'" "q \<noteq> fs_root fs'"
    "nd_parent n = nd_parent m" "nd_name n = nd_name m" for p q n m
    by (rule inv_names_unique [OF inv that])
  moreover have "(dom (heap fs') \<union> dom (pages fs')) \<inter> avail_pages (fs_pmm fs') = {}"
    using ramfs_invD(3) [OF inv] by (simp add: store_ok_def)
  ultimately show ?thesis using r inv by blast
qed

theorem ramfs_history_safe_witness:
  "\<exists>fs'. fs_run [(None, None, Open ''/a'' 3), (None, None, Write 0 [1, 2] 2), (None, None, Unlink ''/a'')]
     (ramfs_init demo0) = Some fs' \<and> ramfs_inv fs'"
  using ramfs_history_safe [OF unmounted_demo0 demo0_alloc,
      of "[(None, None, Open ''/a'' 3), (None, None, Write 0 [1, 2] 2), (None, None, Unlink ''/a'')]"] by blast

section \<open>File contents\<close>

text \<open>
  C6: \<^verbatim>\<open>ramfs_write\<close> on a writable descriptor refines the overwrite of a byte list. It
  returns the number \<open>k\<close> of bytes that landed, which is the requested number cut at the
  64 KiB limit unless the allocator has no page left; the file's contents become the old
  contents with the first \<open>k\<close> bytes of the buffer written at the position, a gap beyond the
  old end reading as zeros; every other file is unchanged and the position advances by \<open>k\<close>.
\<close>

theorem ramfs_write_refines:
  assumes "ramfs_inv fs" and "fd_ok fs fd" and "f = file_descriptors fs ! nat fd"
    and "fd_flags f AND RAMFS_FLAG_WRITE \<noteq> 0" and "unat (fd_pos f) < 65536"
    and "unat count \<le> length buf" and "m = min (unat count) (65536 - unat (fd_pos f))"
  shows "\<exists>k fs'. ramfs_write fd buf count fs = Some (int k, fs') \<and> ramfs_inv fs' \<and>
    k \<le> m \<and> (k < m \<longrightarrow> fst (pmm_alloc (fs_pmm fs')) = 0) \<and>
    contents fs' (fd_node f) = write_spec (unat (fd_pos f)) (take k buf) (contents fs (fd_node f)) \<and>
    (\<forall>q. q \<noteq> fd_node f \<longrightarrow> contents fs' q = contents fs q) \<and>
    file_descriptors fs' = (file_descriptors fs)[nat fd := f\<lparr>fd_pos := fd_pos f + of_nat k\<rparr>]"
proof -
  have "length (take m buf) = m" using assms(6,7) by simp
  then show ?thesis using ramfs_write_effect [OF assms(1-5,7), of buf] by metis
qed

theorem ramfs_write_refines_witness:
  "\<exists>k fs'. ramfs_write 0 [7, 8, 9] 3 demo2 = Some (int k, fs') \<and> k \<le> 3 \<and> ramfs_inv fs' \<and>
     contents fs' 0x101000 = write_spec 0 (take k [7, 8, 9]) []"
proof -
  let ?f = "file_descriptors demo2 ! nat 0"
  have f: "fd_ok demo2 0" "fd_flags ?f AND RAMFS_FLAG_WRITE \<noteq> 0" "fd_pos ?f = 0" "fd_node ?f = 0x101000"
    "contents demo2 0x101000 = []"
    by (simp_all add: demo2_sel fd_ok_def contents_def demo_a_def new_node_def blank_fd_def)
  then show ?thesis
    using ramfs_write_refines [OF ramfs_inv_demo2 f(1) refl f(2), of 3 "[7, 8, 9]"] by auto
qed

text \<open>
  C7: \<^verbatim>\<open>ramfs_read\<close> on a readable descriptor returns exactly the bytes of the file's
  contents from the position on, as many as requested and available, and advances the
  position by their number; at or past the end it returns 0. The branch that reports a
  missing page is never taken for a request of at least one byte.
\<close>

theorem ramfs_read_refines:
  assumes "ramfs_inv fs" and "fd_ok fs fd" and "f = file_descriptors fs ! nat fd"
    and "fd_flags f AND RAMFS_FLAG_READ \<noteq> 0" and "count \<noteq> 0"
    and "bs = take (unat count) (drop (unat (fd_pos f)) (contents fs (fd_node f)))"
  shows "\<exists>fs'. ramfs_read fd count fs = Some (int (length bs), bs, fs') \<and> heap fs' = heap fs \<and>
    pages fs' = pages fs \<and>
    file_descriptors fs' = (file_descriptors fs)[nat fd := f\<lparr>fd_pos := fd_pos f + of_nat (length bs)\<rparr>]"
  using ramfs_read_effect [OF assms(1-4,6)] assms(3,5,6) by (auto simp: upd_fd_def)

theorem ramfs_read_refines_witness:
  "\<exists>fs fs'. contents fs 0x101000 = [7] \<and> ramfs_read 1 4 fs = Some (1, [7], fs') \<and> fd_pos (file_descriptors fs' ! 1) = 1"
proof -
  obtain fs where fs: "ramfs_inv fs" "fd_ok fs 1" "file_descriptors fs ! 1 = file_descriptors demo2 ! 0" "contents fs 0x101000 = [7]"
    using ramfs_reread_demo by blast
  let ?f = "file_descriptors fs ! nat 1"
  have f: "fd_flags ?f AND RAMFS_FLAG_READ \<noteq> 0" "fd_pos ?f = 0" "fd_node ?f = 0x101000"
    using fs(3) by (simp_all add: demo2_sel blank_fd_def)
  have "length (file_descriptors fs) = 16" by (rule fds_okD(1) [OF ramfs_invD(5) [OF fs(1)]])
  moreover obtain fs' where "ramfs_read 1 4 fs = Some (1, [7], fs')" "file_descriptors fs' = (file_descriptors fs)[1 := ?f\<lparr>fd_pos := 1\<rparr>]"
    using ramfs_read_refines [OF fs(1,2) refl f(1), of 4] f(2,3) fs(4) by auto
  ultimately show ?thesis using fs(4) by (intro exI [of _ fs] exI [of _ fs']) simp
qed

text \<open>
  C15: What was written is read back: after a write of \<open>k\<close> bytes through a descriptor open
  for reading and writing, seeking back to where it started succeeds and reading \<open>k\<close> bytes
  returns exactly the first \<open>k\<close> bytes of the buffer.
\<close>

theorem ramfs_write_read_back:
  assumes "ramfs_inv fs" and "fd_ok fs fd" and "f = file_descriptors fs ! nat fd"
    and "fd_flags f AND RAMFS_FLAG_WRITE \<noteq> 0" and "fd_flags f AND RAMFS_FLAG_READ \<noteq> 0"
    and "unat (fd_pos f) < 65536" and "ramfs_write fd buf count fs = Some (int k, fs1)" and "0 < k"
  shows "\<exists>fs2 fs3. ramfs_seek fd (fd_pos f) fs1 = Some (int (unat (fd_pos f)), fs2) \<and>
    ramfs_read fd (of_nat k) fs2 = Some (int k, take k buf, fs3)"
  by (rule write_read_back [OF assms])

theorem ramfs_write_read_back_witness:
  "\<exists>fs1 fs2 fs3. ramfs_write 0 [7] 1 demo2 = Some (1, fs1) \<and> ramfs_seek 0 0 fs1 = Some (0, fs2) \<and>
     ramfs_read 0 1 fs2 = Some (1, [7], fs3)"
proof -
  let ?f = "file_descriptors demo2 ! nat 0"
  obtain fs1 where w: "ramfs_write 0 [7] 1 demo2 = Some (int 1, fs1)" using ramfs_write_demo by auto
  have f: "fd_ok demo2 0" "fd_flags ?f AND RAMFS_FLAG_WRITE \<noteq> 0" "fd_flags ?f AND RAMFS_FLAG_READ \<noteq> 0"
    "fd_pos ?f = 0"
    by (simp_all add: demo2_sel fd_ok_def blank_fd_def)
  then show ?thesis
    using ramfs_write_read_back [OF ramfs_inv_demo2 f(1) refl f(2,3) _ w] w by simp
qed

text \<open>
  C22: Truncation discloses nothing: after \<^verbatim>\<open>ramfs_truncate\<close> the file is empty, and if another
  descriptor of the same file then writes at a position further on, the gap reads as
  zeros, whatever the file held before. No other file changes.
\<close>

theorem ramfs_truncate_then_write:
  assumes "ramfs_inv fs" and "fd_ok fs fd" and "fd_ok fs fd2" and "fd \<noteq> fd2"
    and "f = file_descriptors fs ! nat fd" and "f2 = file_descriptors fs ! nat fd2"
    and "fd_node f2 = fd_node f" and "fd_flags f AND RAMFS_FLAG_WRITE \<noteq> 0"
    and "fd_flags f2 AND RAMFS_FLAG_WRITE \<noteq> 0" and "unat (fd_pos f2) < 65536"
  shows "\<exists>fs1 k fs2. ramfs_truncate fd fs = Some (0, fs1) \<and> contents fs1 (fd_node f) = [] \<and>
    ramfs_write fd2 buf count fs1 = Some (int k, fs2) \<and>
    contents fs2 (fd_node f) = replicate (unat (fd_pos f2)) 0 @ take k buf \<and>
    (\<forall>q. q \<noteq> fd_node f \<longrightarrow> contents fs2 q = contents fs q)"
proof -
  obtain fs1 where t: "ramfs_truncate fd fs = Some (0, fs1)" "ramfs_inv fs1" "contents fs1 (fd_node f) = []"
    "\<forall>q. q \<noteq> fd_node f \<longrightarrow> contents fs1 q = contents fs q"
    "file_descriptors fs1 = (file_descriptors fs)[nat fd := f\<lparr>fd_pos := 0\<rparr>]"
    using ramfs_truncate_effect [OF assms(1,2,5,8)] by blast
  have "nat fd \<noteq> nat fd2" using assms(2-4) by (auto simp: fd_ok_def)
  then have f2: "f2 = file_descriptors fs1 ! nat fd2" using t(5) assms(6) by simp
  then have ok: "fd_ok fs1 fd2" using assms(3,6) by (simp add: fd_ok_def)
  obtain k fs2 where w: "ramfs_write fd2 buf count fs1 = Some (int k, fs2)"
    "contents fs2 (fd_node f2) = write_spec (unat (fd_pos f2)) (take k buf) (contents fs1 (fd_node f2))"
    "\<forall>q. q \<noteq> fd_node f2 \<longrightarrow> contents fs2 q = contents fs1 q"
    using ramfs_write_effect [OF t(2) ok f2 assms(9,10) refl, of buf count] by blast
  have "contents fs2 (fd_node f) = replicate (unat (fd_pos f2)) 0 @ take k buf"
    using w(2) assms(7) t(3) by (simp add: write_spec_def)
  then show ?thesis using t(1,3,4) w(1,3) assms(7) by auto
qed

theorem ramfs_truncate_then_write_witness:
  "\<exists>fs fs1 k fs2. contents fs 0x101000 = [7] \<and> ramfs_truncate 1 fs = Some (0, fs1) \<and> ramfs_write 0 [8, 9] 2 fs1 = Some (int k, fs2) \<and>
     contents fs2 0x101000 = 0 # take k [8, 9]"
proof -
  obtain fs where fs: "ramfs_inv fs" "fd_ok fs 0" "fd_ok fs 1" "file_descriptors fs ! 0 = (file_descriptors demo2 ! 0)\<lparr>fd_pos := 1\<rparr>"
    "file_descriptors fs ! 1 = file_descriptors demo2 ! 0" "contents fs 0x101000 = [7]"
    using ramfs_reread_demo by blast
  let ?f = "file_descriptors fs ! nat 1" and ?g = "file_descriptors fs ! nat 0"
  have f: "fd_node ?g = fd_node ?f" "fd_flags ?f AND RAMFS_FLAG_WRITE \<noteq> 0" "fd_flags ?g AND RAMFS_FLAG_WRITE \<noteq> 0"
    "fd_node ?f = 0x101000" "fd_pos ?g = 1"
    using fs(4,5) by (simp_all add: demo2_sel blank_fd_def)
  obtain fs1 k fs2 where "ramfs_truncate 1 fs = Some (0, fs1)" "ramfs_write 0 [8, 9] 2 fs1 = Some (int k, fs2)"
    "contents fs2 0x101000 = 0 # take k [8, 9]"
    using ramfs_truncate_then_write [OF fs(1,3,2) _ refl refl f(1-3), of "[8, 9]" 2] f(4,5) by auto
  then show ?thesis using fs(6) by blast
qed

section \<open>Access control\<close>

text \<open>
  C16: \<^verbatim>\<open>ramfs_check_permission\<close> is the access matrix: root passes always; anyone else must ask
  for at least one of read, write and execute, and every bit asked for must be set in the
  class the caller falls into, owner before group (primary or supplementary) before other.
\<close>

theorem ramfs_check_permission_is_matrix:
  "ramfs_check_permission cur n uid gid access =
     (uid = 0 \<or> (bit access 0 \<or> bit access 1 \<or> bit access 4) \<and>
        (let c = perm_class cur n uid gid in
         \<forall>(flag, perm) \<in> {(0, 2), (1, 1), (4, 0)}. bit access flag \<longrightarrow> bit (nd_mode n) (c + perm)))"
  by (simp add: check_permission_matrix Let_def)

theorem ramfs_check_permission_is_matrix_witness:
  "ramfs_check_permission None (demo_a\<lparr>nd_uid := 5, nd_mode := 420\<rparr>) 7 7 RAMFS_FLAG_READ = True"
  using ramfs_check_permission_is_matrix [of None "demo_a\<lparr>nd_uid := 5, nd_mode := 420\<rparr>" 7 7 RAMFS_FLAG_READ]
  by (simp add: demo_a_def new_node_def perm_class_def bit_numeral_rec)

section \<open>Directories\<close>

text \<open>
  C25: A successful \<^verbatim>\<open>ramfs_mkdir\<close> creates exactly one name. The path now resolves, for the
  caller, to a fresh directory owned by the caller with mode 0700 and carrying the last
  component as its name; and for every caller and every path, lookup gives what it gave
  before, or gave nothing before and finds the new directory now.
\<close>

theorem ramfs_mkdir_creates:
  assumes "ramfs_inv fs" and "ramfs_mkdir cur path fs = Some (0, fs')"
  shows "\<exists>p n. p \<notin> dom (heap fs) \<and> ramfs_find_locked cur fs' path = Some p \<and> heap fs' p = Some n \<and>
    nd_type n = RAMFS_TYPE_DIR \<and> nd_mode n = RAMFS_DEFAULT_DIR_MODE \<and>
    (nd_uid n, nd_gid n) = ramfs_get_current_credentials cur \<and>
    (\<forall>cur' path' hide. ramfs_lookup_locked cur' fs' path' hide = ramfs_lookup_locked cur' fs path' hide \<or>
       ramfs_lookup_locked cur' fs path' hide = Some 0 \<and> ramfs_lookup_locked cur' fs' path' hide = Some p)"
proof -
  obtain comps par p fs1 uid gid where c: "split_path path = Some comps" "comps \<noteq> []"
    "walk_to_parent cur fs comps = Some (Inr par)" "ramfs_find_any_locked cur fs path = Some 0"
    "ramfs_get_current_credentials cur = (uid, gid)"
    "alloc_node (last comps) RAMFS_TYPE_DIR uid gid fs = (p, fs1)" "p \<noteq> 0" "link_child par p fs1 = Some fs'"
    using ramfs_mkdir_cases [OF assms] by blast
  note l = created_lookup [OF assms(1) c]
  then obtain n where n: "heap fs' p = Some n" "nd_type n = RAMFS_TYPE_DIR" "nd_mode n = RAMFS_DEFAULT_DIR_MODE"
    "nd_uid n = uid" "nd_gid n = gid"
    by (cases "heap fs' p") (auto simp: attrs_def)
  show ?thesis using l n c(5) by (intro exI [of _ p] exI [of _ n]) auto
qed

theorem ramfs_mkdir_creates_witness:
  "\<exists>fs' p n. ramfs_mkdir None ''/d'' demo1 = Some (0, fs') \<and> p \<notin> dom (heap demo1) \<and>
     ramfs_find_locked None fs' ''/d'' = Some p \<and> heap fs' p = Some n \<and> nd_type n = RAMFS_TYPE_DIR"
proof -
  obtain fs' where "ramfs_mkdir None ''/d'' demo1 = Some (0, fs')" using ramfs_mkdir_demo by blast
  with ramfs_mkdir_creates [OF ramfs_inv_demo1, of None "''/d''" fs'] show ?thesis by blast
qed

text \<open>
  C24: A successful \<^verbatim>\<open>ramfs_unlink\<close> removes exactly the file the path named, which no open
  descriptor used: its path no longer resolves for anyone, every other path resolves as
  before, and the node's frame and all its data pages, and nothing else, return to the
  allocator.
\<close>

theorem ramfs_unlink_removes:
  assumes "ramfs_inv fs" and "ramfs_unlink cur hook path fs = Some (0, fs')"
  shows "\<exists>p n. ramfs_find_locked cur fs path = Some p \<and> heap fs p = Some n \<and> nd_type n = RAMFS_TYPE_FILE \<and>
    (\<forall>f \<in> set (file_descriptors fs). in_use f \<longrightarrow> fd_node f \<noteq> p) \<and>
    dom (heap fs') = dom (heap fs) - {p} \<and> dom (pages fs') = dom (pages fs) - set (data_pages n) \<and>
    avail_pages (fs_pmm fs') = avail_pages (fs_pmm fs) \<union> insert p (set (data_pages n) - {0}) \<and>
    (\<forall>cur' path' hide. ramfs_lookup_locked cur' fs' path' hide =
       (if ramfs_lookup_locked cur' fs path' hide = Some p then Some 0
        else ramfs_lookup_locked cur' fs path' hide))"
proof -
  obtain p n fs1 where u: "ramfs_find_locked cur fs path = Some p" "heap fs p = Some n" "p \<noteq> fs_root fs"
    "nd_type n = RAMFS_TYPE_FILE" "\<not> ramfs_node_is_busy hook fs p"
    "unlink_child (nd_parent n) p fs = Some (Inr fs1)" "free_node p fs1 = Some fs'"
    using wlpD [OF ramfs_unlink_wlp assms(2)] by auto
  have leaf: "nd_type n \<noteq> RAMFS_TYPE_DIR \<or> nd_children n = 0" using u(4) by simp
  note r = removed_lookup [OF assms(1) u(2,3) leaf u(5-7)]
  have "p \<noteq> 0" using u(2) inv_heap_0 [OF assms(1)] by auto
  then have "\<forall>f \<in> set (file_descriptors fs). in_use f \<longrightarrow> fd_node f \<noteq> p"
    using u(5) by (auto simp: ramfs_node_is_busy_def)
  then show ?thesis using u(1,2,4) r by blast
qed

theorem ramfs_unlink_removes_witness:
  "\<exists>fs'. ramfs_unlink None None ''/a'' (ramfs_close 0 demo2) = Some (0, fs') \<and>
     dom (heap fs') = dom (heap demo2) - {0x101000}"
proof -
  have inv: "ramfs_inv (ramfs_close 0 demo2)" by (rule ramfs_close_safe [OF ramfs_inv_demo2])
  obtain fs' where u: "ramfs_unlink None None ''/a'' (ramfs_close 0 demo2) = Some (0, fs')"
    "ramfs_find_locked None (ramfs_close 0 demo2) ''/a'' = Some 0x101000"
    using ramfs_unlink_demo by blast
  with ramfs_unlink_removes [OF inv u(1)] show ?thesis
    by (auto simp: ramfs_close_def demo2_sel upd_fd_def Let_def blank_fd_def)
qed

text \<open>
  C26: A name hidden from the caller cannot be told from a name that does not exist. Let a path name a node the
  caller holds no permission on, in a directory the caller may not read. Then lookup finds nothing, and the
  operations that need the name to exist (chmod, unlink, rmdir, rename from it, listing, opening for reading)
  give the answer for an absent name and change nothing. If the caller may not write to the directory
  either, the operations that would create the name (mkdir, open with any flags, rename to it) have the very
  result they have for any absent name of that directory. If the caller may write to it, the name
  does show, as the source says: mkdir then answers -2, the code for an existing name.
\<close>

theorem ramfs_hidden_is_absent:
  assumes "ramfs_inv fs" and "ramfs_find_any_locked cur fs path = Some q" and "hidden_node cur fs q"
  shows "ramfs_find_locked cur fs path = Some 0 \<and> ramfs_chmod cur path mode fs = Some (-1, fs) \<and>
    ramfs_unlink cur hook path fs = Some (-1, fs) \<and> ramfs_rmdir cur hook path fs = Some (-1, fs) \<and>
    ramfs_rename cur path path' fs = Some (-1, fs) \<and>
    ramfs_list cur path limit fs = Some (Inl RAMFS_LIST_ENOENT) \<and>
    (0 \<le> ramfs_pick_fd cur fs \<longrightarrow> fs_root fs \<noteq> 0 \<longrightarrow> ramfs_open cur path RAMFS_FLAG_READ fs = Some (-3, fs)) \<and>
    (\<exists>n pn ds x. heap fs q = Some n \<and> heap fs (nd_parent n) = Some pn \<and> split_path path = Some (ds @ [x]) \<and>
      (\<not> permitted cur pn RAMFS_FLAG_WRITE \<longrightarrow>
        (\<forall>other y. split_path other = Some (ds @ [y]) \<longrightarrow> ramfs_find_any_locked cur fs other = Some 0 \<longrightarrow>
          ramfs_mkdir cur path fs = ramfs_mkdir cur other fs \<and>
          (\<forall>flags. ramfs_open cur path flags fs = ramfs_open cur other flags fs) \<and>
          (\<forall>old. ramfs_rename cur old path fs = ramfs_rename cur old other fs))) \<and>
      (\<forall>par. permitted cur pn RAMFS_FLAG_WRITE \<longrightarrow> walk_to_parent cur fs (ds @ [x]) = Some (Inr par) \<longrightarrow>
        ramfs_mkdir cur path fs = Some (-2, fs)))"
  using hidden_find [OF assms] hidden_create [OF assms]
  by (intro conjI) (simp_all add: ramfs_chmod_def ramfs_find_def ramfs_unlink_def ramfs_rmdir_def ramfs_rename_def
    ramfs_list_def ramfs_open_def open_node_def Let_def)

theorem ramfs_hidden_is_absent_witness:
  "ramfs_find_any_locked (Some stranger) demo2 ''/a'' = Some 0x101000 \<and>
   ramfs_unlink (Some stranger) None ''/a'' demo2 = Some (-1, demo2) \<and>
   ramfs_find_any_locked (Some stranger) demo2 ''/b'' = Some 0 \<and>
   ramfs_mkdir (Some stranger) ''/a'' demo2 = ramfs_mkdir (Some stranger) ''/b'' demo2 \<and>
   ramfs_open (Some stranger) ''/a'' 3 demo2 = ramfs_open (Some stranger) ''/b'' 3 demo2"
proof -
  note x = ramfs_hidden_is_absent [OF ramfs_inv_demo2 stranger_demo, where mode = 0 and hook = None and path' = "''/c''" and limit = 0]
  obtain n pn ds y where h: "heap demo2 0x101000 = Some n" "heap demo2 (nd_parent n) = Some pn" "split_path ''/a'' = Some (ds @ [y])"
    and b: "\<not> permitted (Some stranger) pn RAMFS_FLAG_WRITE \<longrightarrow>
      (\<forall>other z. split_path other = Some (ds @ [z]) \<longrightarrow> ramfs_find_any_locked (Some stranger) demo2 other = Some 0 \<longrightarrow>
        ramfs_mkdir (Some stranger) ''/a'' demo2 = ramfs_mkdir (Some stranger) other demo2 \<and>
        (\<forall>flags. ramfs_open (Some stranger) ''/a'' flags demo2 = ramfs_open (Some stranger) other flags demo2))"
    using x by (elim conjE exE) (rule that, blast+)
  have "ds = []" using h(3) by (simp add: split_path_def push_comp_def)
  moreover have "\<not> permitted (Some stranger) pn RAMFS_FLAG_WRITE" using h(1,2)
    by (auto simp: demo2_sel demo_a_def demo_root_def new_node_def permitted_def ramfs_get_current_credentials_def stranger_def
        ramfs_check_permission_def required_perms_def)
  moreover have "split_path ''/b'' = Some [''b'']" by (simp add: split_path_def push_comp_def)
  ultimately show ?thesis using b x stranger_demo stranger_absent by auto
qed

section \<open>Errors\<close>

text \<open>
  C29: An operation on the directory tree that returns an error code has changed nothing:
  \<^verbatim>\<open>ramfs_mkdir\<close>, \<^verbatim>\<open>ramfs_unlink\<close>, \<^verbatim>\<open>ramfs_rmdir\<close>, \<^verbatim>\<open>ramfs_rename\<close> and \<^verbatim>\<open>ramfs_chmod\<close> either
  return 0 or leave the whole file system, the allocator included, as it was.
\<close>

theorem ramfs_errors_change_nothing:
  assumes "ramfs_inv fs" and "e \<noteq> 0"
    and "ramfs_mkdir cur path fs = Some (e, fs') \<or> ramfs_unlink cur hook path fs = Some (e, fs') \<or>
      ramfs_rmdir cur hook path fs = Some (e, fs') \<or> ramfs_rename cur path path' fs = Some (e, fs') \<or>
      ramfs_chmod cur path mode fs = Some (e, fs')"
  shows "fs' = fs"
  using assms(3)
proof (elim disjE)
  assume "ramfs_mkdir cur path fs = Some (e, fs')"
  from ramfs_mkdir_cases [OF assms(1) this] show ?thesis using assms(2) by blast
next
  assume "ramfs_unlink cur hook path fs = Some (e, fs')"
  from wlpD [OF ramfs_unlink_wlp this] show ?thesis using assms(2) by auto
next
  assume "ramfs_rmdir cur hook path fs = Some (e, fs')"
  from wlpD [OF ramfs_rmdir_wlp this] show ?thesis using assms(2) by auto
next
  assume "ramfs_rename cur path path' fs = Some (e, fs')"
  from wlpD [OF ramfs_rename_wlp this] show ?thesis using assms(2) by auto
next
  assume "ramfs_chmod cur path mode fs = Some (e, fs')"
  from wlpD [OF ramfs_chmod_wlp this] show ?thesis using assms(2) by auto
qed

theorem ramfs_errors_change_nothing_witness:
  "\<exists>fs'. ramfs_mkdir None ''/'' demo1 = Some (-2, fs') \<and> fs' = demo1"
proof -
  have m: "ramfs_mkdir None ''/'' demo1 = Some (-2, demo1)"
    by (simp add: ramfs_mkdir_def ramfs_find_locked_def ramfs_lookup_locked_def demo1_sel)
  show ?thesis
    using ramfs_errors_change_nothing [OF ramfs_inv_demo1, of "-2" None "''/''" demo1] m by blast
qed

text \<open>
  C30: \<^verbatim>\<open>ramfs_chmod\<close> lets only root and the owner change a mode, and whatever is asked for, the
  stored mode has no setuid, setgid, sticky or higher bit; nothing else of the node and no
  other node changes.
\<close>

theorem ramfs_chmod_owner_only:
  assumes "ramfs_chmod cur path mode fs = Some (0, fs')"
  shows "\<exists>p n. ramfs_find cur fs path = Some p \<and> heap fs p = Some n \<and>
    (fst (ramfs_get_current_credentials cur) \<in> {0, nd_uid n}) \<and>
    heap fs' = (heap fs)(p \<mapsto> n\<lparr>nd_mode := mode AND RAMFS_PERM_MASK\<rparr>) \<and>
    (\<forall>k. bit (mode AND RAMFS_PERM_MASK) k \<longleftrightarrow> k < 9 \<and> bit mode k)"
proof -
  have "bit (mode AND RAMFS_PERM_MASK) k \<longleftrightarrow> k < 9 \<and> bit mode k" for k
  proof -
    have "bit (RAMFS_PERM_MASK :: u16) k \<longleftrightarrow> bit (mask 9 :: u16) k" by (simp add: mask_eq_exp_minus_1)
    also have "\<dots> \<longleftrightarrow> k < 9" by (auto simp: bit_mask_iff)
    finally show ?thesis by (auto simp: bit_and_iff)
  qed
  then show ?thesis using wlpD [OF ramfs_chmod_wlp assms] by auto
qed

theorem ramfs_chmod_owner_only_witness:
  "\<exists>fs'. ramfs_chmod None ''/'' 2541 demo1 = Some (0, fs') \<and> heap fs' 0x100000 = Some (demo_root\<lparr>nd_mode := 493\<rparr>)"
proof -
  obtain fs' where c: "ramfs_chmod None ''/'' 2541 demo1 = Some (0, fs')"
    by (simp add: ramfs_chmod_def ramfs_find_def ramfs_find_locked_def ramfs_lookup_locked_def demo1_sel
        ramfs_get_current_credentials_def upd_node_def)
  have "ramfs_find None demo1 ''/'' = Some 0x100000"
    by (simp add: ramfs_find_def ramfs_find_locked_def ramfs_lookup_locked_def demo1_sel)
  with ramfs_chmod_owner_only [OF c] show ?thesis using c by (auto simp: demo1_sel)
qed

text \<open>
  C28: The descriptor limits hold after every successful open by a task: the process then
  holds at most 8 descriptors, and unless it runs as root, its user holds at most 8 and at
  least 4 slots of the table stay free for root.
\<close>

theorem ramfs_open_respects_limits:
  assumes "ramfs_inv fs" and "ramfs_open (Some t) path flags fs = Some (fd, fs')" and "0 \<le> fd"
  shows "held (\<lambda>f. owner_pid f = t_pid t \<and> owner_generation f = t_generation t) fs' \<le> PROCESS_MAX_FDS \<and>
    (t_euid t \<noteq> 0 \<longrightarrow> held (\<lambda>f. owner_uid f = t_uid t) fs' \<le> RAMFS_USER_MAX_FDS \<and>
       held (\<lambda>f. True) fs' + RAMFS_ROOT_RESERVED_FDS \<le> RAMFS_MAX_FDS)"
  using wlpD [OF ramfs_open_limits_wlp [OF assms(1)] assms(2)] assms(3) by (simp add: fd_limits_def)

theorem ramfs_open_respects_limits_witness:
  "\<exists>fd fs'. ramfs_open (Some (stranger\<lparr>t_euid := 0\<rparr>)) ''/a'' 3 demo2 = Some (fd, fs') \<and> 0 \<le> fd \<and>
     held (\<lambda>f. owner_pid f = 4 \<and> owner_generation f = 1) fs' \<le> 8"
proof -
  obtain fd fs' where o: "ramfs_open (Some (stranger\<lparr>t_euid := 0\<rparr>)) ''/a'' 3 demo2 = Some (fd, fs')" "0 \<le> fd"
    using ramfs_reopen_demo by blast
  then show ?thesis
    using ramfs_open_respects_limits [OF ramfs_inv_demo2 o] by (auto simp: stranger_def)
qed

section \<open>Departures from the comments\<close>

text \<open>
  C40: Reading zero bytes before the end of a file fails: \<^verbatim>\<open>ramfs_read\<close> reports -5, the code its
  comment reserves for a region without a backing page, although every page is there.
\<close>

theorem ramfs_read_zero_fails:
  assumes "ramfs_inv fs" and "fd_ok fs fd" and "f = file_descriptors fs ! nat fd"
    and "fd_flags f AND RAMFS_FLAG_READ \<noteq> 0" and "unat (fd_pos f) < length (contents fs (fd_node f))"
  shows "ramfs_read fd 0 fs = Some (-5, [], fs)"
  using ramfs_read_effect [OF assms(1-4) refl, of 0] assms(5) by simp

theorem ramfs_read_zero_fails_witness: "\<exists>fs. ramfs_inv fs \<and> ramfs_read 1 0 fs = Some (-5, [], fs)"
proof -
  obtain fs where fs: "ramfs_inv fs" "fd_ok fs 1" "file_descriptors fs ! 1 = file_descriptors demo2 ! 0"
    "contents fs 0x101000 = [7]"
    using ramfs_reread_demo by blast
  then show ?thesis
    using ramfs_read_zero_fails [OF fs(1,2) refl] by (auto simp: demo2_sel blank_fd_def)
qed

text \<open>
  C38: Names are cut to 31 characters, silently: two different names in the root directory
  that agree on their first 31 characters open, and create, the same file.
\<close>

theorem ramfs_long_names_alias:
  assumes "CHR ''/'' \<notin> set a" and "CHR ''/'' \<notin> set b" and "take 31 a = take 31 b" and "31 \<le> length a"
    and "31 \<le> length b"
  shows "ramfs_open cur (CHR ''/'' # a) flags fs = ramfs_open cur (CHR ''/'' # b) flags fs"
proof -
  have eq: "split_path (CHR ''/'' # a) = split_path (CHR ''/'' # b)"
    using split_path_cut [OF assms(1,4)] split_path_cut [OF assms(2,5)] assms(3) by simp
  have "CHR ''/'' # a \<noteq> ''/''" "CHR ''/'' # b \<noteq> ''/''" using assms(4,5) by auto
  with eq have look: "ramfs_lookup_locked cur fs (CHR ''/'' # a) hide = ramfs_lookup_locked cur fs (CHR ''/'' # b) hide"
    for hide by (simp add: ramfs_lookup_locked_def)
  show ?thesis
    unfolding ramfs_open_def open_create_def ramfs_find_def ramfs_find_locked_def ramfs_find_any_locked_def eq look ..
qed

theorem ramfs_long_names_alias_witness:
  "ramfs_open None (CHR ''/'' # replicate 31 CHR ''n'' @ ''1'') 3 demo1 =
   ramfs_open None (CHR ''/'' # replicate 31 CHR ''n'' @ ''2'') 3 demo1"
  using ramfs_long_names_alias [of "replicate 31 CHR ''n'' @ ''1''" "replicate 31 CHR ''n'' @ ''2''" None 3 demo1]
  by simp

end
