(* ===== verification/Vfs_Path.thy ===== *)
theory Vfs_Path
  imports Prelude "HOL-Library.Char_ord" "HOL-Library.Sublist"
begin

text \<open>
  The path functions of the virtual file system (\<^verbatim>\<open>src/src/vfs.c\<close>): canonicalisation,
  the test for protected prefixes and the drive letter of a path. A path is the list of
  the characters before the terminating NUL. The canonicaliser is compared with a
  reference definition that splits a path at its slashes and resolves \<^verbatim>\<open>.\<close> and \<^verbatim>\<open>..\<close> on the
  list of components.
\<close>

section \<open>The code\<close>

abbreviation (input) VFS_MAX_PATH :: nat where "VFS_MAX_PATH \<equiv> 256"
abbreviation (input) MAX_PATH_COMPONENTS :: nat where "MAX_PATH_COMPONENTS \<equiv> 32"
abbreviation (input) VFS_EINVAL :: int where "VFS_EINVAL \<equiv> -22"

definition slash :: "char \<Rightarrow> bool" where
  "slash c \<longleftrightarrow> c = CHR ''/''"

function canon_loop :: "string list \<Rightarrow> string \<Rightarrow> string list option" where
  \<comment> \<open>the component loop: the stack and what is left of the work buffer; \<open>None\<close> is \<open>VFS_EINVAL\<close>\<close>
  "canon_loop comps token =
     (if token = [] then Some comps
      else let nm = takeWhile (\<lambda>c. \<not> slash c) token;
               rest = dropWhile slash (dropWhile (\<lambda>c. \<not> slash c) token) in
        if nm = ''.'' then canon_loop comps rest
        else if nm = ''..'' then canon_loop (butlast comps) rest
        else if nm \<noteq> [] then
          if length comps \<ge> MAX_PATH_COMPONENTS then None else canon_loop (comps @ [nm]) rest
        else canon_loop comps rest)"
  by pat_completeness auto

lemma next_token_shorter:
  assumes "token \<noteq> []"
  shows "length (dropWhile slash (dropWhile (\<lambda>c. \<not> slash c) token)) < length token"
proof (cases token)
  case (Cons c cs)
  have "length (dropWhile P xs) \<le> length xs" for P and xs :: string by (rule length_dropWhile_le)
  from this [of slash "dropWhile (\<lambda>c. \<not> slash c) cs"] this [of "\<lambda>c. \<not> slash c" cs] this [of slash cs]
  show ?thesis using Cons by (cases "slash c") auto
qed (use assms in simp)

termination canon_loop
  by (relation "measure (\<lambda>(_, token). length token)") (auto simp: next_token_shorter)

fun build_path :: "nat \<Rightarrow> string \<Rightarrow> bool \<Rightarrow> string list \<Rightarrow> string option" where
  \<comment> \<open>the output buffer so far; the flag says that a separator is needed\<close>
  "build_path max_len out sep [] = (if length out \<ge> max_len then None else Some out)"
| "build_path max_len out sep (nm # comps) =
     (if sep \<and> length out + 1 \<ge> max_len then None
      else let out = (if sep then out @ ''/'' else out) in
        if length out + length nm \<ge> max_len then None
        else build_path max_len (out @ nm) True comps)"

definition vfs_canonicalize_path :: "string \<Rightarrow> nat \<Rightarrow> int + string" where
  "vfs_canonicalize_path path max_len =
     (if max_len = 0 then Inl VFS_EINVAL
      else if length path \<ge> VFS_MAX_PATH then Inl VFS_EINVAL
      else case canon_loop [] (dropWhile slash path) of
        None \<Rightarrow> Inl VFS_EINVAL
      | Some comps \<Rightarrow>
          if 1 \<ge> max_len then Inl VFS_EINVAL
          else case build_path max_len ''/'' False comps of
            None \<Rightarrow> Inl VFS_EINVAL
          | Some canonical \<Rightarrow> Inr canonical)"

definition protected_paths :: "string list" where
  "protected_paths = [''/bin'', ''/sbin'', ''/etc'', ''/boot'', ''/kernel'']"

definition fold_case :: "char \<Rightarrow> char" where
  "fold_case c = (if CHR ''A'' \<le> c \<and> c \<le> CHR ''Z'' then char_of (of_char c + (32 :: nat)) else c)"

fun match_fold :: "string \<Rightarrow> string \<Rightarrow> string option" where
  \<comment> \<open>one entry against the path: what is left of the path when the whole entry matched\<close>
  "match_fold [] cs = Some cs"
| "match_fold (p # ps) [] = None"
| "match_fold (p # ps) (c # cs) = (if fold_case c \<noteq> p then None else match_fold ps cs)"

definition vfs_path_is_protected :: "string \<Rightarrow> bool" where
  "vfs_path_is_protected canonical \<longleftrightarrow>
     list_ex (\<lambda>p. case match_fold p canonical of
       None \<Rightarrow> False
     | Some rest \<Rightarrow> rest = [] \<or> slash (hd rest)) protected_paths"

definition has_drive :: "string \<Rightarrow> bool" where
  "has_drive path \<longleftrightarrow> length path \<ge> 2 \<and> path ! 1 = CHR '':'' \<and>
     (CHR ''A'' \<le> path ! 0 \<and> path ! 0 \<le> CHR ''Z'' \<or> CHR ''a'' \<le> path ! 0 \<and> path ! 0 \<le> CHR ''z'')"

definition drive_upper :: "char \<Rightarrow> char" where
  "drive_upper c = (if CHR ''a'' \<le> c \<and> c \<le> CHR ''z'' then char_of (of_char c - (32 :: nat)) else c)"

definition drive_index :: "char \<Rightarrow> nat" where
  \<comment> \<open>\<open>drive - 'A'\<close>\<close>
  "drive_index c = of_char c - 65"

section \<open>The reference definition\<close>

primrec split_slash :: "string \<Rightarrow> string list" where
  "split_slash [] = [[]]"
| "split_slash (c # cs) =
     (if slash c then [] # split_slash cs else (c # hd (split_slash cs)) # tl (split_slash cs))"

definition components :: "string \<Rightarrow> string list" where
  "components path = filter (\<lambda>c. c \<noteq> []) (split_slash path)"

definition resolve_comp :: "string list \<Rightarrow> string \<Rightarrow> string list" where
  "resolve_comp st c = (if c = ''.'' then st else if c = ''..'' then butlast st else st @ [c])"

definition resolve :: "string list \<Rightarrow> string list" where
  "resolve cs = foldl resolve_comp [] cs"

fun depth_ok :: "string list \<Rightarrow> string list \<Rightarrow> bool" where
  \<comment> \<open>the stack never holds more than 32 components on the way\<close>
  "depth_ok st [] = True"
| "depth_ok st (c # cs) \<longleftrightarrow> length (resolve_comp st c) \<le> MAX_PATH_COMPONENTS \<and> depth_ok (resolve_comp st c) cs"

definition join_path :: "string list \<Rightarrow> string" where
  "join_path cs = (if cs = [] then ''/'' else concat (map (\<lambda>c. CHR ''/'' # c) cs))"

definition plain :: "string \<Rightarrow> bool" where
  \<comment> \<open>a component that names something\<close>
  "plain c \<longleftrightarrow> c \<noteq> [] \<and> c \<noteq> ''.'' \<and> c \<noteq> ''..'' \<and> list_all (\<lambda>x. \<not> slash x) c"

definition canonical_path :: "string \<Rightarrow> string" where
  "canonical_path path = join_path (resolve (components path))"

section \<open>Splitting\<close>

lemma split_slash_step:
  "split_slash s = takeWhile (\<lambda>c. \<not> slash c) s #
     (case dropWhile (\<lambda>c. \<not> slash c) s of [] \<Rightarrow> [] | _ # r \<Rightarrow> split_slash r)"
  by (induction s) (auto split: list.splits)

lemma components_Nil [simp]: "components [] = []"
  by (simp add: components_def)

lemma components_slash [simp]: "slash c \<Longrightarrow> components (c # cs) = components cs"
  by (simp add: components_def)

lemma components_dropWhile [simp]: "components (dropWhile slash s) = components s"
  by (induction s) auto

lemma components_step:
  "components s =
     (let c = takeWhile (\<lambda>c. \<not> slash c) s; r = components (dropWhile slash (dropWhile (\<lambda>c. \<not> slash c) s))
      in if c = [] then r else c # r)"
proof (cases "dropWhile (\<lambda>c. \<not> slash c) s")
  case Nil
  then have "split_slash s = [takeWhile (\<lambda>c. \<not> slash c) s]" by (subst split_slash_step) (simp only: Nil list.case)
  then show ?thesis unfolding Nil by (simp add: components_def)
next
  case (Cons c r)
  then have "slash c" using hd_dropWhile [of "\<lambda>c. \<not> slash c" s] by simp
  moreover have "split_slash s = takeWhile (\<lambda>c. \<not> slash c) s # split_slash r"
    by (subst split_slash_step) (simp only: Cons list.case)
  then have "components s = (if takeWhile (\<lambda>c. \<not> slash c) s = [] then components r
      else takeWhile (\<lambda>c. \<not> slash c) s # components r)"
    by (simp add: components_def)
  ultimately show ?thesis unfolding Cons by (simp add: Let_def)
qed

lemma components_plain: "c \<in> set (components s) \<Longrightarrow> c \<noteq> [] \<and> list_all (\<lambda>x. \<not> slash x) c"
proof -
  have "\<forall>c \<in> set (split_slash s). list_all (\<lambda>x. \<not> slash x) c"
  proof (induction s)
    case (Cons a s)
    obtain x xs where "split_slash s = x # xs" using split_slash_step [of s] by blast
    then show ?case using Cons by simp
  qed simp
  then show "c \<in> set (components s) \<Longrightarrow> c \<noteq> [] \<and> list_all (\<lambda>x. \<not> slash x) c" by (auto simp: components_def)
qed

lemma takeWhile_no_slash [simp]:
  "list_all (\<lambda>x. \<not> slash x) c \<Longrightarrow> takeWhile (\<lambda>c. \<not> slash c) (c @ CHR ''/'' # r) = c"
  "list_all (\<lambda>x. \<not> slash x) c \<Longrightarrow> dropWhile (\<lambda>c. \<not> slash c) (c @ CHR ''/'' # r) = CHR ''/'' # r"
  "list_all (\<lambda>x. \<not> slash x) c \<Longrightarrow> takeWhile (\<lambda>c. \<not> slash c) c = c"
  "list_all (\<lambda>x. \<not> slash x) c \<Longrightarrow> dropWhile (\<lambda>c. \<not> slash c) c = []"
  by (induction c) (auto simp: slash_def)

lemma components_join: "\<forall>c \<in> set cs. plain c \<Longrightarrow> components (join_path cs) = cs"
proof (induction cs)
  case Nil
  show ?case by (simp add: join_path_def slash_def)
next
  case (Cons c cs)
  then have c: "list_all (\<lambda>x. \<not> slash x) c" "c \<noteq> []" by (auto simp: plain_def)
  have sl: "slash CHR ''/''" by (simp add: slash_def)
  show ?case
  proof (cases cs)
    case Nil
    then show ?thesis using c sl by (simp add: join_path_def) (subst components_step, simp)
  next
    case (Cons d ds)
    then have "components (c @ join_path cs) = c # components (join_path cs)"
      using c sl by (subst components_step) (simp add: join_path_def)
    then show ?thesis using Cons Cons.IH Cons.prems sl by (simp add: join_path_def)
  qed
qed

section \<open>Resolving\<close>

lemma foldl_resolve_plain:
  "\<forall>c \<in> set cs. c \<noteq> [] \<and> list_all (\<lambda>x. \<not> slash x) c \<Longrightarrow> \<forall>c \<in> set st. plain c \<Longrightarrow>
   \<forall>c \<in> set (foldl resolve_comp st cs). plain c"
proof (induction cs arbitrary: st)
  case (Cons c cs)
  have "\<forall>d \<in> set (resolve_comp st c). plain d"
    using Cons.prems by (auto simp: resolve_comp_def plain_def dest: in_set_butlastD)
  then show ?case using Cons by simp
qed simp

lemma resolve_plain: "c \<in> set (resolve (components s)) \<Longrightarrow> plain c"
  using foldl_resolve_plain [of "components s" "[]"] components_plain by (auto simp: resolve_def)

lemma foldl_resolve_id: "\<forall>c \<in> set cs. plain c \<Longrightarrow> foldl resolve_comp st cs = st @ cs"
  by (induction cs arbitrary: st) (auto simp: resolve_comp_def plain_def)

lemma depth_ok_length: "depth_ok st cs \<Longrightarrow> length st \<le> 32 \<Longrightarrow> length (foldl resolve_comp st cs) \<le> 32"
  by (induction cs arbitrary: st) auto

lemma depth_ok_plain: "\<forall>c \<in> set cs. plain c \<Longrightarrow> length st + length cs \<le> 32 \<Longrightarrow> depth_ok st cs"
  by (induction cs arbitrary: st) (auto simp: resolve_comp_def plain_def)

lemma canon_loop_resolves:
  "length st \<le> 32 \<Longrightarrow> canon_loop st token =
     (if depth_ok st (components token) then Some (foldl resolve_comp st (components token)) else None)"
proof (induction st token rule: canon_loop.induct)
  case (1 st token)
  let ?c = "takeWhile (\<lambda>c. \<not> slash c) token"
  let ?r = "dropWhile slash (dropWhile (\<lambda>c. \<not> slash c) token)"
  show ?case
  proof (cases "token = []")
    case False
    have comps: "components token = (if ?c = [] then components ?r else ?c # components ?r)"
      by (subst components_step) (simp add: Let_def)
    consider "?c = []" | "?c = ''.''" | "?c = ''..''" | "?c \<noteq> []" "?c \<noteq> ''.''" "?c \<noteq> ''..''" by blast
    then show ?thesis
    proof cases
      case 1
      then show ?thesis using "1.IH"(4) [OF False refl refl] "1.prems" False comps
        by (subst canon_loop.simps) (simp add: Let_def)
    next
      case 2
      then show ?thesis using "1.IH"(1) [OF False refl refl] "1.prems" False comps
        by (subst canon_loop.simps) (simp add: Let_def resolve_comp_def)
    next
      case 3
      then show ?thesis using "1.IH"(2) [OF False refl refl] "1.prems" False comps
        by (subst canon_loop.simps) (simp add: Let_def resolve_comp_def)
    next
      case 4
      then show ?thesis using "1.IH"(3) [OF False refl refl] "1.prems" False comps
        by (subst canon_loop.simps) (simp add: Let_def resolve_comp_def)
    qed
  qed (simp add: canon_loop.simps)
qed

lemma build_path_tail:
  "build_path m out True cs =
     (let r = out @ concat (map (\<lambda>c. CHR ''/'' # c) cs) in if length r \<ge> m then None else Some r)"
  by (induction cs arbitrary: out) (auto simp: Let_def)

lemma build_path_join:
  "build_path m ''/'' False cs = (if length (join_path cs) \<ge> m then None else Some (join_path cs))"
proof (cases cs)
  case (Cons c cs')
  then show ?thesis by (auto simp: join_path_def build_path_tail Let_def)
qed (simp add: join_path_def)

lemma canonicalize_spec:
  "vfs_canonicalize_path path max_len =
     (if max_len = 0 \<or> length path \<ge> VFS_MAX_PATH \<or> \<not> depth_ok [] (components path) \<or>
         length (canonical_path path) \<ge> max_len
      then Inl VFS_EINVAL else Inr (canonical_path path))"
proof -
  have "1 \<le> length (join_path cs)" for cs by (cases cs) (auto simp: join_path_def)
  from this [of "resolve (components path)"]
  have "max_len \<le> 1 \<Longrightarrow> max_len \<le> length (canonical_path path)"
    unfolding canonical_path_def by linarith
  then show ?thesis
    by (auto simp: vfs_canonicalize_path_def canon_loop_resolves build_path_join canonical_path_def resolve_def
        simp del: canon_loop.simps)
qed

lemma canonicalize_Inr:
  assumes "vfs_canonicalize_path path n = Inr q"
  shows "q = join_path (resolve (components path))" and "length q < n" and "length (resolve (components path)) \<le> 32"
  using assms depth_ok_length [of "[]" "components path"]
  by (auto simp: canonicalize_spec canonical_path_def resolve_def split: if_splits)

section \<open>Protected prefixes\<close>

lemma fold_case_slash [simp]: "fold_case c = CHR ''/'' \<longleftrightarrow> c = CHR ''/''"
proof -
  have "char_of (of_char c + (32 :: nat)) \<noteq> CHR ''/''" if "CHR ''A'' \<le> c" "c \<le> CHR ''Z''"
  proof
    assume "char_of (of_char c + (32 :: nat)) = CHR ''/''"
    then have "of_char (char_of (of_char c + (32 :: nat)) :: char) = (47 :: nat)" by simp
    then show False using that by (simp add: less_eq_char_def)
  qed
  then show ?thesis by (auto simp: fold_case_def)
qed

lemma match_fold_Some: "match_fold p cs = Some rest \<longleftrightarrow> (\<exists>pre. cs = pre @ rest \<and> map fold_case pre = p)"
proof (induction p cs rule: match_fold.induct)
  case (3 p ps c cs)
  then show ?case by (auto simp: Cons_eq_append_conv)
qed auto

lemma append_slash_unique:
  assumes "a @ r = b @ t" and "list_all (\<lambda>x. \<not> slash x) a" and "list_all (\<lambda>x. \<not> slash x) b"
    and "r = [] \<or> slash (hd r)" and "t = [] \<or> slash (hd t)"
  shows "a = b"
  using assms
proof (induction a arbitrary: b)
  case Nil
  then show ?case by (cases b) auto
next
  case (Cons x a)
  then show ?case by (cases b) auto
qed

lemma match_entry:
  assumes "plain c" and "CHR ''/'' \<notin> set name"
  shows "(case match_fold (CHR ''/'' # name) (join_path (c # cs)) of None \<Rightarrow> False
      | Some rest \<Rightarrow> rest = [] \<or> slash (hd rest)) \<longleftrightarrow> map fold_case c = name"
proof -
  let ?t = "concat (map (\<lambda>c. CHR ''/'' # c) cs)"
  have t: "?t = [] \<or> slash (hd ?t)" by (cases cs) (auto simp: slash_def)
  have c: "list_all (\<lambda>x. \<not> slash x) c" using assms(1) by (simp add: plain_def)
  have "pre = c" if "pre @ rest = c @ ?t" "map fold_case pre = name" "rest = [] \<or> slash (hd rest)" for pre rest
  proof (rule append_slash_unique [OF that(1) _ c that(3) t])
    have "CHR ''/'' \<notin> set pre" using that(2) assms(2) fold_case_slash by (metis image_eqI set_map)
    then show "list_all (\<lambda>x. \<not> slash x) pre" by (auto simp: list_all_iff slash_def)
  qed
  then have "map fold_case c = name" if "match_fold name (c @ ?t) = Some rest" "rest = [] \<or> slash (hd rest)" for rest
    using that by (metis match_fold_Some)
  moreover have "match_fold name (c @ ?t) = Some ?t" if "map fold_case c = name"
    using that by (auto simp: match_fold_Some)
  moreover have "match_fold (CHR ''/'' # name) (join_path (c # cs)) = match_fold name (c @ ?t)"
    by (simp add: join_path_def fold_case_def)
  ultimately show ?thesis using t by (fastforce split: option.splits)
qed

lemma protected_join:
  assumes "\<forall>c \<in> set cs. plain c"
  shows "vfs_path_is_protected (join_path cs) \<longleftrightarrow>
    cs \<noteq> [] \<and> map fold_case (hd cs) \<in> {''bin'', ''sbin'', ''etc'', ''boot'', ''kernel''}"
proof (cases cs)
  case Nil
  then show ?thesis by (simp add: vfs_path_is_protected_def protected_paths_def join_path_def fold_case_def)
next
  case (Cons c ds)
  then have "plain c" using assms by simp
  note m = match_entry [OF this, of _ ds]
  show ?thesis
    unfolding Cons vfs_path_is_protected_def protected_paths_def using m by simp
qed

section \<open>Properties\<close>

text \<open>
  C12: \<^verbatim>\<open>vfs_canonicalize_path\<close> computes the reference normal form: it splits the path at its
  slashes, drops empty and \<^verbatim>\<open>.\<close> components, lets \<^verbatim>\<open>..\<close> remove its predecessor (and nothing at the
  root), and joins the rest behind a leading slash. It fails exactly when the path has 256
  characters or more, the stack would outgrow 32 components or the result does not fit.
\<close>

theorem vfs_canonicalize_is_reference:
  "vfs_canonicalize_path path max_len =
     (if 0 < max_len \<and> length path < VFS_MAX_PATH \<and> depth_ok [] (components path) \<and>
         length (join_path (resolve (components path))) < max_len
      then Inr (join_path (resolve (components path))) else Inl VFS_EINVAL)"
  using canonicalize_spec by (auto simp: canonical_path_def)

text \<open>
  C31: A canonical path is a normal form: canonicalising it again, into any buffer it fits in,
  gives it back unchanged, and none of its components is empty, \<^verbatim>\<open>.\<close> or \<^verbatim>\<open>..\<close>.
\<close>

theorem vfs_canonicalize_idempotent:
  assumes "vfs_canonicalize_path path n = Inr q" and "n \<le> 256" and "length q < m"
  shows "vfs_canonicalize_path q m = Inr q \<and> (\<forall>c \<in> set (components q). plain c)"
proof -
  let ?cs = "resolve (components path)"
  have pl: "\<forall>c \<in> set ?cs. plain c" using resolve_plain by blast
  note q = canonicalize_Inr [OF assms(1)]
  have comps: "components q = ?cs" using components_join [OF pl] q(1) by simp
  moreover have "resolve ?cs = ?cs" using foldl_resolve_id [OF pl, of "[]"] by (simp add: resolve_def)
  moreover have "depth_ok [] ?cs" using depth_ok_plain [OF pl, of "[]"] q(3) by simp
  ultimately show ?thesis
    using q assms(2,3) pl by (simp add: canonicalize_spec canonical_path_def)
qed

theorem vfs_canonicalize_idempotent_witness:
  "vfs_canonicalize_path ''//tmp/../etc/./passwd'' 256 = Inr ''/etc/passwd'' \<and>
   vfs_canonicalize_path ''/etc/passwd'' 64 = Inr ''/etc/passwd''"
proof -
  have "vfs_canonicalize_path ''//tmp/../etc/./passwd'' 256 = Inr ''/etc/passwd''" by code_simp
  then show ?thesis using vfs_canonicalize_idempotent [of "''//tmp/../etc/./passwd''" 256 "''/etc/passwd''" 64] by simp
qed

text \<open>
  C23: The test for protected paths decides by the first component: on a canonical path it
  answers yes exactly when that component is, in any mix of upper and lower case, one of
  bin, sbin, etc, boot and kernel; so no spelling of a path with \<^verbatim>\<open>..\<close>, \<^verbatim>\<open>.\<close> or repeated slashes
  evades it, and no name that merely begins with one of these words is caught.
\<close>

theorem vfs_protected_by_first_component:
  assumes "vfs_canonicalize_path path n = Inr q"
  shows "vfs_path_is_protected q \<longleftrightarrow> resolve (components path) \<noteq> [] \<and>
    map fold_case (hd (resolve (components path))) \<in> {''bin'', ''sbin'', ''etc'', ''boot'', ''kernel''}"
  unfolding canonicalize_Inr(1) [OF assms] by (rule protected_join) (use resolve_plain in blast)

theorem vfs_protected_by_first_component_witness:
  "vfs_canonicalize_path ''/tmp/..//ETC/./shadow'' 256 = Inr ''/ETC/shadow'' \<and> vfs_path_is_protected ''/ETC/shadow'' \<and>
   vfs_canonicalize_path ''/kernelfoo'' 256 = Inr ''/kernelfoo'' \<and> \<not> vfs_path_is_protected ''/kernelfoo''"
proof -
  have a: "vfs_canonicalize_path ''/tmp/..//ETC/./shadow'' 256 = Inr ''/ETC/shadow''"
    and b: "vfs_canonicalize_path ''/kernelfoo'' 256 = Inr ''/kernelfoo''" by code_simp+
  have "resolve (components ''/tmp/..//ETC/./shadow'') = [''ETC'', ''shadow'']"
    "resolve (components ''/kernelfoo'') = [''kernelfoo'']" "map fold_case ''ETC'' = ''etc''"
    "map fold_case ''kernelfoo'' = ''kernelfoo''" by code_simp+
  then show ?thesis
    using vfs_protected_by_first_component [OF a] vfs_protected_by_first_component [OF b] a b by simp
qed

end
