(* ===== verification/Vfs_Model.thy ===== *)
theory Vfs_Model
  imports Vfs_Path Ramfs_Model
begin

text \<open>
  The virtual file system layer (\<^verbatim>\<open>src/src/vfs.c\<close>, \<^verbatim>\<open>src/src/vfs.h\<close>): the global descriptor
  table, the driver registry, the drive letters and the dispatch of every call to a
  driver's table of operations. A driver acts on a state of type \<open>'d\<close>; each entry of its
  table is a function of the calling task, its arguments and that state, or absent (a NULL
  function pointer). \<open>None\<close> as the result of a call means what it means for the driver: it
  does not return. An opaque \<^verbatim>\<open>private_data\<close> pointer is \<open>None\<close> (NULL) or the number of an object of
  the driver. \<^verbatim>\<open>kprintf\<close> and the interrupt flag are not modelled, and the functions that only
  report (\<^verbatim>\<open>vfs_stats\<close>, \<^verbatim>\<open>vfs_get_protected_stats\<close>, \<^verbatim>\<open>vfs_foreach_mount\<close>) are left out.
\<close>

section \<open>Constants and data\<close>

abbreviation (input) VFS_MAX_FDS :: nat where "VFS_MAX_FDS \<equiv> 64"
abbreviation (input) VFS_RESERVED_FDS :: nat where "VFS_RESERVED_FDS \<equiv> 6"
abbreviation (input) VFS_USER_MAX_FDS :: nat where "VFS_USER_MAX_FDS \<equiv> 24"
abbreviation (input) VFS_MAX_DRIVERS :: nat where "VFS_MAX_DRIVERS \<equiv> 8"
abbreviation (input) VFS_MAX_DRIVES :: nat where "VFS_MAX_DRIVES \<equiv> 26"
abbreviation (input) VFS_DEFAULT_DRIVE :: char where "VFS_DEFAULT_DRIVE \<equiv> CHR ''D''"
abbreviation (input) SSIZE_MAX :: u32 where "SSIZE_MAX \<equiv> 2147483647"
abbreviation (input) CAP_SYSTEM_CRITICAL :: u32 where "CAP_SYSTEM_CRITICAL \<equiv> 0x00000001"
abbreviation (input) CAP_SYS_ADMIN :: u32 where "CAP_SYS_ADMIN \<equiv> 0x00000008"
abbreviation (input) VFS_O_RDONLY :: u32 where "VFS_O_RDONLY \<equiv> 0x0000"
abbreviation (input) VFS_O_WRONLY :: u32 where "VFS_O_WRONLY \<equiv> 0x0001"
abbreviation (input) VFS_O_RDWR :: u32 where "VFS_O_RDWR \<equiv> 0x0002"
abbreviation (input) VFS_O_CREAT :: u32 where "VFS_O_CREAT \<equiv> 0x0100"
abbreviation (input) VFS_O_TRUNC :: u32 where "VFS_O_TRUNC \<equiv> 0x0200"
abbreviation (input) VFS_O_APPEND :: u32 where "VFS_O_APPEND \<equiv> 0x0400"
abbreviation (input) VFS_O_DIRECTORY :: u32 where "VFS_O_DIRECTORY \<equiv> 0x0800"
abbreviation (input) VFS_O_ACCMODE :: u32 where "VFS_O_ACCMODE \<equiv> 0x0003"
abbreviation (input) VFS_SEEK_SET :: int where "VFS_SEEK_SET \<equiv> 0"
abbreviation (input) VFS_SEEK_CUR :: int where "VFS_SEEK_CUR \<equiv> 1"
abbreviation (input) VFS_SEEK_END :: int where "VFS_SEEK_END \<equiv> 2"
abbreviation (input) VFS_EBADF :: int where "VFS_EBADF \<equiv> -9"
abbreviation (input) VFS_EFAULT :: int where "VFS_EFAULT \<equiv> -14"
abbreviation (input) VFS_ENOMEM :: int where "VFS_ENOMEM \<equiv> -12"
abbreviation (input) VFS_ENOENT :: int where "VFS_ENOENT \<equiv> -2"
abbreviation (input) VFS_EACCES :: int where "VFS_EACCES \<equiv> -13"
abbreviation (input) VFS_EEXIST :: int where "VFS_EEXIST \<equiv> -17"
abbreviation (input) VFS_EOVERFLOW :: int where "VFS_EOVERFLOW \<equiv> -75"
abbreviation (input) VFS_ENOSYS :: int where "VFS_ENOSYS \<equiv> -38"
abbreviation (input) VFS_EISDIR :: int where "VFS_EISDIR \<equiv> -21"
abbreviation (input) VFS_ENOTDIR :: int where "VFS_ENOTDIR \<equiv> -20"
abbreviation (input) VFS_ENOSPC :: int where "VFS_ENOSPC \<equiv> -28"
abbreviation (input) VFS_ENOTEMPTY :: int where "VFS_ENOTEMPTY \<equiv> -39"
abbreviation (input) VFS_EBUSY :: int where "VFS_EBUSY \<equiv> -16"
abbreviation (input) VFS_EAGAIN :: int where "VFS_EAGAIN \<equiv> -11"
abbreviation (input) VFS_ENFILE :: int where "VFS_ENFILE \<equiv> -23"
abbreviation (input) VFS_EMFILE :: int where "VFS_EMFILE \<equiv> -24"
abbreviation (input) VFS_EFBIG :: int where "VFS_EFBIG \<equiv> -27"

datatype vfs_fd_type = VFS_TYPE_NONE | VFS_TYPE_FILE | VFS_TYPE_DEVICE | VFS_TYPE_SOCKET | VFS_TYPE_PIPE

record vfs_dirent =
  de_size :: u32
  de_mode :: u16
  de_type :: u8
  de_reserved :: u8
  de_name :: string

abbreviation (input) VFS_DT_REG :: u8 where "VFS_DT_REG \<equiv> 1"
abbreviation (input) VFS_DT_DIR :: u8 where "VFS_DT_DIR \<equiv> 2"

definition zero_dirent :: vfs_dirent where
  "zero_dirent = \<lparr>de_size = 0, de_mode = 0, de_type = 0, de_reserved = 0, de_name = []\<rparr>"

type_synonym ptr = "nat option"

record 'd file_operations =
  op_open :: "(task option \<Rightarrow> string \<Rightarrow> u32 \<Rightarrow> 'd \<Rightarrow> (int \<times> ptr \<times> 'd) option) option"
  op_close :: "(task option \<Rightarrow> ptr \<Rightarrow> 'd \<Rightarrow> (int \<times> 'd) option) option"
  op_read :: "(task option \<Rightarrow> ptr \<Rightarrow> u32 \<Rightarrow> 'd \<Rightarrow> (int \<times> u8 list \<times> 'd) option) option"
  op_write :: "(task option \<Rightarrow> ptr \<Rightarrow> u8 list \<Rightarrow> u32 \<Rightarrow> 'd \<Rightarrow> (int \<times> 'd) option) option"
  op_mkdir :: "(task option \<Rightarrow> string \<Rightarrow> 'd \<Rightarrow> (int \<times> 'd) option) option"
  op_rmdir :: "(task option \<Rightarrow> string \<Rightarrow> 'd \<Rightarrow> (int \<times> 'd) option) option"
  op_readdir :: "(task option \<Rightarrow> ptr \<Rightarrow> u32 \<Rightarrow> 'd \<Rightarrow> (int \<times> vfs_dirent list \<times> 'd) option) option"
  op_stat :: "(task option \<Rightarrow> string \<Rightarrow> vfs_dirent \<Rightarrow> 'd \<Rightarrow> (int \<times> vfs_dirent) option) option"
  op_seek :: "(task option \<Rightarrow> ptr \<Rightarrow> u32 \<Rightarrow> int \<Rightarrow> 'd \<Rightarrow> (int \<times> 'd) option) option"
  op_unlink :: "(task option \<Rightarrow> string \<Rightarrow> 'd \<Rightarrow> (int \<times> 'd) option) option"
  op_access_dir :: "(task option \<Rightarrow> string \<Rightarrow> 'd \<Rightarrow> int option) option"

record 'd vfs_file_descriptor =
  vin_use :: bool
  vflags :: u32
  vtype :: vfs_fd_type
  voffset :: u32
  private_data :: ptr
  vops :: "'d file_operations option"
  vowner_uid :: u32
  vpath :: string

record 'd vfs_driver =
  drv_name :: string
  drv_ops :: "'d file_operations option"
  registered :: bool

record 'd vfs_mount_t =
  drive_letter :: char
  mnt_ops :: "'d file_operations option"
  mounted :: bool
  driver_name :: string

record 'd vfs =
  vfs_fd_table :: "'d vfs_file_descriptor list"
  vfs_drivers :: "'d vfs_driver list"
  vfs_mounts :: "'d vfs_mount_t list"
  vfs_initialized :: bool
  vfs_protected_denied :: u32
  vfs_protected_granted :: u32

section \<open>Initialisation, drivers and drives\<close>

definition free_slot :: "'d vfs_file_descriptor" where
  \<comment> \<open>an all-zero table entry\<close>
  "free_slot = \<lparr>vin_use = False, vflags = 0, vtype = VFS_TYPE_NONE, voffset = 0, private_data = None,
     vops = None, vowner_uid = 0, vpath = []\<rparr>"

definition vfs_init :: "'d vfs \<Rightarrow> 'd vfs" where
  "vfs_init v =
     (if vfs_initialized v then v
      else v\<lparr>
        vfs_fd_table := map (\<lambda>f. f\<lparr>vin_use := False, vflags := 0, vtype := VFS_TYPE_NONE, voffset := 0,
          private_data := None, vops := None, vpath := []\<rparr>) (vfs_fd_table v),
        vfs_drivers := map (\<lambda>d. d\<lparr>drv_name := [], drv_ops := None, registered := False\<rparr>) (vfs_drivers v),
        vfs_mounts := map (\<lambda>i. (vfs_mounts v ! i)\<lparr>drive_letter := char_of (65 + i), mnt_ops := None,
          mounted := False, driver_name := []\<rparr>) [0..<VFS_MAX_DRIVES],
        vfs_initialized := True\<rparr>)"

definition vfs_register_driver :: "string option \<Rightarrow> 'd file_operations option \<Rightarrow> 'd vfs \<Rightarrow> int \<times> 'd vfs" where
  "vfs_register_driver name ops v =
     (if \<not> vfs_initialized v then (VFS_EINVAL, v)
      else case name of
        None \<Rightarrow> (VFS_EINVAL, v)
      | Some nm \<Rightarrow>
          if Option.is_none ops then (VFS_EINVAL, v)
          else case find (\<lambda>i. \<not> registered (vfs_drivers v ! i)) [0..<VFS_MAX_DRIVERS] of
            Some i \<Rightarrow> (0, v\<lparr>vfs_drivers := (vfs_drivers v)[i :=
                (vfs_drivers v ! i)\<lparr>drv_name := take 31 nm, drv_ops := ops, registered := True\<rparr>]\<rparr>)
          | None \<Rightarrow> (VFS_ENOMEM, v))"

definition vfs_mount :: "char \<Rightarrow> string option \<Rightarrow> 'd vfs \<Rightarrow> int \<times> 'd vfs" where
  "vfs_mount letter name v =
     (if \<not> vfs_initialized v then (VFS_EINVAL, v)
      else case name of
        None \<Rightarrow> (VFS_EINVAL, v)
      | Some nm \<Rightarrow>
          let letter = drive_upper letter in
          if letter < CHR ''A'' \<or> CHR ''Z'' < letter then (VFS_EINVAL, v)
          else case find (\<lambda>i. registered (vfs_drivers v ! i) \<and> drv_name (vfs_drivers v ! i) = nm)
              [0..<VFS_MAX_DRIVERS] of
            None \<Rightarrow> (VFS_ENOENT, v)
          | Some i \<Rightarrow>
              if Option.is_none (drv_ops (vfs_drivers v ! i)) then (VFS_ENOENT, v)
              else let m = drive_index letter in
                (0, v\<lparr>vfs_mounts := (vfs_mounts v)[m := (vfs_mounts v ! m)\<lparr>drive_letter := letter,
                   mnt_ops := drv_ops (vfs_drivers v ! i), mounted := True, driver_name := take 31 nm\<rparr>]\<rparr>))"

definition first_driver :: "'d vfs \<Rightarrow> 'd file_operations option" where
  \<comment> \<open>the first registered driver, the fallback when the default drive is not mounted\<close>
  "first_driver v =
     (case find (\<lambda>i. registered (vfs_drivers v ! i)) [0..<VFS_MAX_DRIVERS] of
        Some i \<Rightarrow> drv_ops (vfs_drivers v ! i)
      | None \<Rightarrow> None)"

definition vfs_resolve_drive :: "string \<Rightarrow> 'd vfs \<Rightarrow> int + 'd file_operations option \<times> string" where
  "vfs_resolve_drive path v =
     (if has_drive path then
        let m = vfs_mounts v ! drive_index (drive_upper (path ! 0)) in
        if \<not> mounted m then Inl VFS_ENOENT else Inr (mnt_ops m, drop 2 path)
      else let m = vfs_mounts v ! drive_index VFS_DEFAULT_DRIVE in
        if mounted m then Inr (mnt_ops m, path)
        else case find (\<lambda>i. registered (vfs_drivers v ! i)) [0..<VFS_MAX_DRIVERS] of
            Some i \<Rightarrow> Inr (drv_ops (vfs_drivers v ! i), path)
          | None \<Rightarrow> Inl VFS_ENOENT)"

definition select_driver :: "string \<Rightarrow> 'd vfs \<Rightarrow> int + 'd file_operations option \<times> string" where
  \<comment> \<open>the inline copy of the same search in \<open>vfs_open\<close>, \<open>vfs_mkdir\<close> and \<open>vfs_rmdir\<close>\<close>
  "select_driver path v =
     (if has_drive path then
        let m = vfs_mounts v ! drive_index (drive_upper (path ! 0)) in
        if mounted m then Inr (mnt_ops m, drop 2 path) else Inl VFS_ENOENT
      else let m = vfs_mounts v ! drive_index VFS_DEFAULT_DRIVE in
        Inr (if mounted m then mnt_ops m else first_driver v, path))"

section \<open>The descriptor table\<close>

definition privileged :: "task option \<Rightarrow> bool" where
  "privileged cur \<longleftrightarrow> (case cur of
     Some t \<Rightarrow> t_uid t = 0 \<or> t_capabilities t AND CAP_SYSTEM_CRITICAL \<noteq> 0
   | None \<Rightarrow> False)"

definition charged_uid :: "task option \<Rightarrow> u32" where
  "charged_uid cur = (case cur of Some t \<Rightarrow> ucast (t_uid t) | None \<Rightarrow> 0)"

definition uid_held :: "u32 \<Rightarrow> 'd vfs \<Rightarrow> nat" where
  "uid_held uid v =
     length (filter (\<lambda>i. vin_use (vfs_fd_table v ! i) \<and> vowner_uid (vfs_fd_table v ! i) = uid) [0..<VFS_MAX_FDS])"

definition upd_slot :: "nat \<Rightarrow> ('d vfs_file_descriptor \<Rightarrow> 'd vfs_file_descriptor) \<Rightarrow> 'd vfs \<Rightarrow> 'd vfs" where
  "upd_slot i f v = v\<lparr>vfs_fd_table := (vfs_fd_table v)[i := f (vfs_fd_table v ! i)]\<rparr>"

definition claim_slot :: "u32 \<Rightarrow> nat \<Rightarrow> 'd vfs \<Rightarrow> 'd vfs" where
  "claim_slot uid i v = upd_slot i (\<lambda>f. f\<lparr>vin_use := True, vowner_uid := uid\<rparr>) v"

definition vfs_alloc_fd :: "task option \<Rightarrow> 'd vfs \<Rightarrow> int \<times> 'd vfs" where
  "vfs_alloc_fd cur v =
     (let uid = charged_uid cur; free = (\<lambda>i. \<not> vin_use (vfs_fd_table v ! i)) in
      if cur \<noteq> None \<and> \<not> privileged cur \<and> uid_held uid v \<ge> VFS_USER_MAX_FDS then (VFS_EAGAIN, v)
      else case find free [0..<VFS_MAX_FDS - VFS_RESERVED_FDS] of
        Some i \<Rightarrow> (int i, claim_slot uid i v)
      | None \<Rightarrow>
          if \<not> privileged cur then (VFS_ENFILE, v)
          else case find free [VFS_MAX_FDS - VFS_RESERVED_FDS..<VFS_MAX_FDS] of
            Some i \<Rightarrow> (int i, claim_slot uid i v)
          | None \<Rightarrow> (VFS_ENFILE, v))"

definition vfs_free_fd :: "int \<Rightarrow> 'd vfs \<Rightarrow> 'd vfs" where
  "vfs_free_fd fd v =
     (if fd < 0 \<or> fd \<ge> int VFS_MAX_FDS then v else upd_slot (nat fd) (\<lambda>_. free_slot) v)"

definition vfd_ok :: "'d vfs \<Rightarrow> int \<Rightarrow> bool" where
  \<comment> \<open>the range and allocation tests every descriptor call begins with\<close>
  "vfd_ok v fd \<longleftrightarrow> 0 \<le> fd \<and> fd < int VFS_MAX_FDS \<and> vin_use (vfs_fd_table v ! nat fd)"

section \<open>Protected paths\<close>

definition vfs_protected_access_allowed :: "task option \<Rightarrow> 'd vfs \<Rightarrow> bool \<times> 'd vfs" where
  "vfs_protected_access_allowed cur v =
     (case cur of
        Some t \<Rightarrow>
          if t_capabilities t AND CAP_SYS_ADMIN = 0
          then (False, v\<lparr>vfs_protected_denied := vfs_protected_denied v + 1\<rparr>)
          else (True, v\<lparr>vfs_protected_granted := vfs_protected_granted v + 1\<rparr>)
      | None \<Rightarrow> (False, v\<lparr>vfs_protected_denied := vfs_protected_denied v + 1\<rparr>))"

definition vfs_protected_modify_allowed :: "task option \<Rightarrow> string \<Rightarrow> 'd vfs \<Rightarrow> bool \<times> 'd vfs" where
  "vfs_protected_modify_allowed cur canonical v =
     (if \<not> vfs_path_is_protected canonical then (True, v) else vfs_protected_access_allowed cur v)"

section \<open>Calls on paths\<close>

definition open_driver ::
  "task option \<Rightarrow> string \<Rightarrow> u32 \<Rightarrow> int \<Rightarrow> 'd file_operations \<Rightarrow> string \<Rightarrow> 'd vfs \<times> 'd \<Rightarrow> (int \<times> 'd vfs \<times> 'd) option" where
  \<comment> \<open>the end of \<open>vfs_open\<close>: the driver's open on the canonical path, then the table entry\<close>
  "open_driver cur p flags fd ops canonical = (\<lambda>(v, w).
     case op_open ops of
       None \<Rightarrow> Some (VFS_ENOENT, vfs_free_fd fd v, w)
     | Some f \<Rightarrow> do {
         (ret, pd, w) \<leftarrow> f cur canonical flags w;
         if ret < 0 then Some (ret, vfs_free_fd fd v, w)
         else Some (fd, upd_slot (nat fd) (\<lambda>s. s\<lparr>vpath := take 255 p, vflags := flags,
           vtype := VFS_TYPE_FILE, voffset := 0, private_data := pd, vops := Some ops\<rparr>) v, w)
       })"

definition open_claimed ::
  "task option \<Rightarrow> string \<Rightarrow> u32 \<Rightarrow> int \<Rightarrow> 'd vfs \<times> 'd \<Rightarrow> (int \<times> 'd vfs \<times> 'd) option" where
  \<comment> \<open>\<open>vfs_open\<close> once it holds the descriptor \<open>fd\<close>\<close>
  "open_claimed cur p flags fd = (\<lambda>(v, w).
     case select_driver p v of
       Inl e \<Rightarrow> Some (e, vfs_free_fd fd v, w)
     | Inr (None, _) \<Rightarrow> Some (VFS_ENOENT, vfs_free_fd fd v, w)
     | Inr (Some ops, actual) \<Rightarrow>
         if Option.is_none (op_open ops) then Some (VFS_ENOENT, vfs_free_fd fd v, w)
         else case vfs_canonicalize_path actual VFS_MAX_PATH of
           Inl e \<Rightarrow> Some (e, vfs_free_fd fd v, w)
         | Inr canonical \<Rightarrow>
             let (allowed, v) =
               (if flags AND (VFS_O_WRONLY OR VFS_O_RDWR OR VFS_O_CREAT OR VFS_O_TRUNC) \<noteq> 0 \<and>
                   vfs_path_is_protected canonical
                then vfs_protected_access_allowed cur v else (True, v)) in
             if \<not> allowed then Some (VFS_EACCES, vfs_free_fd fd v, w)
             else open_driver cur p flags fd ops canonical (v, w))"

definition vfs_open :: "task option \<Rightarrow> string option \<Rightarrow> u32 \<Rightarrow> 'd vfs \<times> 'd \<Rightarrow> (int \<times> 'd vfs \<times> 'd) option" where
  "vfs_open cur path flags = (\<lambda>(v, w).
     if \<not> vfs_initialized v then Some (VFS_EINVAL, v, w)
     else case path of
       None \<Rightarrow> Some (VFS_EFAULT, v, w)
     | Some p \<Rightarrow>
         if length p = 0 \<or> length p \<ge> VFS_MAX_PATH then Some (VFS_EINVAL, v, w)
         else let (fd, v) = vfs_alloc_fd cur v in
           if fd < 0 then Some (fd, v, w) else open_claimed cur p flags fd (v, w))"

definition modify_path ::
  "task option \<Rightarrow> int + 'd file_operations option \<times> string \<Rightarrow>
   ('d file_operations \<Rightarrow> (task option \<Rightarrow> string \<Rightarrow> 'd \<Rightarrow> (int \<times> 'd) option) option) \<Rightarrow> int \<Rightarrow>
   'd vfs \<times> 'd \<Rightarrow> (int \<times> 'd vfs \<times> 'd) option" where
  \<comment> \<open>what \<open>vfs_mkdir\<close>, \<open>vfs_rmdir\<close> and \<open>vfs_unlink\<close> share after the choice of the driver; the
      integer is the answer to an operation the driver does not have\<close>
  "modify_path cur sel op absent = (\<lambda>(v, w).
     case sel of
       Inl e \<Rightarrow> Some (e, v, w)
     | Inr (ops, actual) \<Rightarrow>
         (case Option.bind ops op of
           None \<Rightarrow> Some (absent, v, w)
         | Some f \<Rightarrow>
             (case vfs_canonicalize_path actual VFS_MAX_PATH of
               Inl e \<Rightarrow> Some (e, v, w)
             | Inr canonical \<Rightarrow>
                 let (allowed, v) =
                   (if vfs_path_is_protected canonical then vfs_protected_access_allowed cur v else (True, v)) in
                 if \<not> allowed then Some (VFS_EACCES, v, w)
                 else do { (ret, w) \<leftarrow> f cur canonical w; Some (ret, v, w) })))"

definition path_checked ::
  "string option \<Rightarrow> (string \<Rightarrow> 'd vfs \<times> 'd \<Rightarrow> (int \<times> 'd vfs \<times> 'd) option) \<Rightarrow> 'd vfs \<times> 'd \<Rightarrow>
   (int \<times> 'd vfs \<times> 'd) option" where
  \<comment> \<open>the validation of the path argument that every call on a path begins with\<close>
  "path_checked path k = (\<lambda>(v, w).
     if \<not> vfs_initialized v then Some (VFS_EINVAL, v, w)
     else case path of
       None \<Rightarrow> Some (VFS_EFAULT, v, w)
     | Some p \<Rightarrow> if length p = 0 \<or> length p \<ge> VFS_MAX_PATH then Some (VFS_EINVAL, v, w) else k p (v, w))"

definition vfs_mkdir :: "task option \<Rightarrow> string option \<Rightarrow> 'd vfs \<times> 'd \<Rightarrow> (int \<times> 'd vfs \<times> 'd) option" where
  "vfs_mkdir cur path = path_checked path
     (\<lambda>p vw. modify_path cur (select_driver p (fst vw)) op_mkdir VFS_ENOENT vw)"

definition vfs_rmdir :: "task option \<Rightarrow> string option \<Rightarrow> 'd vfs \<times> 'd \<Rightarrow> (int \<times> 'd vfs \<times> 'd) option" where
  "vfs_rmdir cur path = path_checked path
     (\<lambda>p vw. modify_path cur (select_driver p (fst vw)) op_rmdir VFS_ENOENT vw)"

definition vfs_unlink :: "task option \<Rightarrow> string option \<Rightarrow> 'd vfs \<times> 'd \<Rightarrow> (int \<times> 'd vfs \<times> 'd) option" where
  "vfs_unlink cur path = path_checked path
     (\<lambda>p vw. modify_path cur (vfs_resolve_drive p (fst vw)) op_unlink VFS_ENOSYS vw)"

definition vfs_access_dir :: "task option \<Rightarrow> string option \<Rightarrow> 'd vfs \<times> 'd \<Rightarrow> (int \<times> 'd vfs \<times> 'd) option" where
  "vfs_access_dir cur path = path_checked path (\<lambda>p (v, w).
     case vfs_resolve_drive p v of
       Inl e \<Rightarrow> Some (e, v, w)
     | Inr (ops, actual) \<Rightarrow>
         (case ops of
           None \<Rightarrow> Some (VFS_ENOENT, v, w)
         | Some ops \<Rightarrow>
             (case op_access_dir ops of
               None \<Rightarrow> Some (0, v, w)
             | Some f \<Rightarrow>
                 (case vfs_canonicalize_path actual VFS_MAX_PATH of
                   Inl e \<Rightarrow> Some (e, v, w)
                 | Inr canonical \<Rightarrow> do { ret \<leftarrow> f cur canonical w; Some (ret, v, w) }))))"

definition vfs_stat ::
  "task option \<Rightarrow> string option \<Rightarrow> vfs_dirent option \<Rightarrow> 'd vfs \<times> 'd \<Rightarrow> (int \<times> vfs_dirent option) option" where
  \<comment> \<open>\<open>out\<close> is the caller's buffer, absent when the pointer is NULL\<close>
  "vfs_stat cur path out = (\<lambda>(v, w).
     if \<not> vfs_initialized v then Some (VFS_EINVAL, out)
     else case (path, out) of
       (Some p, Some _) \<Rightarrow>
         if length p = 0 \<or> length p \<ge> VFS_MAX_PATH then Some (VFS_EINVAL, out)
         else (case vfs_resolve_drive p v of
           Inl e \<Rightarrow> Some (e, out)
         | Inr (ops, actual) \<Rightarrow>
             (case Option.bind ops op_stat of
               None \<Rightarrow> Some (VFS_EINVAL, out)
             | Some f \<Rightarrow>
                 (case vfs_canonicalize_path actual VFS_MAX_PATH of
                   Inl e \<Rightarrow> Some (e, out)
                 | Inr canonical \<Rightarrow> do {
                     (ret, out) \<leftarrow> f cur canonical zero_dirent w;
                     Some (ret, Some out)
                   })))
     | _ \<Rightarrow> Some (VFS_EFAULT, out))"

section \<open>Calls on descriptors\<close>

definition vfs_flags_readable :: "u32 \<Rightarrow> bool" where
  "vfs_flags_readable flags \<longleftrightarrow>
     (let mode = flags AND VFS_O_ACCMODE in mode = VFS_O_RDONLY \<or> mode = VFS_O_RDWR)"

definition vfs_flags_writable :: "u32 \<Rightarrow> bool" where
  "vfs_flags_writable flags \<longleftrightarrow>
     (let mode = flags AND VFS_O_ACCMODE in mode = VFS_O_WRONLY \<or> mode = VFS_O_RDWR)"

definition vfs_close :: "task option \<Rightarrow> int \<Rightarrow> 'd vfs \<times> 'd \<Rightarrow> (int \<times> 'd vfs \<times> 'd) option" where
  "vfs_close cur fd = (\<lambda>(v, w).
     if \<not> vfs_initialized v then Some (VFS_EINVAL, v, w)
     else if \<not> vfd_ok v fd then Some (VFS_EBADF, v, w)
     else let s = vfs_fd_table v ! nat fd in
       case Option.bind (vops s) op_close of
         None \<Rightarrow> Some (0, vfs_free_fd fd v, w)
       | Some f \<Rightarrow> do {
           (ret, w) \<leftarrow> f cur (private_data s) w;
           if ret < 0 then Some (ret, v, w) else Some (0, vfs_free_fd fd v, w)
         })"

definition vfs_read :: "task option \<Rightarrow> int \<Rightarrow> bool \<Rightarrow> u32 \<Rightarrow> 'd vfs \<times> 'd \<Rightarrow> (int \<times> u8 list \<times> 'd vfs \<times> 'd) option" where
  \<comment> \<open>\<open>buf\<close> says that the buffer pointer is not NULL\<close>
  "vfs_read cur fd buf sz = (\<lambda>(v, w).
     if \<not> vfs_initialized v then Some (VFS_EINVAL, [], v, w)
     else if \<not> vfd_ok v fd then Some (VFS_EBADF, [], v, w)
     else if \<not> buf \<and> sz > 0 then Some (VFS_EFAULT, [], v, w)
     else if sz > SSIZE_MAX then Some (VFS_EOVERFLOW, [], v, w)
     else let s = vfs_fd_table v ! nat fd in
       if \<not> vfs_flags_readable (vflags s) then Some (VFS_EBADF, [], v, w)
       else if sz = 0 then Some (0, [], v, w)
       else case Option.bind (vops s) op_read of
         None \<Rightarrow> Some (VFS_EINVAL, [], v, w)
       | Some f \<Rightarrow> do { (ret, bytes, w) \<leftarrow> f cur (private_data s) sz w; Some (ret, bytes, v, w) })"

definition vfs_write ::
  "task option \<Rightarrow> int \<Rightarrow> u8 list option \<Rightarrow> u32 \<Rightarrow> 'd vfs \<times> 'd \<Rightarrow> (int \<times> 'd vfs \<times> 'd) option" where
  \<comment> \<open>\<open>buf\<close> is absent when the pointer is NULL\<close>
  "vfs_write cur fd buf sz = (\<lambda>(v, w).
     if \<not> vfs_initialized v then Some (VFS_EINVAL, v, w)
     else if \<not> vfd_ok v fd then Some (VFS_EBADF, v, w)
     else if buf = None \<and> sz > 0 then Some (VFS_EFAULT, v, w)
     else if sz > SSIZE_MAX then Some (VFS_EOVERFLOW, v, w)
     else let s = vfs_fd_table v ! nat fd in
       if \<not> vfs_flags_writable (vflags s) then Some (VFS_EBADF, v, w)
       else if sz = 0 then Some (0, v, w)
       else case Option.bind (vops s) op_write of
         None \<Rightarrow> Some (VFS_EINVAL, v, w)
       | Some f \<Rightarrow>
           if vflags s AND VFS_O_APPEND \<noteq> 0 then
             (case Option.bind (vops s) op_seek of
               None \<Rightarrow> Some (VFS_EINVAL, v, w)
             | Some g \<Rightarrow> do {
                 (end, w) \<leftarrow> g cur (private_data s) 0 VFS_SEEK_END w;
                 if end < 0 then Some (end, v, w)
                 else do { (ret, w) \<leftarrow> f cur (private_data s) (the buf) sz w; Some (ret, v, w) }
               })
           else do { (ret, w) \<leftarrow> f cur (private_data s) (the buf) sz w; Some (ret, v, w) })"

definition vfs_readdir ::
  "task option \<Rightarrow> int \<Rightarrow> bool \<Rightarrow> u32 \<Rightarrow> 'd vfs \<times> 'd \<Rightarrow> (int \<times> vfs_dirent list \<times> 'd vfs \<times> 'd) option" where
  "vfs_readdir cur fd buf sz = (\<lambda>(v, w).
     if \<not> vfs_initialized v then Some (VFS_EINVAL, [], v, w)
     else if \<not> vfd_ok v fd then Some (VFS_EBADF, [], v, w)
     else if \<not> buf \<and> sz > 0 then Some (VFS_EFAULT, [], v, w)
     else if sz > SSIZE_MAX then Some (VFS_EOVERFLOW, [], v, w)
     else if sz = 0 then Some (0, [], v, w)
     else let s = vfs_fd_table v ! nat fd in
       case Option.bind (vops s) op_readdir of
         None \<Rightarrow> Some (VFS_EINVAL, [], v, w)
       | Some f \<Rightarrow> do { (ret, es, w) \<leftarrow> f cur (private_data s) sz w; Some (ret, es, v, w) })"

definition vfs_lseek :: "task option \<Rightarrow> int \<Rightarrow> u32 \<Rightarrow> int \<Rightarrow> 'd vfs \<times> 'd \<Rightarrow> (int \<times> 'd vfs \<times> 'd) option" where
  "vfs_lseek cur fd offset whence = (\<lambda>(v, w).
     if \<not> vfs_initialized v then Some (VFS_EINVAL, v, w)
     else if \<not> vfd_ok v fd then Some (VFS_EBADF, v, w)
     else if whence \<noteq> VFS_SEEK_SET \<and> whence \<noteq> VFS_SEEK_CUR \<and> whence \<noteq> VFS_SEEK_END then Some (VFS_EINVAL, v, w)
     else let s = vfs_fd_table v ! nat fd in
       case Option.bind (vops s) op_seek of
         None \<Rightarrow> Some (VFS_ENOSYS, v, w)
       | Some f \<Rightarrow> do { (ret, w) \<leftarrow> f cur (private_data s) offset whence w; Some (ret, v, w) })"

definition vfs_get_fd_info :: "int \<Rightarrow> 'd vfs \<Rightarrow> 'd vfs_file_descriptor option" where
  "vfs_get_fd_info fd v =
     (if fd < 0 \<or> fd \<ge> int VFS_MAX_FDS then None
      else if \<not> vin_use (vfs_fd_table v ! nat fd) then None
      else Some (vfs_fd_table v ! nat fd))"

end
