(* ===== verification/Ramfs_Vfs.thy ===== *)
theory Ramfs_Vfs
  imports Vfs_Model Ramfs_Ops
begin

text \<open>
  The RAM file system as a driver of the virtual file system (\<^verbatim>\<open>src/src/ramfs_vfs.c\<close>): the
  pool of handles that \<^verbatim>\<open>private_data\<close> points into, one function per entry of the table of
  operations, and its registration. The driver's state is the RAM file system, the pool
  and whether the pool's busy test has been registered with the file system.
\<close>

section \<open>The driver\<close>

abbreviation (input) RAMFS_VFS_MAX_HANDLES :: nat where "RAMFS_VFS_MAX_HANDLES \<equiv> 64"

record ramfs_fd_handle =
  ramfs_fd :: int
  hin_use :: bool
  is_dir :: bool
  dir_node :: u32
  dir_pos :: u32

record ramfs_vfs =
  rfs :: ramfs
  handle_pool :: "ramfs_fd_handle list"
  busy_hook :: bool

definition upd_handle :: "nat \<Rightarrow> (ramfs_fd_handle \<Rightarrow> ramfs_fd_handle) \<Rightarrow> ramfs_vfs \<Rightarrow> ramfs_vfs" where
  "upd_handle i f w = w\<lparr>handle_pool := (handle_pool w)[i := f (handle_pool w ! i)]\<rparr>"

definition ramfs_alloc_handle :: "int \<Rightarrow> ramfs_vfs \<Rightarrow> ptr \<times> ramfs_vfs" where
  "ramfs_alloc_handle fd w =
     (case find (\<lambda>i. \<not> hin_use (handle_pool w ! i)) [0..<RAMFS_VFS_MAX_HANDLES] of
        Some i \<Rightarrow> (Some i, upd_handle i (\<lambda>_. \<lparr>ramfs_fd = fd, hin_use = True, is_dir = False,
            dir_node = 0, dir_pos = 0\<rparr>) w)
      | None \<Rightarrow> (None, w))"

definition ramfs_free_handle :: "ptr \<Rightarrow> ramfs_vfs \<Rightarrow> ramfs_vfs" where
  "ramfs_free_handle h w =
     (case h of
        Some i \<Rightarrow> upd_handle i (\<lambda>_. \<lparr>ramfs_fd = -1, hin_use = False, is_dir = False,
            dir_node = 0, dir_pos = 0\<rparr>) w
      | None \<Rightarrow> w)"

definition ramfs_vfs_node_busy :: "ramfs_fd_handle list \<Rightarrow> u32 \<Rightarrow> bool" where
  "ramfs_vfs_node_busy pool node \<longleftrightarrow>
     node \<noteq> 0 \<and> list_ex (\<lambda>h. hin_use h \<and> is_dir h \<and> dir_node h = node) pool"

definition hook_of :: "ramfs_vfs \<Rightarrow> (u32 \<Rightarrow> bool) option" where
  \<comment> \<open>\<open>external_busy_hook\<close>: NULL until the driver registers its test\<close>
  "hook_of w = (if busy_hook w then Some (ramfs_vfs_node_busy (handle_pool w)) else None)"

definition ramfs_flags_of :: "u32 \<Rightarrow> u8" where
  "ramfs_flags_of flags =
     (let access_mode = flags AND 0x3 in
      (if access_mode = VFS_O_RDONLY \<or> access_mode = VFS_O_RDWR then RAMFS_FLAG_READ else 0) OR
      (if access_mode = VFS_O_WRONLY \<or> access_mode = VFS_O_RDWR then RAMFS_FLAG_WRITE else 0))"

definition open_error :: "int \<Rightarrow> int" where
  "open_error e =
     (if e = RAMFS_CREATE_EPERM then VFS_EACCES
      else if e = RAMFS_OPEN_LIMIT then VFS_EAGAIN
      else if e = - EMFILE then VFS_EMFILE
      else if e = -2 then VFS_ENFILE
      else VFS_ENOENT)"

definition ramfs_vfs_open :: "task option \<Rightarrow> string \<Rightarrow> u32 \<Rightarrow> ramfs_vfs \<Rightarrow> (int \<times> ptr \<times> ramfs_vfs) option" where
  "ramfs_vfs_open cur path flags w =
     (if flags AND VFS_O_DIRECTORY \<noteq> 0 then do {
        dir \<leftarrow> ramfs_find cur (rfs w) path;
        if dir = 0 then Some (VFS_ENOENT, None, w)
        else do {
          n \<leftarrow> heap (rfs w) dir;
          if nd_type n \<noteq> RAMFS_TYPE_DIR then Some (VFS_EINVAL, None, w)
          else if \<not> permitted cur n RAMFS_FLAG_READ then Some (VFS_EACCES, None, w)
          else case ramfs_alloc_handle (-1) w of
            (None, w) \<Rightarrow> Some (VFS_ENOMEM, None, w)
          | (Some i, w) \<Rightarrow>
              Some (0, Some i, upd_handle i (\<lambda>h. h\<lparr>is_dir := True, dir_node := dir, dir_pos := 0\<rparr>) w)
        }
      }
      else do {
        (fd, fs) \<leftarrow> ramfs_open cur path (ramfs_flags_of flags) (rfs w);
        let w = w\<lparr>rfs := fs\<rparr>;
        if fd < 0 then Some (open_error fd, None, w)
        else do {
          w \<leftarrow> (if flags AND VFS_O_TRUNC \<noteq> 0
                then do { (_, fs) \<leftarrow> ramfs_truncate fd (rfs w); Some (w\<lparr>rfs := fs\<rparr>) }
                else Some w);
          case ramfs_alloc_handle fd w of
            (None, w) \<Rightarrow> Some (VFS_ENOMEM, None, w\<lparr>rfs := ramfs_close fd (rfs w)\<rparr>)
          | (Some i, w) \<Rightarrow> Some (0, Some i, w)
        }
      })"

definition ramfs_vfs_close :: "task option \<Rightarrow> ptr \<Rightarrow> ramfs_vfs \<Rightarrow> (int \<times> ramfs_vfs) option" where
  "ramfs_vfs_close cur pd w =
     (case pd of
        None \<Rightarrow> Some (VFS_EINVAL, w)
      | Some i \<Rightarrow>
          let h = handle_pool w ! i;
              w = (if is_dir h then w else w\<lparr>rfs := ramfs_close (ramfs_fd h) (rfs w)\<rparr>)
          in Some (0, ramfs_free_handle pd w))"

definition ramfs_vfs_read :: "task option \<Rightarrow> ptr \<Rightarrow> u32 \<Rightarrow> ramfs_vfs \<Rightarrow> (int \<times> u8 list \<times> ramfs_vfs) option" where
  "ramfs_vfs_read cur pd sz w =
     (case pd of
        None \<Rightarrow> Some (VFS_EINVAL, [], w)
      | Some i \<Rightarrow> do {
          (n, bytes, fs) \<leftarrow> ramfs_read (ramfs_fd (handle_pool w ! i)) sz (rfs w);
          Some (if n < 0 then VFS_EINVAL else n, bytes, w\<lparr>rfs := fs\<rparr>)
        })"

definition ramfs_vfs_write :: "task option \<Rightarrow> ptr \<Rightarrow> u8 list \<Rightarrow> u32 \<Rightarrow> ramfs_vfs \<Rightarrow> (int \<times> ramfs_vfs) option" where
  "ramfs_vfs_write cur pd buf sz w =
     (case pd of
        None \<Rightarrow> Some (VFS_EINVAL, w)
      | Some i \<Rightarrow> do {
          (n, fs) \<leftarrow> ramfs_write (ramfs_fd (handle_pool w ! i)) buf sz (rfs w);
          Some (if n = RAMFS_WRITE_EFBIG then VFS_EFBIG else if n < 0 then VFS_EINVAL else n, w\<lparr>rfs := fs\<rparr>)
        })"

definition mkdir_error :: "int \<Rightarrow> int" where
  "mkdir_error e =
     (if e = -2 then VFS_EEXIST else if e = -3 then VFS_ENOTDIR else if e = -5 then VFS_EACCES
      else if e = -6 \<or> e = -9 then VFS_ENOSPC else if e = -7 then VFS_EINVAL else VFS_ENOENT)"

definition ramfs_vfs_mkdir :: "task option \<Rightarrow> string \<Rightarrow> ramfs_vfs \<Rightarrow> (int \<times> ramfs_vfs) option" where
  "ramfs_vfs_mkdir cur path w = do {
     (e, fs) \<leftarrow> ramfs_mkdir cur path (rfs w);
     Some (if e < 0 then mkdir_error e else 0, w\<lparr>rfs := fs\<rparr>)
   }"

definition rmdir_error :: "int \<Rightarrow> int" where
  "rmdir_error e =
     (if e = -2 then VFS_ENOTDIR else if e = -3 then VFS_ENOTEMPTY else if e = -5 then VFS_EACCES
      else if e = RAMFS_BUSY then VFS_EBUSY else VFS_ENOENT)"

definition ramfs_vfs_rmdir :: "task option \<Rightarrow> string \<Rightarrow> ramfs_vfs \<Rightarrow> (int \<times> ramfs_vfs) option" where
  "ramfs_vfs_rmdir cur path w = do {
     (e, fs) \<leftarrow> ramfs_rmdir cur (hook_of w) path (rfs w);
     Some (if e < 0 then rmdir_error e else 0, w\<lparr>rfs := fs\<rparr>)
   }"

definition unlink_error :: "int \<Rightarrow> int" where
  "unlink_error e =
     (if e = -2 then VFS_EISDIR else if e = -4 then VFS_EACCES
      else if e = RAMFS_BUSY then VFS_EBUSY else VFS_ENOENT)"

definition ramfs_vfs_unlink :: "task option \<Rightarrow> string \<Rightarrow> ramfs_vfs \<Rightarrow> (int \<times> ramfs_vfs) option" where
  "ramfs_vfs_unlink cur path w = do {
     (e, fs) \<leftarrow> ramfs_unlink cur (hook_of w) path (rfs w);
     Some (if e < 0 then unlink_error e else 0, w\<lparr>rfs := fs\<rparr>)
   }"

fun skip_children :: "ramfs \<Rightarrow> nat \<Rightarrow> u32 \<Rightarrow> u32 option" where
  "skip_children fs 0 c = Some c"
| "skip_children fs (Suc k) c =
     (if c = 0 then Some 0 else do { n \<leftarrow> heap fs c; skip_children fs k (nd_next n) })"

definition dirent_of :: "ramfs_node \<Rightarrow> vfs_dirent" where
  \<comment> \<open>the 64-byte name field takes 63 characters\<close>
  "dirent_of n = \<lparr>de_size = (if nd_type n = RAMFS_TYPE_DIR then 0 else nd_size n), de_mode = nd_mode n,
     de_type = (if nd_type n = RAMFS_TYPE_DIR then VFS_DT_DIR else VFS_DT_REG), de_reserved = 0,
     de_name = take 63 (nd_name n)\<rparr>"

fun fill_dirents :: "ramfs \<Rightarrow> nat \<Rightarrow> u32 \<Rightarrow> vfs_dirent list option" where
  "fill_dirents fs 0 c = Some []"
| "fill_dirents fs (Suc k) c =
     (if c = 0 then Some []
      else do { n \<leftarrow> heap fs c; rest \<leftarrow> fill_dirents fs k (nd_next n); Some (dirent_of n # rest) })"

abbreviation (input) DIRENT_SIZE :: nat where "DIRENT_SIZE \<equiv> 72"

definition ramfs_vfs_readdir ::
  "task option \<Rightarrow> ptr \<Rightarrow> u32 \<Rightarrow> ramfs_vfs \<Rightarrow> (int \<times> vfs_dirent list \<times> ramfs_vfs) option" where
  "ramfs_vfs_readdir cur pd sz w =
     (case pd of
        None \<Rightarrow> Some (VFS_EINVAL, [], w)
      | Some i \<Rightarrow>
          let h = handle_pool w ! i in
          if \<not> is_dir h \<or> dir_node h = 0 then Some (VFS_EBADF, [], w)
          else if unat sz < DIRENT_SIZE then Some (VFS_EINVAL, [], w)
          else do {
            n \<leftarrow> heap (rfs w) (dir_node h);
            child \<leftarrow> skip_children (rfs w) (unat (dir_pos h)) (nd_children n);
            es \<leftarrow> fill_dirents (rfs w) (unat sz div DIRENT_SIZE) child;
            Some (int (length es * DIRENT_SIZE), es,
              upd_handle i (\<lambda>h. h\<lparr>dir_pos := dir_pos h + of_nat (length es)\<rparr>) w)
          })"

definition ramfs_vfs_stat :: "task option \<Rightarrow> string \<Rightarrow> vfs_dirent \<Rightarrow> ramfs_vfs \<Rightarrow> (int \<times> vfs_dirent) option" where
  "ramfs_vfs_stat cur path out w = do {
     p \<leftarrow> ramfs_find cur (rfs w) path;
     if p = 0 then Some (VFS_ENOENT, out)
     else do {
       n \<leftarrow> heap (rfs w) p;
       if \<not> permitted cur n RAMFS_FLAG_READ then Some (VFS_EACCES, out)
       else Some (0, out\<lparr>de_size := de_size (dirent_of n), de_mode := nd_mode n,
         de_type := de_type (dirent_of n), de_reserved := 0\<rparr>)
     }
   }"

definition ramfs_vfs_access_dir :: "task option \<Rightarrow> string \<Rightarrow> ramfs_vfs \<Rightarrow> int option" where
  "ramfs_vfs_access_dir cur path w = do {
     p \<leftarrow> ramfs_find cur (rfs w) path;
     if p = 0 then Some VFS_ENOENT
     else do {
       n \<leftarrow> heap (rfs w) p;
       if nd_type n \<noteq> RAMFS_TYPE_DIR then Some VFS_ENOTDIR
       else if \<not> permitted cur n RAMFS_FLAG_EXEC then Some VFS_EACCES
       else Some 0
     }
   }"

definition ramfs_vfs_seek :: "task option \<Rightarrow> ptr \<Rightarrow> u32 \<Rightarrow> int \<Rightarrow> ramfs_vfs \<Rightarrow> (int \<times> ramfs_vfs) option" where
  \<comment> \<open>\<open>offset\<close> is the bit pattern of the \<open>ssize_t\<close>; the sum, undefined in C when it overflows, is taken modulo \<open>2 ^ 32\<close>\<close>
  "ramfs_vfs_seek cur pd offset whence w =
     (case pd of
        None \<Rightarrow> Some (VFS_EINVAL, w)
      | Some i \<Rightarrow>
          let h = handle_pool w ! i in
          if is_dir h then Some (VFS_EBADF, w)
          else if whence \<notin> {VFS_SEEK_SET, VFS_SEEK_CUR, VFS_SEEK_END} then Some (VFS_EINVAL, w)
          else do {
            base \<leftarrow> (if whence = VFS_SEEK_SET then Some 0
                    else if whence = VFS_SEEK_CUR then Some (ramfs_tell (ramfs_fd h) (rfs w))
                    else ramfs_fd_size (ramfs_fd h) (rfs w));
            if base < 0 then Some (VFS_EBADF, w)
            else let target = word_of_int base + offset :: u32 in
              if sint target < 0 then Some (VFS_EINVAL, w)
              else do {
                (pos, fs) \<leftarrow> ramfs_seek (ramfs_fd h) target (rfs w);
                Some (if pos < 0 then VFS_EBADF else pos, w\<lparr>rfs := fs\<rparr>)
              }
          })"

definition ramfs_file_ops :: "ramfs_vfs file_operations" where
  "ramfs_file_ops = \<lparr>op_open = Some ramfs_vfs_open, op_close = Some ramfs_vfs_close,
     op_read = Some ramfs_vfs_read, op_write = Some ramfs_vfs_write,
     op_mkdir = Some ramfs_vfs_mkdir, op_rmdir = Some ramfs_vfs_rmdir,
     op_readdir = Some ramfs_vfs_readdir, op_stat = Some ramfs_vfs_stat,
     op_seek = Some ramfs_vfs_seek, op_unlink = Some ramfs_vfs_unlink,
     op_access_dir = Some ramfs_vfs_access_dir\<rparr>"

definition ramfs_vfs_init :: "ramfs_vfs vfs \<times> ramfs_vfs \<Rightarrow> int \<times> ramfs_vfs vfs \<times> ramfs_vfs" where
  "ramfs_vfs_init = (\<lambda>(v, w).
     let (ret, v) = vfs_register_driver (Some ''ramfs'') (Some ramfs_file_ops) v in
     if ret < 0 then (ret, v, w) else (0, v, w\<lparr>busy_hook := True\<rparr>))"

end
