(* ===== verification/Vfs_Safe.thy ===== *)
theory Vfs_Safe
  imports Vfs_Model
begin

text \<open>
  What the virtual file system promises, given what its drivers promise. The locale
  \<open>driver_world\<close> is the contract of the drivers: every operation returns and keeps the
  driver's invariant, \<^verbatim>\<open>open\<close> hands out an object that was not live before, \<^verbatim>\<open>close\<close> retires
  exactly the object it is given, and nothing else changes which objects are live. Under it
  every call of the layer returns and keeps \<open>vfs_ok\<close>: each descriptor in use names a driver and
  a live object, and no two descriptors share one.
\<close>

section \<open>The invariant of the layer\<close>

definition slots_ok :: "'d file_operations set \<Rightarrow> nat set \<Rightarrow> 'd vfs_file_descriptor list \<Rightarrow> bool" where
  "slots_ok D L tab \<longleftrightarrow> length tab = VFS_MAX_FDS \<and>
     (\<forall>i < VFS_MAX_FDS. vin_use (tab ! i) \<longrightarrow>
        (\<exists>ops \<in> D. vops (tab ! i) = Some ops) \<and> (\<exists>h \<in> L. private_data (tab ! i) = Some h)) \<and>
     (\<forall>i < VFS_MAX_FDS. \<forall>j < VFS_MAX_FDS. vin_use (tab ! i) \<longrightarrow> vin_use (tab ! j) \<longrightarrow> i \<noteq> j \<longrightarrow>
        private_data (tab ! i) \<noteq> private_data (tab ! j))"

definition tables_ok :: "'d file_operations set \<Rightarrow> 'd vfs \<Rightarrow> bool" where
  "tables_ok D v \<longleftrightarrow> length (vfs_drivers v) = VFS_MAX_DRIVERS \<and> length (vfs_mounts v) = VFS_MAX_DRIVES \<and>
     (\<forall>d \<in> set (vfs_drivers v). registered d \<longrightarrow> drv_ops d \<in> Some ` D) \<and>
     (\<forall>m \<in> set (vfs_mounts v). mounted m \<longrightarrow> mnt_ops m \<in> Some ` D)"

definition vfs_ok ::
  "'d file_operations set \<Rightarrow> ('d \<Rightarrow> bool) \<Rightarrow> ('d \<Rightarrow> nat set) \<Rightarrow> 'd vfs \<times> 'd \<Rightarrow> bool" where
  "vfs_ok D dinv live = (\<lambda>(v, w). dinv w \<and> tables_ok D v \<and> slots_ok D (live w) (vfs_fd_table v))"

lemma slots_okD:
  assumes "slots_ok D L tab" and "i < 64" and "vin_use (tab ! i)"
  obtains ops h where "ops \<in> D" and "vops (tab ! i) = Some ops" and "h \<in> L" and "private_data (tab ! i) = Some h"
  using assms unfolding slots_ok_def by blast

lemma free_slot_sel [simp]: "\<not> vin_use free_slot" "vops free_slot = None" "private_data free_slot = None"
  by (simp_all add: free_slot_def)

lemma slots_ok_free:
  assumes "slots_ok D L tab" and "i < 64" and "\<And>h. private_data (tab ! i) = Some h \<Longrightarrow> vin_use (tab ! i) \<Longrightarrow> L - {h} \<subseteq> L'"
    and "\<not> vin_use (tab ! i) \<Longrightarrow> L \<subseteq> L'"
  shows "slots_ok D L' (tab[i := free_slot])"
proof -
  have "(\<exists>ops \<in> D. vops (tab ! j) = Some ops) \<and> (\<exists>h \<in> L'. private_data (tab ! j) = Some h)"
    if j: "j < 64" "vin_use (tab ! j)" "j \<noteq> i" for j
  proof -
    obtain ops h where oh: "ops \<in> D" "vops (tab ! j) = Some ops" "h \<in> L" "private_data (tab ! j) = Some h"
      using slots_okD [OF assms(1) j(1,2)] .
    have "h \<in> L'"
    proof (cases "vin_use (tab ! i)")
      case True
      obtain g where g: "private_data (tab ! i) = Some g" using slots_okD [OF assms(1,2) True] by metis
      have "private_data (tab ! j) \<noteq> private_data (tab ! i)"
        using assms(1,2) j True unfolding slots_ok_def by blast
      then show ?thesis using assms(3) [OF g True] oh g by auto
    qed (use assms(4) oh in blast)
    then show ?thesis using oh by blast
  qed
  then show ?thesis using assms(1,2) by (simp add: slots_ok_def nth_list_update)
qed

lemma slots_ok_claim:
  assumes "slots_ok D L tab" and "i < 64" and "\<not> vin_use (tab ! i)" and "h \<notin> L"
    and "ops \<in> D" and "vops s = Some ops" and "private_data s = Some h"
  shows "slots_ok D (insert h L) (tab[i := s])"
proof -
  have "private_data (tab ! j) \<noteq> Some h" if "j < 64" "vin_use (tab ! j)" for j
    using slots_okD [OF assms(1) that] assms(4) by (metis option.inject)
  then show ?thesis using assms by (auto simp: slots_ok_def nth_list_update)
qed

lemma tables_ok_cong:
  "vfs_drivers v' = vfs_drivers v \<Longrightarrow> vfs_mounts v' = vfs_mounts v \<Longrightarrow> tables_ok D v' = tables_ok D v"
  by (simp add: tables_ok_def)

lemma upd_slot_sel [simp]:
  "vfs_drivers (upd_slot i f v) = vfs_drivers v" "vfs_mounts (upd_slot i f v) = vfs_mounts v"
  "vfs_fd_table (upd_slot i f v) = (vfs_fd_table v)[i := f (vfs_fd_table v ! i)]"
  "vfs_initialized (upd_slot i f v) = vfs_initialized v"
  by (simp_all add: upd_slot_def)

lemma protected_sel:
  assumes "vfs_protected_access_allowed cur v = (b, v')"
  shows "vfs_drivers v' = vfs_drivers v" "vfs_mounts v' = vfs_mounts v" "vfs_fd_table v' = vfs_fd_table v"
    "vfs_initialized v' = vfs_initialized v"
  using assms by (auto simp: vfs_protected_access_allowed_def split: option.splits if_splits)

lemma vfs_alloc_fd_cases:
  assumes "vfs_alloc_fd cur v = (fd, v')"
  shows "fd < 0 \<and> v' = v \<or>
    (\<exists>i < 64. fd = int i \<and> \<not> vin_use (vfs_fd_table v ! i) \<and> v' = claim_slot (charged_uid cur) i v)"
  using assms
  by (auto simp: vfs_alloc_fd_def Let_def split: if_splits option.splits dest!: find_upt_SomeD simp del: upt_rec_numeral)

lemma drive_upper_range:
  assumes "has_drive path"
  shows "drive_index (drive_upper (path ! 0)) < 26"
  using assms by (auto simp: has_drive_def drive_index_def drive_upper_def less_eq_char_def)

lemma select_driver_ok:
  assumes "tables_ok D v" and "select_driver path v = Inr (Some ops, actual)"
  shows "ops \<in> D"
proof -
  have m: "mounted (vfs_mounts v ! k) \<Longrightarrow> mnt_ops (vfs_mounts v ! k) \<in> Some ` D" if "k < 26" for k
    using assms(1) that by (auto simp: tables_ok_def)
  have "ops \<in> D" if "first_driver v = Some ops"
    using that assms(1) by (auto simp: first_driver_def tables_ok_def split: option.splits
      dest!: find_upt_SomeD simp del: upt_rec_numeral)
  then show ?thesis
    using assms(2) m drive_upper_range [of path] m [of 3]
    by (fastforce simp: select_driver_def Let_def drive_index_def split: if_splits)
qed

lemma select_driver_resolve:
  "vfs_resolve_drive path v = Inr (Some ops, actual) \<longleftrightarrow> select_driver path v = Inr (Some ops, actual)"
  by (auto simp: vfs_resolve_drive_def select_driver_def first_driver_def Let_def split: option.splits)

lemma select_neg: "select_driver p v = Inl e \<Longrightarrow> e < 0" and resolve_neg: "vfs_resolve_drive p v = Inl e \<Longrightarrow> e < 0"
  by (auto simp: select_driver_def vfs_resolve_drive_def Let_def split: if_splits option.splits)

lemma canonicalize_neg: "vfs_canonicalize_path p n = Inl e \<Longrightarrow> e < 0"
  by (auto simp: canonicalize_spec split: if_splits)

lemma open_claimed_cases:
  assumes fail: "\<And>e. e < 0 \<Longrightarrow> P (Some (e, vfs_free_fd fd v, w))"
    and deny: "\<And>v2. vfs_drivers v2 = vfs_drivers v \<Longrightarrow> vfs_mounts v2 = vfs_mounts v \<Longrightarrow>
      vfs_fd_table v2 = vfs_fd_table v \<Longrightarrow> P (Some (VFS_EACCES, vfs_free_fd fd v2, w))"
    and pass: "\<And>ops actual q v2. select_driver p v = Inr (Some ops, actual) \<Longrightarrow>
      vfs_canonicalize_path actual VFS_MAX_PATH = Inr q \<Longrightarrow>
      (flags AND 0x303 \<noteq> 0 \<Longrightarrow> vfs_path_is_protected q \<Longrightarrow> fst (vfs_protected_access_allowed cur v)) \<Longrightarrow>
      vfs_drivers v2 = vfs_drivers v \<Longrightarrow> vfs_mounts v2 = vfs_mounts v \<Longrightarrow>
      vfs_fd_table v2 = vfs_fd_table v \<Longrightarrow> P (open_driver cur p flags fd ops q (v2, w))"
  shows "P (open_claimed cur p flags fd (v, w))"
proof (cases "select_driver p v")
  case (Inr oa)
  then obtain ops actual where oa: "select_driver p v = Inr (ops, actual)" by (cases oa) simp
  show ?thesis
  proof (cases "\<exists>d q. ops = Some d \<and> op_open d \<noteq> None \<and> vfs_canonicalize_path actual VFS_MAX_PATH = Inr q")
    case True
    then obtain d q where d: "ops = Some d" "op_open d \<noteq> None" "vfs_canonicalize_path actual VFS_MAX_PATH = Inr q" by blast
    obtain allowed v2 where g: "(if flags AND 0x303 \<noteq> 0 \<and> vfs_path_is_protected q
        then vfs_protected_access_allowed cur v else (True, v)) = (allowed, v2)" by fastforce
    have v2: "vfs_drivers v2 = vfs_drivers v" "vfs_mounts v2 = vfs_mounts v" "vfs_fd_table v2 = vfs_fd_table v"
      using g protected_sel [of cur v allowed v2] by (auto split: if_splits)
    have "allowed \<Longrightarrow> flags AND 0x303 \<noteq> 0 \<Longrightarrow> vfs_path_is_protected q \<Longrightarrow> fst (vfs_protected_access_allowed cur v)"
      using g by simp
    then have "P (if \<not> allowed then Some (VFS_EACCES, vfs_free_fd fd v2, w) else open_driver cur p flags fd d q (v2, w))"
      using deny [OF v2] pass [OF _ d(3) _ v2, of d] oa d(1) by simp
    then show ?thesis using oa d g by (auto simp: open_claimed_def Option.is_none_def)
  next
    case False
    then show ?thesis
      using oa fail canonicalize_neg [of actual 256]
      by (auto simp: open_claimed_def Option.is_none_def split: option.splits sum.splits)
  qed
qed (use fail select_neg [of p v] in \<open>simp add: open_claimed_def\<close>)

section \<open>Histories of calls\<close>

datatype vfs_op =
    Open "string option" u32
  | Close int
  | Read int bool u32
  | Write int "u8 list option" u32
  | Readdir int bool u32
  | Lseek int u32 int
  | Mkdir "string option"
  | Rmdir "string option"
  | Unlink "string option"
  | Access_dir "string option"
  | Stat "string option"

fun vfs_exec :: "task option \<Rightarrow> vfs_op \<Rightarrow> 'd vfs \<times> 'd \<Rightarrow> ('d vfs \<times> 'd) option" where
  "vfs_exec cur (Open path flags) vw = map_option snd (vfs_open cur path flags vw)"
| "vfs_exec cur (Close fd) vw = map_option snd (vfs_close cur fd vw)"
| "vfs_exec cur (Read fd buf sz) vw = map_option (snd \<circ> snd) (vfs_read cur fd buf sz vw)"
| "vfs_exec cur (Write fd buf sz) vw = map_option snd (vfs_write cur fd buf sz vw)"
| "vfs_exec cur (Readdir fd buf sz) vw = map_option (snd \<circ> snd) (vfs_readdir cur fd buf sz vw)"
| "vfs_exec cur (Lseek fd offset whence) vw = map_option snd (vfs_lseek cur fd offset whence vw)"
| "vfs_exec cur (Mkdir path) vw = map_option snd (vfs_mkdir cur path vw)"
| "vfs_exec cur (Rmdir path) vw = map_option snd (vfs_rmdir cur path vw)"
| "vfs_exec cur (Unlink path) vw = map_option snd (vfs_unlink cur path vw)"
| "vfs_exec cur (Access_dir path) vw = map_option snd (vfs_access_dir cur path vw)"
| "vfs_exec cur (Stat path) vw = map_option (\<lambda>_. vw) (vfs_stat cur path (Some zero_dirent) vw)"

fun vfs_run :: "(task option \<times> vfs_op) list \<Rightarrow> 'd vfs \<times> 'd \<Rightarrow> ('d vfs \<times> 'd) option" where
  "vfs_run [] vw = Some vw"
| "vfs_run ((cur, x) # xs) vw = Option.bind (vfs_exec cur x vw) (vfs_run xs)"

section \<open>The contract of the drivers\<close>

locale driver_world =
  fixes drivers :: "'d file_operations set" and dinv :: "'d \<Rightarrow> bool" and live :: "'d \<Rightarrow> nat set"
  assumes open_law: "ops \<in> drivers \<Longrightarrow> op_open ops = Some f \<Longrightarrow> dinv w \<Longrightarrow>
      wp (f cur path flags w) (\<lambda>(r, pd, w'). dinv w' \<and>
        (if r < 0 then live w' = live w
         else \<exists>h. pd = Some h \<and> h \<notin> live w \<and> live w' = insert h (live w)))"
    and close_law: "ops \<in> drivers \<Longrightarrow> op_close ops = Some g \<Longrightarrow> dinv w \<Longrightarrow> h \<in> live w \<Longrightarrow>
      wp (g cur (Some h) w) (\<lambda>(r, w'). dinv w' \<and> live w' = (if r < 0 then live w else live w - {h}))"
    and read_law: "ops \<in> drivers \<Longrightarrow> op_read ops = Some rd \<Longrightarrow> dinv w \<Longrightarrow> h \<in> live w \<Longrightarrow>
      wp (rd cur (Some h) sz w) (\<lambda>(_, _, w'). dinv w' \<and> live w' = live w)"
    and write_law: "ops \<in> drivers \<Longrightarrow> op_write ops = Some wr \<Longrightarrow> dinv w \<Longrightarrow> h \<in> live w \<Longrightarrow>
      wp (wr cur (Some h) buf sz w) (\<lambda>(_, w'). dinv w' \<and> live w' = live w)"
    and seek_law: "ops \<in> drivers \<Longrightarrow> op_seek ops = Some sk \<Longrightarrow> dinv w \<Longrightarrow> h \<in> live w \<Longrightarrow>
      wp (sk cur (Some h) offset whence w) (\<lambda>(_, w'). dinv w' \<and> live w' = live w)"
    and readdir_law: "ops \<in> drivers \<Longrightarrow> op_readdir ops = Some ls \<Longrightarrow> dinv w \<Longrightarrow> h \<in> live w \<Longrightarrow>
      wp (ls cur (Some h) sz w) (\<lambda>(_, _, w'). dinv w' \<and> live w' = live w)"
    and modify_law: "ops \<in> drivers \<Longrightarrow> m \<in> {op_mkdir, op_rmdir, op_unlink} \<Longrightarrow> m ops = Some md \<Longrightarrow> dinv w \<Longrightarrow>
      wp (md cur path w) (\<lambda>(_, w'). dinv w' \<and> live w' = live w)"
    and stat_law: "ops \<in> drivers \<Longrightarrow> op_stat ops = Some st \<Longrightarrow> dinv w \<Longrightarrow> wp (st cur path out w) (\<lambda>_. True)"
    and access_law: "ops \<in> drivers \<Longrightarrow> op_access_dir ops = Some ac \<Longrightarrow> dinv w \<Longrightarrow> wp (ac cur path w) (\<lambda>_. True)"
begin

abbreviation ok :: "'d vfs \<times> 'd \<Rightarrow> bool" where
  "ok \<equiv> vfs_ok drivers dinv live"

lemma okI:
  "ok (v, w) \<Longrightarrow> dinv w' \<Longrightarrow> live w' = live w \<Longrightarrow> vfs_drivers v' = vfs_drivers v \<Longrightarrow>
   vfs_mounts v' = vfs_mounts v \<Longrightarrow> vfs_fd_table v' = vfs_fd_table v \<Longrightarrow> ok (v', w')"
  using tables_ok_cong [of v' v drivers] by (simp add: vfs_ok_def)

lemma ok_slot:
  assumes "ok (v, w)" and "vfd_ok v fd"
  obtains ops h where "ops \<in> drivers" and "vops (vfs_fd_table v ! nat fd) = Some ops" and "h \<in> live w"
    and "private_data (vfs_fd_table v ! nat fd) = Some h" and "dinv w" and "nat fd < 64"
proof -
  have s: "nat fd < 64" "vin_use (vfs_fd_table v ! nat fd)" using assms(2) by (auto simp: vfd_ok_def)
  have "slots_ok drivers (live w) (vfs_fd_table v)" and i: "dinv w" using assms(1) by (auto simp: vfs_ok_def)
  from slots_okD [OF this(1) s] show thesis using that i s by metis
qed

lemma free_claimed:
  assumes o: "ok (v, w)" and i: "i < 64" "\<not> vin_use (vfs_fd_table v ! i)"
    and v2: "vfs_drivers v2 = vfs_drivers v" "vfs_mounts v2 = vfs_mounts v"
      "vfs_fd_table v2 = vfs_fd_table (claim_slot uid i v)"
    and w': "dinv w'" "live w' = live w"
  shows "ok (vfs_free_fd (int i) v2, w')"
proof -
  have w: "slots_ok drivers (live w) (vfs_fd_table v)" "tables_ok drivers v" using o by (auto simp: vfs_ok_def)
  moreover have "length (vfs_fd_table v) = 64" using w(1) by (simp add: slots_ok_def)
  ultimately show ?thesis
    using i v2 w' slots_ok_free [OF w(1) i(1), of "live w"] tables_ok_cong [of v2 v drivers]
    by (simp add: vfs_ok_def vfs_free_fd_def claim_slot_def tables_ok_def)
qed

lemma open_driver_safe:
  assumes o: "ok (v, w)" and i: "i < 64" "\<not> vin_use (vfs_fd_table v ! i)"
    and v2: "vfs_drivers v2 = vfs_drivers v" "vfs_mounts v2 = vfs_mounts v"
      "vfs_fd_table v2 = vfs_fd_table (claim_slot uid i v)"
    and d: "ops \<in> drivers"
  shows "wp (open_driver cur p flags (int i) ops canonical (v2, w)) (\<lambda>(_, vw). ok vw)"
proof (cases "op_open ops")
  case None
  have "dinv w" using o by (simp add: vfs_ok_def)
  then show ?thesis using None free_claimed [OF o i v2, of w] by (simp add: open_driver_def step_simps)
next
  case (Some f)
  have w: "dinv w" "slots_ok drivers (live w) (vfs_fd_table v)" "tables_ok drivers v"
    using o by (auto simp: vfs_ok_def)
  have len: "length (vfs_fd_table v) = 64" using w(2) by (simp add: slots_ok_def)
  have "ok (upd_slot i (\<lambda>s. s\<lparr>vpath := take 255 p, vflags := flags, vtype := VFS_TYPE_FILE, voffset := 0,
        private_data := Some h, vops := Some ops\<rparr>) v2, w')"
    if "dinv w'" "h \<notin> live w" "live w' = insert h (live w)" for w' h
    using that i v2 len w slots_ok_claim [OF w(2) i that(2) d]
    by (simp add: vfs_ok_def claim_slot_def tables_ok_def)
  then show ?thesis
    using open_law [OF d Some w(1), of cur canonical flags] free_claimed [OF o i v2]
    by (auto simp: open_driver_def Some step_simps split: if_splits elim!: wp_mono)
qed

lemma open_claimed_safe:
  assumes o: "ok (v, w)" and i: "i < 64" "\<not> vin_use (vfs_fd_table v ! i)"
  shows "wp (open_claimed cur p flags (int i) (claim_slot uid i v, w)) (\<lambda>(_, vw). ok vw)"
proof (rule open_claimed_cases)
  let ?v1 = "claim_slot uid i v"
  have w: "dinv w" "tables_ok drivers v" using o by (auto simp: vfs_ok_def)
  have v1: "vfs_drivers ?v1 = vfs_drivers v" "vfs_mounts ?v1 = vfs_mounts v" by (simp_all add: claim_slot_def)
  then have t1: "tables_ok drivers ?v1" using w(2) tables_ok_cong by blast
  note fr = free_claimed [OF o i _ _ _ w(1) refl]
  show "wp (Some (e, vfs_free_fd (int i) ?v1, w)) (\<lambda>(_, vw). ok vw)" for e
    using fr [OF v1 refl] by (simp add: wp_Some)
  fix v2 :: "'d vfs"
  assume v2: "vfs_drivers v2 = vfs_drivers ?v1" "vfs_mounts v2 = vfs_mounts ?v1" "vfs_fd_table v2 = vfs_fd_table ?v1"
  then show "wp (Some (VFS_EACCES, vfs_free_fd (int i) v2, w)) (\<lambda>(_, vw). ok vw)"
    using fr [OF _ _ v2(3)] v1 by (simp add: wp_Some)
  show "wp (open_driver cur p flags (int i) ops q (v2, w)) (\<lambda>(_, vw). ok vw)"
    if "select_driver p ?v1 = Inr (Some ops, actual)" for ops q actual
    using open_driver_safe [OF o i _ _ v2(3) select_driver_ok [OF t1 that]] v1 v2 by simp
qed

lemma open_safe:
  assumes o: "ok (v, w)"
  shows "wp (vfs_open cur path flags (v, w)) (\<lambda>(_, vw). ok vw)"
proof -
  obtain fd v1 where a: "vfs_alloc_fd cur v = (fd, v1)" by fastforce
  show ?thesis
    using vfs_alloc_fd_cases [OF a] a o open_claimed_safe [OF o]
    by (cases path) (auto simp: vfs_open_def step_simps)
qed

lemma close_safe:
  assumes o: "ok (v, w)"
  shows "wp (vfs_close cur fd (v, w)) (\<lambda>(_, vw). ok vw)"
proof (cases "vfd_ok v fd")
  case True
  obtain ops h where d: "ops \<in> drivers" "vops (vfs_fd_table v ! nat fd) = Some ops" "h \<in> live w"
    "private_data (vfs_fd_table v ! nat fd) = Some h" "dinv w" "nat fd < 64"
    using ok_slot [OF o True] .
  have fd: "\<not> fd < 0" "\<not> fd \<ge> 64" using True by (auto simp: vfd_ok_def)
  have t: "tables_ok drivers v" "slots_ok drivers (live w) (vfs_fd_table v)" using o by (auto simp: vfs_ok_def)
  have "ok (vfs_free_fd fd v, w')" if "dinv w'" "live w - {h} \<subseteq> live w'" "vin_use (vfs_fd_table v ! nat fd)" for w'
    using slots_ok_free [OF t(2) d(6), of "live w'"] that d(4) t(1) fd
    by (simp add: vfs_ok_def vfs_free_fd_def tables_ok_def)
  moreover have "vin_use (vfs_fd_table v ! nat fd)" using True by (simp add: vfd_ok_def)
  ultimately have freed: "ok (vfs_free_fd fd v, w')" if "dinv w'" "live w - {h} \<subseteq> live w'" for w' using that by blast
  show ?thesis
  proof (cases "op_close ops")
    case None
    then show ?thesis using True d o freed [of w] by (auto simp: vfs_close_def step_simps)
  next
    case (Some g)
    show ?thesis
      using close_law [OF d(1) Some d(5,3), of cur] True d o Some freed okI [OF o, where v' = v]
      by (auto simp: vfs_close_def step_simps Let_def elim!: wp_mono split: if_splits)
  qed
qed (use o in \<open>simp add: vfs_close_def step_simps\<close>)

lemma read_safe:
  assumes o: "ok (v, w)"
  shows "wp (vfs_read cur fd buf sz (v, w)) (\<lambda>(_, _, vw). ok vw)"
proof (cases "vfd_ok v fd")
  case True
  obtain ops h where d: "ops \<in> drivers" "vops (vfs_fd_table v ! nat fd) = Some ops" "h \<in> live w"
    "private_data (vfs_fd_table v ! nat fd) = Some h" "dinv w"
    using ok_slot [OF o True] .
  have "wp (rd cur (Some h) sz w) (\<lambda>(_, _, w'). ok (v, w'))" if "op_read ops = Some rd" for rd
    using read_law [OF d(1) that d(5,3), of cur sz] okI [OF o, where v' = v] by (auto elim!: wp_mono)
  then show ?thesis
    using True d o by (cases "op_read ops") (simp_all add: vfs_read_def step_simps Let_def split_def)
qed (use o in \<open>simp add: vfs_read_def step_simps\<close>)

lemma readdir_safe:
  assumes o: "ok (v, w)"
  shows "wp (vfs_readdir cur fd buf sz (v, w)) (\<lambda>(_, _, vw). ok vw)"
proof (cases "vfd_ok v fd")
  case True
  obtain ops h where d: "ops \<in> drivers" "vops (vfs_fd_table v ! nat fd) = Some ops" "h \<in> live w"
    "private_data (vfs_fd_table v ! nat fd) = Some h" "dinv w"
    using ok_slot [OF o True] .
  have "wp (ls cur (Some h) sz w) (\<lambda>(_, _, w'). ok (v, w'))" if "op_readdir ops = Some ls" for ls
    using readdir_law [OF d(1) that d(5,3), of cur sz] okI [OF o, where v' = v] by (auto elim!: wp_mono)
  then show ?thesis
    using True d o by (cases "op_readdir ops") (simp_all add: vfs_readdir_def step_simps Let_def split_def)
qed (use o in \<open>simp add: vfs_readdir_def step_simps\<close>)

lemma lseek_safe:
  assumes o: "ok (v, w)"
  shows "wp (vfs_lseek cur fd offset whence (v, w)) (\<lambda>(_, vw). ok vw)"
proof (cases "vfd_ok v fd")
  case True
  obtain ops h where d: "ops \<in> drivers" "vops (vfs_fd_table v ! nat fd) = Some ops" "h \<in> live w"
    "private_data (vfs_fd_table v ! nat fd) = Some h" "dinv w"
    using ok_slot [OF o True] .
  have "wp (sk cur (Some h) offset whence w) (\<lambda>(_, w'). ok (v, w'))" if "op_seek ops = Some sk" for sk
    using seek_law [OF d(1) that d(5,3), of cur offset whence] okI [OF o, where v' = v] by (auto elim!: wp_mono)
  then show ?thesis
    using True d o by (cases "op_seek ops") (simp_all add: vfs_lseek_def step_simps Let_def split_def)
qed (use o in \<open>simp add: vfs_lseek_def step_simps\<close>)

lemma write_safe:
  assumes o: "ok (v, w)"
  shows "wp (vfs_write cur fd buf sz (v, w)) (\<lambda>(_, vw). ok vw)"
proof (cases "vfd_ok v fd")
  case True
  obtain ops h where d: "ops \<in> drivers" "vops (vfs_fd_table v ! nat fd) = Some ops" "h \<in> live w"
    "private_data (vfs_fd_table v ! nat fd) = Some h" "dinv w"
    using ok_slot [OF o True] .
  have wr: "wp (wr cur (Some h) bytes sz w') (\<lambda>(_, w'). ok (v, w'))"
    if "op_write ops = Some wr" "dinv w'" "live w' = live w" for wr bytes w'
    using write_law [OF d(1) that(1,2), of h cur bytes sz] d(3) that(3) okI [OF o, where v' = v]
    by (auto elim!: wp_mono)
  have sk: "wp (sk cur (Some h) 0 2 w) (\<lambda>x. (fst x < 0 \<longrightarrow> ok (v, snd x)) \<and>
      (\<not> fst x < 0 \<longrightarrow> wp (wr cur (Some h) (the buf) sz (snd x)) (\<lambda>x. ok (v, snd x))))"
    if "op_seek ops = Some sk" "op_write ops = Some wr" for sk wr
    by (rule wp_mono [OF seek_law [OF d(1) that(1) d(5,3)]])
      (use wr [OF that(2)] okI [OF o, where v' = v] in \<open>auto simp: split_def\<close>)
  show ?thesis
    using True d o wr [OF _ d(5) refl] sk
    by (cases "op_write ops"; cases "op_seek ops")
      (simp_all add: vfs_write_def step_simps Let_def split_def)
qed (use o in \<open>simp add: vfs_write_def step_simps\<close>)

lemma modify_safe:
  assumes o: "ok (v, w)" and sel: "\<And>ops actual. s = Inr (Some ops, actual) \<Longrightarrow> ops \<in> drivers"
    and m: "m \<in> {op_mkdir, op_rmdir, op_unlink}"
  shows "wp (modify_path cur s m absent (v, w)) (\<lambda>(_, vw). ok vw)"
proof (cases "\<exists>ops actual md canonical. s = Inr (Some ops, actual) \<and> m ops = Some md \<and>
    vfs_canonicalize_path actual VFS_MAX_PATH = Inr canonical")
  case True
  then obtain ops actual md canonical where s: "s = Inr (Some ops, actual)" "m ops = Some md"
    "vfs_canonicalize_path actual VFS_MAX_PATH = Inr canonical" by blast
  obtain allowed v2 where g: "(if vfs_path_is_protected canonical
      then vfs_protected_access_allowed cur v else (True, v)) = (allowed, v2)" by fastforce
  have v2: "vfs_drivers v2 = vfs_drivers v" "vfs_mounts v2 = vfs_mounts v" "vfs_fd_table v2 = vfs_fd_table v"
    using g protected_sel [of cur v allowed v2] by (auto split: if_splits)
  have "dinv w" using o by (simp add: vfs_ok_def)
  note law = modify_law [OF sel [OF s(1)] m s(2) this, of cur canonical]
  have "ok (v2, w)" using okI [OF o \<open>dinv w\<close> refl v2] .
  then show ?thesis
    using s g wp_mono [OF law, of "\<lambda>(_, w'). ok (v2, w')"] okI [OF o _ _ v2]
    by (simp add: modify_path_def wp_Some) (simp add: step_simps split_def)
next
  case False
  then show ?thesis
    using o by (auto simp: modify_path_def step_simps bind_eq_Some_conv split: sum.splits option.splits)
qed

lemma mkdir_safe: "ok (v, w) \<Longrightarrow> wp (vfs_mkdir cur path (v, w)) (\<lambda>(_, vw). ok vw)"
  and rmdir_safe: "ok (v, w) \<Longrightarrow> wp (vfs_rmdir cur path (v, w)) (\<lambda>(_, vw). ok vw)"
  and unlink_safe: "ok (v, w) \<Longrightarrow> wp (vfs_unlink cur path (v, w)) (\<lambda>(_, vw). ok vw)"
proof -
  assume o: "ok (v, w)"
  then have t: "tables_ok drivers v" by (simp add: vfs_ok_def)
  note sel = modify_safe [OF o select_driver_ok [OF t]]
    modify_safe [OF o select_driver_ok [OF t select_driver_resolve [THEN iffD1]]]
  show "wp (vfs_mkdir cur path (v, w)) (\<lambda>(_, vw). ok vw)"
    using o sel(1) by (auto simp: vfs_mkdir_def path_checked_def step_simps split: option.splits)
  show "wp (vfs_rmdir cur path (v, w)) (\<lambda>(_, vw). ok vw)"
    using o sel(1) by (auto simp: vfs_rmdir_def path_checked_def step_simps split: option.splits)
  show "wp (vfs_unlink cur path (v, w)) (\<lambda>(_, vw). ok vw)"
    using o sel(2) by (auto simp: vfs_unlink_def path_checked_def step_simps split: option.splits)
qed

lemma access_dir_safe:
  assumes o: "ok (v, w)"
  shows "wp (vfs_access_dir cur path (v, w)) (\<lambda>(_, vw). ok vw)"
proof -
  have t: "tables_ok drivers v" "dinv w" using o by (auto simp: vfs_ok_def)
  have "wp (ac cur canonical w) (\<lambda>_. ok (v, w))"
    if "vfs_resolve_drive p v = Inr (Some ops, actual)" "op_access_dir ops = Some ac" for p ops actual ac canonical
    using access_law [OF select_driver_ok [OF t(1)] that(2) t(2)] that(1) select_driver_resolve o
    by (metis wp_mono)
  then show ?thesis
    using o by (auto simp: vfs_access_dir_def path_checked_def step_simps split: option.splits sum.splits)
qed

lemma stat_safe:
  assumes o: "ok (v, w)"
  shows "wp (vfs_stat cur path out (v, w)) (\<lambda>_. True)"
proof -
  have t: "tables_ok drivers v" "dinv w" using o by (auto simp: vfs_ok_def)
  have "wp (st cur canonical z w) (\<lambda>_. True)"
    if "vfs_resolve_drive p v = Inr (Some ops, actual)" "op_stat ops = Some st" for p ops actual st canonical z
    using stat_law [OF select_driver_ok [OF t(1)] that(2) t(2)] that(1) select_driver_resolve by metis
  then show ?thesis
    by (auto simp: vfs_stat_def step_simps bind_eq_Some_conv split_def split: option.splits sum.splits)
qed

lemma exec_safe: "ok vw \<Longrightarrow> wp (vfs_exec cur x vw) ok"
proof (cases x)
  case (Stat path)
  then show "ok vw \<Longrightarrow> ?thesis" using stat_safe [of "fst vw" "snd vw" cur path] by (auto simp: step_simps elim: wp_mono)
qed (use open_safe close_safe read_safe write_safe readdir_safe lseek_safe mkdir_safe rmdir_safe unlink_safe
    access_dir_safe in \<open>cases vw; simp add: step_simps split_def comp_def\<close>)+

lemma run_safe: "ok vw \<Longrightarrow> wp (vfs_run xs vw) ok"
proof (induction xs arbitrary: vw)
  case (Cons x xs)
  obtain cur op where x: "x = (cur, op)" by fastforce
  have "wp (vfs_exec cur op vw) (\<lambda>vw'. wp (vfs_run xs vw') ok)"
    by (rule wp_mono [OF exec_safe [OF Cons.prems] Cons.IH])
  then show ?case by (simp add: x step_simps)
qed (simp add: step_simps)

end

end
