(* ===== verification/Ramfs_Vfs_Safe.thy ===== *)
theory Ramfs_Vfs_Safe
  imports Ramfs_Vfs Vfs_Safe
begin

text \<open>
  The RAM file system driver meets the contract of the virtual file system. First, what each
  operation of \<^verbatim>\<open>ramfs.c\<close> leaves of the tree and of the descriptor table, seen through two
  projections: the kind of the node at every address, and which descriptors are in use.
  Then the driver's invariant: a directory handle in the pool refers to a directory that
  exists, a file handle to an open descriptor that no other handle uses.
\<close>

section \<open>What the operations leave alone\<close>

definition kinds :: "ramfs \<Rightarrow> u32 \<rightharpoonup> ramfs_type" where
  "kinds fs = map_option nd_type \<circ> heap fs"

definition used :: "ramfs \<Rightarrow> bool list" where
  "used fs = map in_use (file_descriptors fs)"

definition same :: "ramfs \<Rightarrow> ramfs \<Rightarrow> bool" where
  "same fs fs' \<longleftrightarrow> kinds fs' = kinds fs \<and> used fs' = used fs"

lemma same_refl [simp, frame_rules]: "same fs fs"
  by (simp add: same_def)

lemma same_trans: "same fs fs' \<Longrightarrow> same fs' fs'' \<Longrightarrow> same fs fs''"
  by (simp add: same_def)

lemma same_upd_node: "upd_node p f fs = Some fs' \<Longrightarrow> (\<And>n. nd_type (f n) = nd_type n) \<Longrightarrow> same fs fs'"
  by (auto simp: upd_node_def same_def kinds_def used_def fun_eq_iff)

lemma same_upd_fd: "(\<And>f. in_use (g f) = in_use f) \<Longrightarrow> same fs (upd_fd i g fs)"
  by (cases "i < length (file_descriptors fs)")
    (simp_all add: same_def kinds_def used_def upd_fd_def map_update list_update_same_conv nth_map list_update_beyond)

lemma same_store [simp]: "same fs (fs\<lparr>pages := pg\<rparr>)" "same fs (fs\<lparr>fs_pmm := pm\<rparr>)" "same fs (fs\<lparr>fs_pmm := pm, pages := pg\<rparr>)"
  by (simp_all add: same_def kinds_def used_def)

lemma write_page_same: "wlp (write_page p page fs) (\<lambda>(_, fs'). same fs fs')"
  by (auto simp: write_page_def wlp_rules split_def upd_node_def same_def kinds_def used_def fun_eq_iff)

lemma write_loop_same: "wlp (write_loop p pos i bs fs) (\<lambda>(_, fs'). same fs fs')"
proof (induction bs arbitrary: i fs)
  case (Cons b bs)
  have step: "same fs fs1" if "write_page p page fs = Some (ok, fs1)" for page ok fs1
    using wlpD [OF write_page_same that] by simp
  have "wlp (write_loop p pos (Suc i) bs (fs1\<lparr>pages := pg\<rparr>)) (\<lambda>(_, fs'). same fs fs')"
    if "same fs fs1" for fs1 pg
    by (rule wlp_mono [OF Cons.IH]) (use that in \<open>auto intro: same_trans [OF same_trans [OF that same_store(1)]]\<close>)
  then show ?case by (auto simp: wlp_rules Let_def dest!: step)
qed (simp add: wlp_rules)

lemma ramfs_write_same: "wlp (ramfs_write fd buf count fs) (\<lambda>(_, fs'). same fs fs')"
proof -
  have "same fs fs2" if "write_loop p pos 0 bs fs = Some (i, fs1)"
    "upd_node q g (upd_fd k (\<lambda>f. f\<lparr>fd_pos := fd_pos f + d\<rparr>) fs1) = Some fs2" "\<And>n. nd_type (g n) = nd_type n"
    for p pos bs i fs1 q g k d fs2
    using wlpD [OF write_loop_same that(1)] same_upd_fd [of "\<lambda>f. f\<lparr>fd_pos := fd_pos f + d\<rparr>" fs1 k]
      same_upd_node [OF that(2,3)]
    by (auto intro: same_trans)
  then show ?thesis by (auto simp: ramfs_write_def wlp_rules Let_def split_def)
qed

lemma zero_pages_same: "wlp (zero_pages pgs fs) (same fs)"
proof (induction pgs arbitrary: fs)
  case (Cons pg pgs)
  have "wlp (zero_pages pgs (fs\<lparr>pages := pg'\<rparr>)) (same fs)" for pg'
    by (rule wlp_mono [OF Cons.IH]) (auto intro: same_trans [OF same_store(1)])
  then show ?case using Cons.IH by (simp add: wlp_rules)
qed (simp add: wlp_rules)

lemma ramfs_truncate_same: "wlp (ramfs_truncate fd fs) (\<lambda>(_, fs'). same fs fs')"
proof -
  have "same fs (upd_fd k (\<lambda>f. f\<lparr>fd_pos := 0\<rparr>) fs2)" if "zero_pages pgs fs = Some fs1"
    "upd_node q (\<lambda>n. n\<lparr>nd_size := 0\<rparr>) fs1 = Some fs2" for pgs fs1 q fs2 k
    using wlpD [OF zero_pages_same that(1)] same_upd_fd [of "\<lambda>f. f\<lparr>fd_pos := 0\<rparr>" fs2 k] same_upd_node [OF that(2)]
    by (auto intro: same_trans)
  then show ?thesis by (auto simp: ramfs_truncate_def wlp_rules Let_def)
qed

lemma ramfs_read_same: "wlp (ramfs_read fd count fs) (\<lambda>(_, _, fs'). same fs fs')"
  by (auto simp: ramfs_read_def wlp_rules Let_def intro: same_upd_fd)

lemma ramfs_seek_same: "wlp (ramfs_seek fd offset fs) (\<lambda>(_, fs'). same fs fs')"
  by (auto simp: ramfs_seek_def wlp_rules Let_def intro: same_upd_fd)

lemma unlink_child_same: "wlp (unlink_child par p fs) (\<lambda>r. \<forall>fs'. r = Inr fs' \<longrightarrow> same fs fs')"
proof -
  have count: "same fs fs2" if "same fs fs1" "upd_node par (\<lambda>m. m\<lparr>child_count := child_count m - 1\<rparr>) fs1 = Some fs2"
    for fs1 fs2
    using same_trans [OF that(1)] same_upd_node [OF that(2)] by auto
  have links: "same fs fs1" if "upd_node q (\<lambda>m. m\<lparr>nd_children := c\<rparr>) fs = Some fs1 \<or>
      upd_node q (\<lambda>m. m\<lparr>nd_next := c\<rparr>) fs = Some fs1" for q c fs1
    using that same_upd_node by fastforce
  have "same fs b" if "(if nd_children x = p then map_option Inr (upd_node par (\<lambda>m. m\<lparr>nd_children := nd_next n\<rparr>) fs)
      else Option.bind r (case_sum (\<lambda>_. Some (Inl ())) (\<lambda>prev. if prev \<noteq> 0
        then map_option Inr (upd_node prev (\<lambda>m. m\<lparr>nd_next := nd_next n\<rparr>) fs) else Some (Inr fs)))) =
      Some (Inr b :: unit + ramfs)" for x n b and r :: "(unit + u32) option"
  proof (cases r)
    case (Some y)
    then show ?thesis using that links by (cases y) (auto split: if_splits)
  qed (use that links in \<open>auto split: if_splits\<close>)
  then show ?thesis
    unfolding unlink_child_def wlp_rules using count by blast
qed

lemma free_pages_same: "same fs (free_pages pgs fs)"
proof (induction pgs arbitrary: fs)
  case (Cons pg pgs)
  then show ?case
    by (auto simp: same_def kinds_def used_def)
qed simp

lemma free_node_kinds:
  "wlp (free_node p fs) (\<lambda>fs'. (\<forall>q. q \<noteq> p \<longrightarrow> kinds fs' q = kinds fs q) \<and> used fs' = used fs)"
  using free_pages_same [of fs] by (auto simp: free_node_def wlp_rules Let_def same_def kinds_def used_def fun_eq_iff)

definition grows :: "ramfs \<Rightarrow> ramfs \<Rightarrow> bool" where
  "grows fs fs' \<longleftrightarrow> kinds fs \<subseteq>\<^sub>m kinds fs' \<and> used fs' = used fs"

lemma same_grows: "same fs fs' \<Longrightarrow> grows fs fs'"
  by (simp add: same_def grows_def)

lemma create_grows:
  assumes inv: "ramfs_inv fs" and a: "alloc_node nm ty uid gid fs = (p, fs1)" and p: "p \<noteq> 0"
    and l: "link_child par p fs1 = Some fs'"
  shows "grows fs fs'"
proof -
  obtain pm where fs1: "fs1 = fs\<lparr>heap := (heap fs)(p \<mapsto> new_node nm ty uid gid),
      total_nodes := total_nodes fs + 1, fs_pmm := pm\<rparr>" and fresh: "p \<notin> dom (heap fs)"
    using alloc_node_takes [OF ramfs_invD(3) [OF inv] a p] by metis
  have "kinds fs \<subseteq>\<^sub>m kinds fs1" and "used fs1 = used fs"
    using fresh by (auto simp: fs1 kinds_def used_def map_le_def dom_def)
  moreover have "same fs1 fs'"
    using l by (auto simp: link_child_def bind_eq_Some_conv intro: same_trans dest!: same_upd_node)
  ultimately show ?thesis by (simp add: grows_def same_def)
qed

lemma ramfs_mkdir_grows:
  assumes inv: "ramfs_inv fs"
  shows "wlp (ramfs_mkdir cur path fs) (\<lambda>(_, fs'). grows fs fs')"
proof -
  have "grows fs fs'" if "ramfs_mkdir cur path fs = Some (e, fs')" for e fs'
    using ramfs_mkdir_cases [OF inv that] create_grows [OF inv] same_grows by (metis same_refl)
  then show ?thesis by (auto simp: wlp_def)
qed

lemma open_create_grows:
  assumes inv: "ramfs_inv fs"
  shows "wlp (open_create cur path fs) (\<lambda>(_, fs'). grows fs fs')"
proof -
  have "grows fs fs'" if "alloc_node nm ty uid gid fs = (p, fs')" "p = 0" for nm ty uid gid p fs'
    using alloc_node_fails [OF pmm_inv_of [OF inv]] that same_grows by (metis same_refl)
  moreover have "grows fs fs" by (simp add: same_grows)
  ultimately show ?thesis
    using create_grows [OF inv]
    by (auto simp: open_create_def wlp_rules split: prod.splits)
qed

lemma open_node_used:
  assumes inv: "ramfs_inv fs"
  shows "wlp (open_node cur nd flags fs) (\<lambda>(fd, fs'). kinds fs' = kinds fs \<and>
    (if fd < 0 then used fs' = used fs
     else nat fd < 16 \<and> \<not> used fs ! nat fd \<and> used fs' = (used fs)[nat fd := True]))"
proof -
  have len: "length (file_descriptors fs) = 16" by (rule fds_okD(1) [OF ramfs_invD(5) [OF inv]])
  then show ?thesis
    using ramfs_pick_fd_slot [of cur fs]
    by (auto simp: open_node_def wlp_rules Let_def upd_fd_def kinds_def used_def map_update)
qed

lemma ramfs_open_used:
  assumes inv: "ramfs_inv fs"
  shows "wlp (ramfs_open cur path flags fs) (\<lambda>(fd, fs'). kinds fs \<subseteq>\<^sub>m kinds fs' \<and>
    (if fd < 0 then used fs' = used fs
     else nat fd < 16 \<and> \<not> used fs ! nat fd \<and> used fs' = (used fs)[nat fd := True]))"
proof -
  have early: "e < 0" if "open_create cur path fs = Some (Inl e, fs1)" for e fs1
    using wlpD [OF open_create_errors that] by simp
  have inv1: "ramfs_inv fs1" and gr: "kinds fs \<subseteq>\<^sub>m kinds fs1" "used fs1 = used fs"
    if "open_create cur path fs = Some (r, fs1)" for r fs1
    using open_create_safe [OF inv, of cur path] wlpD [OF open_create_grows [OF inv] that] that
    by (auto simp: step_simps grows_def)
  have node: "kinds fs \<subseteq>\<^sub>m kinds fs2 \<and> (if fd < 0 then used fs2 = used fs
      else nat fd < 16 \<and> \<not> used fs ! nat fd \<and> used fs2 = (used fs)[nat fd := True])"
    if "ramfs_inv fs1" "kinds fs \<subseteq>\<^sub>m kinds fs1" "used fs1 = used fs" "open_node cur nd flags fs1 = Some (fd, fs2)"
    for fs1 nd fd fs2
    using wlpD [OF open_node_used [OF that(1)] that(4)] that(2,3) by auto
  have "wlp (open_node cur nd flags fs1) (\<lambda>(fd, fs'). kinds fs \<subseteq>\<^sub>m kinds fs' \<and>
      (if fd < 0 then used fs' = used fs
       else nat fd < 16 \<and> \<not> used fs ! nat fd \<and> used fs' = (used fs)[nat fd := True]))"
    if "ramfs_inv fs1" "kinds fs \<subseteq>\<^sub>m kinds fs1" "used fs1 = used fs" for fs1 nd
    using node [OF that] by (auto simp: wlp_def)
  then show ?thesis
    using early inv1 gr inv by (auto simp: ramfs_open_def Let_def wlp_rules)
qed

lemma ramfs_close_used:
  "kinds (ramfs_close fd fs) = kinds fs" 
  "j \<noteq> nat fd \<Longrightarrow> used (ramfs_close fd fs) ! j = used fs ! j"
  "length (used (ramfs_close fd fs)) = length (used fs)"
  by (auto simp: ramfs_close_def kinds_def used_def upd_fd_def Let_def map_update)

section \<open>The invariant of the driver\<close>

definition file_handle :: "ramfs_fd_handle \<Rightarrow> bool" where
  "file_handle h \<longleftrightarrow> hin_use h \<and> \<not> is_dir h"

definition handle_ok :: "(u32 \<rightharpoonup> ramfs_type) \<Rightarrow> bool list \<Rightarrow> ramfs_fd_handle \<Rightarrow> bool" where
  "handle_ok K U h \<longleftrightarrow>
     (hin_use h \<and> is_dir h \<longrightarrow> K (dir_node h) = Some RAMFS_TYPE_DIR) \<and>
     (file_handle h \<longrightarrow> 0 \<le> ramfs_fd h \<and> nat (ramfs_fd h) < RAMFS_MAX_FDS \<and> U ! nat (ramfs_fd h))"

definition pool_ok :: "(u32 \<rightharpoonup> ramfs_type) \<Rightarrow> bool list \<Rightarrow> ramfs_fd_handle list \<Rightarrow> bool" where
  "pool_ok K U pool \<longleftrightarrow> length pool = RAMFS_VFS_MAX_HANDLES \<and>
     (\<forall>i < RAMFS_VFS_MAX_HANDLES. handle_ok K U (pool ! i)) \<and>
     (\<forall>i < RAMFS_VFS_MAX_HANDLES. \<forall>j < RAMFS_VFS_MAX_HANDLES. i \<noteq> j \<longrightarrow> file_handle (pool ! i) \<longrightarrow>
        file_handle (pool ! j) \<longrightarrow> ramfs_fd (pool ! i) \<noteq> ramfs_fd (pool ! j))"

definition rv_inv :: "ramfs_vfs \<Rightarrow> bool" where
  "rv_inv w \<longleftrightarrow> ramfs_inv (rfs w) \<and> busy_hook w \<and> pool_ok (kinds (rfs w)) (used (rfs w)) (handle_pool w)"

definition rv_live :: "ramfs_vfs \<Rightarrow> nat set" where
  "rv_live w = {i. i < RAMFS_VFS_MAX_HANDLES \<and> hin_use (handle_pool w ! i)}"

lemma rv_live_rfs [simp]: "rv_live (w\<lparr>rfs := fs\<rparr>) = rv_live w"
  by (simp add: rv_live_def)

lemma pool_ok_mono:
  "pool_ok K U pool \<Longrightarrow> K \<subseteq>\<^sub>m K' \<Longrightarrow> (\<And>j. j < 16 \<Longrightarrow> U ! j \<Longrightarrow> U' ! j) \<Longrightarrow> pool_ok K' U' pool"
proof -
  assume a: "K \<subseteq>\<^sub>m K'" "\<And>j. j < 16 \<Longrightarrow> U ! j \<Longrightarrow> U' ! j"
  have "K' p = Some t" if "K p = Some t" for p t using a(1) that by (metis domI map_le_def)
  with a(2) have "handle_ok K U h \<Longrightarrow> handle_ok K' U' h" for h by (auto simp: handle_ok_def)
  then show "pool_ok K U pool \<Longrightarrow> pool_ok K' U' pool" by (simp add: pool_ok_def)
qed

lemma pool_ok_put:
  assumes "pool_ok K U pool" and "i < 64" and "handle_ok K U h"
    and "file_handle h \<Longrightarrow> \<forall>j < 64. j \<noteq> i \<longrightarrow> file_handle (pool ! j) \<longrightarrow> ramfs_fd (pool ! j) \<noteq> ramfs_fd h"
  shows "pool_ok K U (pool[i := h])"
  using assms by (auto simp: pool_ok_def nth_list_update)

lemma rv_inv_same:
  assumes "rv_inv w" and "ramfs_inv fs" and "same (rfs w) fs"
  shows "rv_inv (w\<lparr>rfs := fs\<rparr>)"
  using assms by (simp add: rv_inv_def same_def)

lemma ramfs_alloc_handle_cases:
  assumes "ramfs_alloc_handle fd w = (pd, w')"
  shows "pd = None \<and> w' = w \<or> (\<exists>i < 64. pd = Some i \<and> \<not> hin_use (handle_pool w ! i) \<and>
    w' = w\<lparr>handle_pool := (handle_pool w)[i := \<lparr>ramfs_fd = fd, hin_use = True, is_dir = False, dir_node = 0, dir_pos = 0\<rparr>]\<rparr>)"
proof (cases "find (\<lambda>i. \<not> hin_use (handle_pool w ! i)) [0..<64]")
  case None
  then show ?thesis using assms by (simp add: ramfs_alloc_handle_def del: upt_rec_numeral)
next
  case (Some i)
  then show ?thesis using assms find_upt_SomeD [OF Some]
    by (auto simp: ramfs_alloc_handle_def upd_handle_def simp del: upt_rec_numeral)
qed

section \<open>The operations keep it\<close>

lemma rv_find:
  assumes "rv_inv w"
  obtains p where "ramfs_find cur (rfs w) path = Some p" and "p \<noteq> 0 \<Longrightarrow> \<exists>n. heap (rfs w) p = Some n"
proof -
  have "ramfs_inv (rfs w)" using assms by (simp add: rv_inv_def)
  from inv_lookup [OF this, of cur path True] show thesis
    using that by (metis ramfs_find_def ramfs_find_locked_def)
qed

definition opened :: "ramfs_vfs \<Rightarrow> int \<times> ptr \<times> ramfs_vfs \<Rightarrow> bool" where
  \<comment> \<open>what the contract asks of \<open>open\<close>\<close>
  "opened w = (\<lambda>(r, pd, w'). rv_inv w' \<and>
     (if r < 0 then rv_live w' = rv_live w
      else \<exists>h. pd = Some h \<and> h \<notin> rv_live w \<and> rv_live w' = insert h (rv_live w)))"

lemma put_handle:
  assumes "rv_inv w" and "i < 64" and "\<not> hin_use (handle_pool w ! i)" and "hin_use h"
    and "handle_ok (kinds (rfs w)) (used (rfs w)) h"
    and "file_handle h \<Longrightarrow> \<forall>j < 64. j \<noteq> i \<longrightarrow> file_handle (handle_pool w ! j) \<longrightarrow> ramfs_fd (handle_pool w ! j) \<noteq> ramfs_fd h"
  shows "opened w (0, Some i, w\<lparr>handle_pool := (handle_pool w)[i := h]\<rparr>)"
proof -
  have pl: "pool_ok (kinds (rfs w)) (used (rfs w)) (handle_pool w)" using assms(1) by (simp add: rv_inv_def)
  have "length (handle_pool w) = 64" using pl by (simp add: pool_ok_def)
  then show ?thesis
    using assms(1-4) pool_ok_put [OF pl assms(2,5,6)]
    by (auto simp: opened_def rv_inv_def rv_live_def nth_list_update split: if_splits)
qed

lemma open_dir_safe:
  assumes inv: "rv_inv w" and dir: "flags AND VFS_O_DIRECTORY \<noteq> 0"
  shows "wp (ramfs_vfs_open cur path flags w) (opened w)"
proof -
  obtain p where p: "ramfs_find cur (rfs w) path = Some p" "p \<noteq> 0 \<Longrightarrow> \<exists>n. heap (rfs w) p = Some n"
    using rv_find [OF inv, of cur path] by blast
  have refuse: "opened w (e, None, w)" if "e < 0" for e using inv that by (simp add: opened_def)
  show ?thesis
  proof (cases "p = 0")
    case False
    then obtain n where n: "heap (rfs w) p = Some n" using p(2) by blast
    obtain pd w1 where a: "ramfs_alloc_handle (-1) w = (pd, w1)" by fastforce
    show ?thesis
    proof (cases "nd_type n = RAMFS_TYPE_DIR \<and> permitted cur n RAMFS_FLAG_READ \<and> pd \<noteq> None")
      case True
      then obtain i where i: "i < 64" "pd = Some i" "\<not> hin_use (handle_pool w ! i)"
        "w1 = w\<lparr>handle_pool := (handle_pool w)[i := \<lparr>ramfs_fd = -1, hin_use = True, is_dir = False, dir_node = 0, dir_pos = 0\<rparr>]\<rparr>"
        using ramfs_alloc_handle_cases [OF a] by auto
      have len: "length (handle_pool w) = 64" using inv by (simp add: rv_inv_def pool_ok_def)
      have "opened w (0, Some i, w\<lparr>handle_pool := (handle_pool w)[i :=
          \<lparr>ramfs_fd = -1, hin_use = True, is_dir = True, dir_node = p, dir_pos = 0\<rparr>]\<rparr>)"
        using n True by (intro put_handle [OF inv i(1,3)]) (simp_all add: handle_ok_def file_handle_def kinds_def)
      then show ?thesis
        using dir p(1) False n True a i len by (simp add: ramfs_vfs_open_def step_simps upd_handle_def)
    next
      case False
      then show ?thesis
        using dir p(1) \<open>p \<noteq> 0\<close> n a refuse ramfs_alloc_handle_cases [OF a]
        by (auto simp: ramfs_vfs_open_def step_simps split: option.splits)
    qed
  qed (use dir p refuse in \<open>simp add: ramfs_vfs_open_def step_simps\<close>)
qed

lemma open_error_neg: "fd < 0 \<Longrightarrow> open_error fd < 0"
  by (simp add: open_error_def)

lemma open_file_safe:
  assumes inv: "rv_inv w" and dir: "flags AND VFS_O_DIRECTORY = 0"
  shows "wp (ramfs_vfs_open cur path flags w) (opened w)"
proof -
  have iv: "ramfs_inv (rfs w)" "busy_hook w" and pl: "pool_ok (kinds (rfs w)) (used (rfs w)) (handle_pool w)"
    using inv by (simp_all add: rv_inv_def)
  obtain fd fs where o: "ramfs_open cur path (ramfs_flags_of flags) (rfs w) = Some (fd, fs)" "ramfs_inv fs"
    using ramfs_open_safe [OF iv(1), of cur path "ramfs_flags_of flags"] by (auto simp: wp_iff)
  note u = wlpD [OF ramfs_open_used [OF iv(1)] o(1), simplified]
  have len: "length (used (rfs w)) = 16" using fds_okD(1) [OF ramfs_invD(5) [OF iv(1)]] by (simp add: used_def)
  have keep: "used fs ! j" if "j < 16" "used (rfs w) ! j" for j
    using u that len by (auto split: if_splits simp: nth_list_update)
  let ?w = "w\<lparr>rfs := fs\<rparr>"
  have inv1: "rv_inv ?w" using iv o(2) pool_ok_mono [OF pl] u keep by (auto simp: rv_inv_def)
  show ?thesis
  proof (cases "fd < 0")
    case True
    then show ?thesis using dir o inv1 open_error_neg by (simp add: ramfs_vfs_open_def step_simps opened_def)
  next
    case False
    then have fd: "0 \<le> fd" "nat fd < 16" "\<not> used (rfs w) ! nat fd" "used fs ! nat fd" using u len by auto
    obtain r fs2 where t: "flags AND VFS_O_TRUNC \<noteq> 0 \<Longrightarrow> ramfs_truncate fd fs = Some (r, fs2)"
        "flags AND VFS_O_TRUNC = 0 \<Longrightarrow> fs2 = fs" and s: "ramfs_inv fs2" "same fs fs2"
    proof (cases "flags AND VFS_O_TRUNC \<noteq> 0")
      case True
      obtain r fs2 where r: "ramfs_truncate fd fs = Some (r, fs2)" "ramfs_inv fs2"
        using ramfs_truncate_safe [OF o(2), of fd] by (auto simp: wp_iff)
      have "same fs fs2" using wlpD [OF ramfs_truncate_same r(1)] by simp
      then show ?thesis using that [of r fs2] True r by simp
    qed (use that [of 0 fs] o(2) in simp)
    have inv2: "rv_inv (w\<lparr>rfs := fs2\<rparr>)" using rv_inv_same [OF inv1, of fs2] s by simp
    obtain pd w3 where a: "ramfs_alloc_handle fd (w\<lparr>rfs := fs2\<rparr>) = (pd, w3)" by fastforce
    consider "pd = None" "w3 = w\<lparr>rfs := fs2\<rparr>" | i where "i < 64" "pd = Some i" "\<not> hin_use (handle_pool w ! i)"
      "w3 = w\<lparr>rfs := fs2, handle_pool := (handle_pool w)[i :=
         \<lparr>ramfs_fd = fd, hin_use = True, is_dir = False, dir_node = 0, dir_pos = 0\<rparr>]\<rparr>"
      using ramfs_alloc_handle_cases [OF a] by auto
    then show ?thesis
    proof cases
      case 1
      have "used (ramfs_close fd fs2) ! j" if "j < 16" "used (rfs w) ! j" for j
        using ramfs_close_used(2) [of j fd fs2] keep [OF that] that fd s(2) by (auto simp: same_def)
      then have "pool_ok (kinds (ramfs_close fd fs2)) (used (ramfs_close fd fs2)) (handle_pool w)"
        using u s(2) by (intro pool_ok_mono [OF pl]) (simp_all add: ramfs_close_used same_def)
      then have "rv_inv (w\<lparr>rfs := ramfs_close fd fs2\<rparr>)"
        using ramfs_close_safe [OF s(1)] iv(2) by (simp add: rv_inv_def)
      then show ?thesis
        using dir o False t a 1
        by (cases "flags AND VFS_O_TRUNC = 0") (simp_all add: ramfs_vfs_open_def Let_def wp_Some opened_def)
    next
      case 2
      have "used (rfs w) ! nat (ramfs_fd (handle_pool w ! j))" if "j < 64" "file_handle (handle_pool w ! j)" for j
        using pl that by (auto simp: pool_ok_def handle_ok_def)
      then have "\<forall>j < 64. j \<noteq> i \<longrightarrow> file_handle (handle_pool w ! j) \<longrightarrow> ramfs_fd (handle_pool w ! j) \<noteq> fd"
        using fd(3) by metis
      then have "opened (w\<lparr>rfs := fs2\<rparr>) (0, Some i, w3)"
        using put_handle [OF inv2, of i "\<lparr>ramfs_fd = fd, hin_use = True, is_dir = False, dir_node = 0, dir_pos = 0\<rparr>"]
          2 fd s(2) by (simp add: handle_ok_def same_def)
      then show ?thesis
        using dir o False t a 2
        by (cases "flags AND VFS_O_TRUNC = 0") (simp_all add: ramfs_vfs_open_def Let_def wp_Some opened_def)
    qed
  qed
qed

lemma rv_close_safe:
  assumes inv: "rv_inv w" and h: "h \<in> rv_live w"
  shows "wp (ramfs_vfs_close cur (Some h) w) (\<lambda>(r, w'). rv_inv w' \<and>
    rv_live w' = (if r < 0 then rv_live w else rv_live w - {h}))"
proof -
  let ?h = "handle_pool w ! h" and ?blank = "\<lparr>ramfs_fd = -1, hin_use = False, is_dir = False, dir_node = 0, dir_pos = 0\<rparr>"
  have hh: "h < 64" "hin_use ?h" using h by (auto simp: rv_live_def)
  have iv: "ramfs_inv (rfs w)" "busy_hook w" and pl: "pool_ok (kinds (rfs w)) (used (rfs w)) (handle_pool w)"
    using inv by (simp_all add: rv_inv_def)
  have len: "length (handle_pool w) = 64" using pl by (simp add: pool_ok_def)
  let ?fs = "if is_dir ?h then rfs w else ramfs_close (ramfs_fd ?h) (rfs w)"
  have "handle_ok (kinds ?fs) (used ?fs) (handle_pool w ! j)" if j: "j < 64" "j \<noteq> h" for j
  proof -
    have ok: "handle_ok (kinds (rfs w)) (used (rfs w)) (handle_pool w ! j)"
      "handle_ok (kinds (rfs w)) (used (rfs w)) ?h" using pl j hh by (auto simp: pool_ok_def)
    have "nat (ramfs_fd (handle_pool w ! j)) \<noteq> nat (ramfs_fd ?h)" if "file_handle (handle_pool w ! j)" "\<not> is_dir ?h"
    proof -
      have "file_handle ?h" using that hh by (simp add: file_handle_def)
      then have "ramfs_fd (handle_pool w ! j) \<noteq> ramfs_fd ?h" and "0 \<le> ramfs_fd ?h" "0 \<le> ramfs_fd (handle_pool w ! j)"
        using pl j hh(1) that(1) ok by (simp_all add: pool_ok_def handle_ok_def)
      then show ?thesis by linarith
    qed
    then show ?thesis using ok(1) by (auto simp: handle_ok_def ramfs_close_used)
  qed
  then have "pool_ok (kinds ?fs) (used ?fs) ((handle_pool w)[h := ?blank])"
    using pl hh(1) by (auto simp: pool_ok_def nth_list_update handle_ok_def file_handle_def)
  moreover have "ramfs_inv ?fs" using iv(1) ramfs_close_safe by simp
  ultimately show ?thesis
    using iv(2) hh len
    by (auto simp: ramfs_vfs_close_def Let_def step_simps ramfs_free_handle_def upd_handle_def rv_inv_def
        rv_live_def nth_list_update)
qed

lemma rv_read_safe:
  assumes inv: "rv_inv w"
  shows "wp (ramfs_vfs_read cur (Some h) sz w) (\<lambda>(_, _, w'). rv_inv w' \<and> rv_live w' = rv_live w)"
proof -
  have "ramfs_inv (rfs w)" using inv by (simp add: rv_inv_def)
  note law = wp_wlp [OF ramfs_read_safe [OF this] ramfs_read_same]
  show ?thesis
    unfolding ramfs_vfs_read_def option.case wp_bind
    by (rule law) (use rv_inv_same [OF inv] in \<open>auto simp: step_simps\<close>)
qed

lemma rv_write_safe:
  assumes inv: "rv_inv w"
  shows "wp (ramfs_vfs_write cur (Some h) buf sz w) (\<lambda>(_, w'). rv_inv w' \<and> rv_live w' = rv_live w)"
proof -
  have "ramfs_inv (rfs w)" using inv by (simp add: rv_inv_def)
  note law = wp_wlp [OF ramfs_write_safe [OF this] ramfs_write_same]
  show ?thesis
    unfolding ramfs_vfs_write_def option.case wp_bind
    by (rule law) (use rv_inv_same [OF inv] in \<open>auto simp: step_simps\<close>)
qed

lemma rv_seek_safe:
  assumes inv: "rv_inv w"
  shows "wp (ramfs_vfs_seek cur (Some h) offset whence w) (\<lambda>(_, w'). rv_inv w' \<and> rv_live w' = rv_live w)"
proof -
  have iv: "ramfs_inv (rfs w)" using inv by (simp add: rv_inv_def)
  have sk: "wp (ramfs_seek fd t (rfs w)) (\<lambda>x. rv_inv (w\<lparr>rfs := snd x\<rparr>))" for fd t
    by (rule wp_wlp [OF ramfs_seek_safe [OF iv] ramfs_seek_same]) (use rv_inv_same [OF inv] in auto)
  obtain e where "ramfs_fd_size (ramfs_fd (handle_pool w ! h)) (rfs w) = Some e" using ramfs_fd_size_safe [OF iv] by blast
  then show ?thesis
    using inv sk by (simp add: ramfs_vfs_seek_def Let_def step_simps split_def)
qed

lemma rv_inv_pos:
  assumes inv: "rv_inv w"
  shows "rv_inv (upd_handle i (\<lambda>h. h\<lparr>dir_pos := d h\<rparr>) w)" "rv_live (upd_handle i (\<lambda>h. h\<lparr>dir_pos := d h\<rparr>) w) = rv_live w"
proof -
  let ?h = "(handle_pool w ! i)\<lparr>dir_pos := d (handle_pool w ! i)\<rparr>"
  have pl: "pool_ok (kinds (rfs w)) (used (rfs w)) (handle_pool w)" using inv by (simp add: rv_inv_def)
  then have len: "length (handle_pool w) = 64" by (simp add: pool_ok_def)
  show "rv_inv (upd_handle i (\<lambda>h. h\<lparr>dir_pos := d h\<rparr>) w)"
  proof (cases "i < 64")
    case True
    then have "pool_ok (kinds (rfs w)) (used (rfs w)) ((handle_pool w)[i := ?h])"
      using pl by (intro pool_ok_put) (auto simp: pool_ok_def handle_ok_def file_handle_def)
    then show ?thesis using inv by (simp add: rv_inv_def upd_handle_def)
  qed (use inv len in \<open>simp add: rv_inv_def upd_handle_def list_update_beyond\<close>)
  show "rv_live (upd_handle i (\<lambda>h. h\<lparr>dir_pos := d h\<rparr>) w) = rv_live w"
    using len by (cases "i < 64") (auto simp: rv_live_def upd_handle_def nth_list_update list_update_beyond split: if_splits)
qed

lemma skip_children_chain:
  "chain (heap fs) c xs \<Longrightarrow> \<exists>c'. skip_children fs k c = Some c' \<and> chain (heap fs) c' (drop k xs)"
proof (induction k arbitrary: c xs)
  case (Suc k)
  then show ?case by (cases xs) (auto split: option.splits)
qed auto

lemma fill_dirents_chain:
  "chain (heap fs) c xs \<Longrightarrow>
   fill_dirents fs k c = Some (map (\<lambda>x. dirent_of (the (heap fs x))) (take k xs))"
proof (induction k arbitrary: c xs)
  case (Suc k)
  then show ?case by (cases xs) (auto split: option.splits)
qed auto

lemma rv_readdir_safe:
  assumes inv: "rv_inv w" and h: "h \<in> rv_live w"
  shows "wp (ramfs_vfs_readdir cur (Some h) sz w) (\<lambda>(_, _, w'). rv_inv w' \<and> rv_live w' = rv_live w)"
proof (cases "is_dir (handle_pool w ! h)")
  case True
  have "handle_ok (kinds (rfs w)) (used (rfs w)) (handle_pool w ! h)" "hin_use (handle_pool w ! h)"
    using inv h by (auto simp: rv_inv_def pool_ok_def rv_live_def)
  then obtain n where n: "heap (rfs w) (dir_node (handle_pool w ! h)) = Some n"
    using True by (auto simp: handle_ok_def kinds_def)
  obtain K D where t: "tree_ok K D (fs_root (rfs w)) (heap (rfs w))"
    using ramfs_invD(2) [of "rfs w"] inv unfolding rv_inv_def by blast
  obtain c ys where c: "skip_children (rfs w) (unat (dir_pos (handle_pool w ! h))) (nd_children n) = Some c"
    "chain (heap (rfs w)) c ys"
    using skip_children_chain [OF dir_okD(1) [OF tree_okD(4) [OF t n]]] by blast
  have "\<exists>es. fill_dirents (rfs w) (unat sz div 72) c = Some es"
    using fill_dirents_chain [OF c(2)] by blast
  then show ?thesis
    using inv n c(1) rv_inv_pos [OF inv] by (auto simp: ramfs_vfs_readdir_def Let_def step_simps)
qed (use inv in \<open>simp add: ramfs_vfs_readdir_def Let_def step_simps\<close>)

lemma rv_mkdir_safe:
  assumes inv: "rv_inv w"
  shows "wp (ramfs_vfs_mkdir cur path w) (\<lambda>(_, w'). rv_inv w' \<and> rv_live w' = rv_live w)"
proof -
  have iv: "ramfs_inv (rfs w)" using inv by (simp add: rv_inv_def)
  have "rv_inv (w\<lparr>rfs := fs\<rparr>)" if "ramfs_inv fs" "grows (rfs w) fs" for fs
    using inv that pool_ok_mono [of "kinds (rfs w)" "used (rfs w)" "handle_pool w" "kinds fs" "used fs"]
    by (simp add: rv_inv_def grows_def)
  then show ?thesis
    unfolding ramfs_vfs_mkdir_def wp_bind
    by (intro wp_wlp [OF ramfs_mkdir_safe [OF iv] ramfs_mkdir_grows [OF iv]]) (auto simp: step_simps)
qed

lemma removed_pool_ok:
  assumes inv: "rv_inv w" and idle: "\<not> ramfs_node_is_busy (hook_of w) (rfs w) p" and p: "p \<noteq> 0"
    and u: "unlink_child par p (rfs w) = Some (Inr fs1)" "free_node p fs1 = Some fs2" and inv2: "ramfs_inv fs2"
  shows "rv_inv (w\<lparr>rfs := fs2\<rparr>)"
proof -
  have pl: "pool_ok (kinds (rfs w)) (used (rfs w)) (handle_pool w)" and hook: "busy_hook w"
    using inv by (simp_all add: rv_inv_def)
  have "same (rfs w) fs1" using wlpD [OF unlink_child_same u(1)] by simp
  then have k: "q \<noteq> p \<Longrightarrow> kinds fs2 q = kinds (rfs w) q" "used fs2 = used (rfs w)" for q
    using wlpD [OF free_node_kinds u(2)] by (auto simp: same_def)
  have "dir_node (handle_pool w ! i) \<noteq> p" if "i < 64" "hin_use (handle_pool w ! i)" "is_dir (handle_pool w ! i)" for i
    using idle p that hook pl
    by (auto simp: ramfs_node_is_busy_def hook_of_def ramfs_vfs_node_busy_def list_ex_iff pool_ok_def)
  then have "pool_ok (kinds fs2) (used fs2) (handle_pool w)"
    using pl k by (auto simp: pool_ok_def handle_ok_def)
  then show ?thesis using hook inv2 by (simp add: rv_inv_def)
qed

lemma rv_unlink_safe:
  assumes inv: "rv_inv w"
  shows "wp (ramfs_vfs_unlink cur path w) (\<lambda>(_, w'). rv_inv w' \<and> rv_live w' = rv_live w)"
proof -
  have iv: "ramfs_inv (rfs w)" using inv by (simp add: rv_inv_def)
  have nz: "p \<noteq> 0" if "heap (rfs w) p = Some n" for p n using inv_heap_0 [OF iv] that by auto
  show ?thesis
    unfolding ramfs_vfs_unlink_def wp_bind
    by (rule wp_wlp [OF ramfs_unlink_safe [OF iv] ramfs_unlink_wlp])
      (use inv removed_pool_ok [OF inv] nz in \<open>auto simp: step_simps\<close>)
qed

lemma rv_rmdir_safe:
  assumes inv: "rv_inv w"
  shows "wp (ramfs_vfs_rmdir cur path w) (\<lambda>(_, w'). rv_inv w' \<and> rv_live w' = rv_live w)"
proof -
  have iv: "ramfs_inv (rfs w)" using inv by (simp add: rv_inv_def)
  have nz: "p \<noteq> 0" if "heap (rfs w) p = Some n" for p n using inv_heap_0 [OF iv] that by auto
  show ?thesis
    unfolding ramfs_vfs_rmdir_def wp_bind
    by (rule wp_wlp [OF ramfs_rmdir_safe [OF iv] ramfs_rmdir_wlp])
      (use inv removed_pool_ok [OF inv] nz in \<open>auto simp: step_simps\<close>)
qed

lemma rv_stat_safe: "rv_inv w \<Longrightarrow> wp (ramfs_vfs_stat cur path out w) (\<lambda>_. True)"
  using rv_find [of w cur path] by (auto simp: ramfs_vfs_stat_def step_simps wp_iff bind_eq_Some_conv; metis)

lemma rv_access_safe: "rv_inv w \<Longrightarrow> wp (ramfs_vfs_access_dir cur path w) (\<lambda>_. True)"
  using rv_find [of w cur path] by (auto simp: ramfs_vfs_access_dir_def step_simps wp_iff bind_eq_Some_conv; metis)

section \<open>The driver meets the contract\<close>

lemmas ramfs_file_ops_sel = ramfs_file_ops_def file_operations.simps

interpretation rd: driver_world "{ramfs_file_ops}" rv_inv rv_live
proof
  show "wp (f cur path flags w) (\<lambda>(r, pd, w'). rv_inv w' \<and>
      (if r < 0 then rv_live w' = rv_live w
       else \<exists>h. pd = Some h \<and> h \<notin> rv_live w \<and> rv_live w' = insert h (rv_live w)))"
    if "ops \<in> {ramfs_file_ops}" "op_open ops = Some f" "rv_inv w" for ops f w cur path flags
    using that open_dir_safe [OF that(3), of flags cur path] open_file_safe [OF that(3), of flags cur path]
    by (cases "flags AND VFS_O_DIRECTORY = 0") (auto simp: ramfs_file_ops_def opened_def)
qed (auto simp: ramfs_file_ops_def rv_close_safe rv_read_safe rv_write_safe rv_seek_safe rv_readdir_safe
    rv_mkdir_safe rv_rmdir_safe rv_unlink_safe rv_stat_safe rv_access_safe)

end
