(* ===== verification/Vfs_Props.thy ===== *)
theory Vfs_Props
  imports Ramfs_Vfs_Safe
begin

text \<open>
  Properties of the virtual file system with the RAM file system mounted as drive \<^verbatim>\<open>D:\<close>, the
  configuration \<^verbatim>\<open>kernel.c\<close> boots into when there is no FAT32 volume, and of the layer itself
  over arbitrary drivers.
\<close>

section \<open>Boot\<close>

definition zero_vfs :: "'d vfs" where
  \<comment> \<open>the tables in static storage\<close>
  "zero_vfs = \<lparr>vfs_fd_table = replicate VFS_MAX_FDS free_slot,
     vfs_drivers = replicate VFS_MAX_DRIVERS \<lparr>drv_name = [], drv_ops = None, registered = False\<rparr>,
     vfs_mounts = replicate VFS_MAX_DRIVES \<lparr>drive_letter = CHR 0x00, mnt_ops = None, mounted = False, driver_name = []\<rparr>,
     vfs_initialized = False, vfs_protected_denied = 0, vfs_protected_granted = 0\<rparr>"

definition zero_pool :: "ramfs_fd_handle list" where
  "zero_pool = replicate RAMFS_VFS_MAX_HANDLES \<lparr>ramfs_fd = 0, hin_use = False, is_dir = False, dir_node = 0, dir_pos = 0\<rparr>"

definition vfs_boot :: "ramfs \<Rightarrow> ramfs_vfs vfs \<times> ramfs_vfs" where
  \<comment> \<open>phase 11 of \<open>kernel_main\<close> when \<open>fat32_mount\<close> fails\<close>
  "vfs_boot fs =
     (let v = vfs_init zero_vfs;
          w = \<lparr>rfs = ramfs_init fs, handle_pool = zero_pool, busy_hook = False\<rparr>;
          (_, v, w) = ramfs_vfs_init (v, w);
          (_, v) = vfs_mount CHR ''D'' (Some ''ramfs'') v
      in (v, w))"

lemma vfs_boot_eq:
  "\<exists>ds ms. vfs_boot fs = (zero_vfs\<lparr>vfs_drivers := ds, vfs_mounts := ms, vfs_initialized := True\<rparr>,
      \<lparr>rfs = ramfs_init fs, handle_pool = zero_pool, busy_hook = True\<rparr>) \<and>
    length ds = 8 \<and> length ms = 26 \<and> (\<forall>d \<in> set ds. registered d \<longrightarrow> drv_ops d = Some ramfs_file_ops) \<and>
    (\<forall>m \<in> set ms. mounted m \<longrightarrow> mnt_ops m = Some ramfs_file_ops)"
proof -
  have up: "drive_upper CHR ''D'' = CHR ''D''" "drive_index CHR ''D'' = 3" "\<not> CHR ''D'' < CHR ''A''" "\<not> CHR ''Z'' < CHR ''D''"
    by (simp_all add: drive_upper_def drive_index_def less_char_def less_eq_char_def)
  show ?thesis
    by (simp add: vfs_boot_def vfs_init_def ramfs_vfs_init_def vfs_register_driver_def vfs_mount_def zero_vfs_def
        free_slot_def up upt_rec numeral_nat)
qed

lemma vfs_boot_ok:
  assumes "unmounted fs" and "fst (pmm_alloc (fs_pmm fs)) \<noteq> 0"
  shows "vfs_ok {ramfs_file_ops} rv_inv rv_live (vfs_boot fs)"
proof -
  have "pool_ok K U zero_pool" for K U
    by (simp add: pool_ok_def zero_pool_def handle_ok_def file_handle_def)
  moreover have "slots_ok D L (vfs_fd_table zero_vfs)" for D :: "ramfs_vfs file_operations set" and L
    by (simp add: slots_ok_def zero_vfs_def)
  ultimately show ?thesis
    using vfs_boot_eq [of fs] ramfs_init_inv [OF assms]
    by (auto simp: vfs_ok_def rv_inv_def tables_ok_def)
qed

text \<open>
  C4: Whatever calls tasks with any credentials make on the virtual file system after boot,
  every one of them returns. Afterwards each descriptor in use names the RAM file system's
  operations and a handle of its own that is in use, every directory handle refers to a
  directory that still exists, every file handle to an open descriptor of its own, and the
  invariant of the RAM file system holds.
\<close>

theorem vfs_history_safe:
  assumes "unmounted fs" and "fst (pmm_alloc (fs_pmm fs)) \<noteq> 0"
  shows "\<exists>v w. vfs_run xs (vfs_boot fs) = Some (v, w) \<and> slots_ok {ramfs_file_ops} (rv_live w) (vfs_fd_table v) \<and>
    pool_ok (kinds (rfs w)) (used (rfs w)) (handle_pool w) \<and> ramfs_inv (rfs w)"
  using rd.run_safe [OF vfs_boot_ok [OF assms], of xs] by (auto simp: wp_iff vfs_ok_def rv_inv_def)

theorem vfs_history_safe_witness:
  "\<exists>v w. vfs_run [(None, Open (Some ''D:/a'') 2), (Some stranger, Open (Some ''/'') 0x800), (None, Rmdir (Some ''/a''))]
     (vfs_boot demo0) = Some (v, w) \<and> ramfs_inv (rfs w)"
  using vfs_history_safe [OF unmounted_demo0 demo0_alloc] by blast

section \<open>Protected paths\<close>

definition drive_rest :: "string \<Rightarrow> string" where
  "drive_rest p = (if has_drive p then drop 2 p else p)"

definition admin :: "task option \<Rightarrow> bool" where
  "admin cur \<longleftrightarrow> (\<exists>t. cur = Some t \<and> t_capabilities t AND CAP_SYS_ADMIN \<noteq> 0)"

definition protected_name :: "string \<Rightarrow> bool" where
  \<comment> \<open>the first component, after the drive letter and all \<open>.\<close> and \<open>..\<close>, is a protected name in any case\<close>
  "protected_name p \<longleftrightarrow> (case resolve (components (drive_rest p)) of
     [] \<Rightarrow> False
   | c # _ \<Rightarrow> map fold_case c \<in> {''bin'', ''sbin'', ''etc'', ''boot'', ''kernel''})"

lemma protected_name_canonical:
  assumes "protected_name p" and "vfs_canonicalize_path (drive_rest p) n = Inr q"
  shows "vfs_path_is_protected q"
proof -
  have "\<forall>c \<in> set (resolve (components (drive_rest p))). plain c" using resolve_plain by blast
  from protected_join [OF this] show ?thesis
    using assms(1) canonicalize_Inr(1) [OF assms(2)] by (auto simp: protected_name_def split: list.splits)
qed

lemma not_admin: "\<not> admin cur \<Longrightarrow> fst (vfs_protected_access_allowed cur v) = False"
  by (auto simp: admin_def vfs_protected_access_allowed_def split: option.splits)

lemma select_rest: "select_driver p v = Inr (ops, actual) \<Longrightarrow> actual = drive_rest p"
  by (auto simp: select_driver_def drive_rest_def Let_def split: if_splits)

lemma resolve_rest: "vfs_resolve_drive p v = Inr (ops, actual) \<Longrightarrow> actual = drive_rest p"
  by (auto simp: vfs_resolve_drive_def drive_rest_def Let_def split: if_splits option.splits)

lemma modify_refused:
  assumes "protected_name p" and "\<not> admin cur" and "absent < 0"
    and "\<And>ops actual. sel = Inr (ops, actual) \<Longrightarrow> actual = drive_rest p" and "\<And>e. sel = Inl e \<Longrightarrow> e < 0"
  shows "wp (modify_path cur sel m absent (v, w)) (\<lambda>(r, v', w'). r < 0 \<and> w' = w \<and> vfs_fd_table v' = vfs_fd_table v)"
proof -
  obtain v' where den: "vfs_protected_access_allowed cur v = (False, v')"
    using not_admin [OF assms(2), of v] by (metis prod.collapse)
  have tab: "vfs_fd_table v' = vfs_fd_table v" by (rule protected_sel(3) [OF den])
  have "vfs_path_is_protected q" if "vfs_canonicalize_path (drive_rest p) 256 = Inr q" for q
    using protected_name_canonical [OF assms(1) that] .
  then show ?thesis
    using den tab assms(3-5) canonicalize_neg [of "drive_rest p" 256]
    by (cases sel; cases "vfs_canonicalize_path (drive_rest p) 256")
      (fastforce simp: modify_path_def step_simps split: option.splits)+
qed

lemma vfs_alloc_fd_range: "vfs_alloc_fd cur v = (fd, v') \<Longrightarrow> fd < 0 \<Longrightarrow> v' = v"
  using vfs_alloc_fd_cases by fastforce

lemma open_claimed_refused:
  assumes "protected_name p" and "\<not> admin cur" and "flags AND 0x303 \<noteq> 0"
  shows "wp (open_claimed cur p flags fd (v, w)) (\<lambda>(r, v', w'). r < 0 \<and> w' = w)"
proof (rule open_claimed_cases)
  fix ops actual q and v2 :: "'a vfs"
  assume a: "select_driver p v = Inr (Some ops, actual)" "vfs_canonicalize_path actual VFS_MAX_PATH = Inr q"
    and "flags AND 0x303 \<noteq> 0 \<Longrightarrow> vfs_path_is_protected q \<Longrightarrow> fst (vfs_protected_access_allowed cur v)"
  moreover have "vfs_path_is_protected q"
    using protected_name_canonical [OF assms(1)] a(2) select_rest [OF a(1)] by blast
  ultimately show "wp (open_driver cur p flags fd ops q (v2, w)) (\<lambda>(r, v', w'). r < 0 \<and> w' = w)"
    using not_admin [OF assms(2), of v] assms(3) by simp
qed (simp_all add: wp_Some)

text \<open>
  C5: Without \<^verbatim>\<open>CAP_SYS_ADMIN\<close> nothing under a protected name can be changed through the
  virtual file system, whatever the drivers are: if the path, stripped of its drive letter
  and resolved, begins with bin, sbin, etc, boot or kernel in any case, then an open for
  writing, creating or truncating, a mkdir, a rmdir and an unlink are all refused, and no
  driver's state changes.
\<close>

theorem vfs_protected_needs_admin:
  assumes "protected_name p" and "\<not> admin cur"
    and "flags AND (VFS_O_WRONLY OR VFS_O_RDWR OR VFS_O_CREAT OR VFS_O_TRUNC) \<noteq> 0"
    and "r \<in> {vfs_open cur (Some p) flags (v, w), vfs_mkdir cur (Some p) (v, w),
           vfs_rmdir cur (Some p) (v, w), vfs_unlink cur (Some p) (v, w)}"
  shows "\<exists>e v'. r = Some (e, v', w) \<and> e < 0"
proof -
  have sel: "wp (modify_path cur (select_driver p v) m absent (v, w)) (\<lambda>(e, v', w'). e < 0 \<and> w' = w)"
    if "absent < 0" for m absent
    by (rule wp_mono [OF modify_refused [OF assms(1,2) that]]) (auto dest: select_rest select_neg)
  have res: "wp (modify_path cur (vfs_resolve_drive p v) m absent (v, w)) (\<lambda>(e, v', w'). e < 0 \<and> w' = w)"
    if "absent < 0" for m absent
    by (rule wp_mono [OF modify_refused [OF assms(1,2) that]]) (auto dest: resolve_rest resolve_neg)
  obtain fd v1 where a: "vfs_alloc_fd cur v = (fd, v1)" by fastforce
  have fl: "flags AND 0x303 \<noteq> 0" using assms(3) by simp
  have "wp r (\<lambda>(e, v', w'). e < 0 \<and> w' = w)"
    using assms(4)
  proof (elim insertE emptyE)
    assume "r = vfs_open cur (Some p) flags (v, w)"
    then show ?thesis
      using open_claimed_refused [OF assms(1,2) fl, of fd v1 w] a by (simp add: vfs_open_def step_simps)
  next
    assume "r = vfs_mkdir cur (Some p) (v, w)"
    then show ?thesis using sel [of "-2" op_mkdir]
      by (simp add: vfs_mkdir_def path_checked_def step_simps)
  next
    assume "r = vfs_rmdir cur (Some p) (v, w)"
    then show ?thesis using sel [of "-2" op_rmdir]
      by (simp add: vfs_rmdir_def path_checked_def step_simps)
  next
    assume "r = vfs_unlink cur (Some p) (v, w)"
    then show ?thesis using res [of "-38" op_unlink]
      by (simp add: vfs_unlink_def path_checked_def step_simps)
  qed
  then show ?thesis by (auto simp: wp_iff)
qed

theorem vfs_protected_needs_admin_witness:
  "\<exists>e v'. vfs_open (Some stranger) (Some ''d:/tmp/../ETC/./shadow'') 0x100 (vfs_boot demo0) =
     Some (e, v', snd (vfs_boot demo0)) \<and> e < 0"
proof -
  have "protected_name ''d:/tmp/../ETC/./shadow''" by code_simp
  moreover have "\<not> admin (Some stranger)" by (simp add: admin_def stranger_def)
  ultimately show ?thesis
    using vfs_protected_needs_admin [of "''d:/tmp/../ETC/./shadow''" "Some stranger" "0x100" _ "fst (vfs_boot demo0)"
        "snd (vfs_boot demo0)"] by simp
qed

section \<open>Descriptor limits\<close>

lemma uid_held_filter:
  "length (vfs_fd_table v) = 64 \<Longrightarrow>
   uid_held uid v = length (filter (\<lambda>s. vin_use s \<and> vowner_uid s = uid) (vfs_fd_table v))"
  unfolding uid_held_def by (rule filter_upt_nth)

lemma vfs_alloc_fd_limits:
  assumes "vfs_alloc_fd cur v = (int i, v')"
  shows "(VFS_MAX_FDS - VFS_RESERVED_FDS \<le> i \<longrightarrow> privileged cur) \<and>
    (cur \<noteq> None \<longrightarrow> \<not> privileged cur \<longrightarrow> uid_held (charged_uid cur) v < VFS_USER_MAX_FDS)"
  using assms by (auto simp: vfs_alloc_fd_def Let_def split: if_splits option.splits
    dest!: find_upt_SomeD simp del: upt_rec_numeral)

definition slot_step :: "int \<Rightarrow> int \<Rightarrow> 'd vfs \<Rightarrow> 'd vfs \<Rightarrow> bool" where
  \<comment> \<open>what an open holding descriptor \<open>fd\<close> and returning \<open>r\<close> does to the table\<close>
  "slot_step fd r v v' \<longleftrightarrow>
     (if r < 0 then vfs_fd_table v' = (vfs_fd_table v)[nat fd := free_slot]
      else r = fd \<and> (\<exists>s. vfs_fd_table v' = (vfs_fd_table v)[nat fd := s] \<and>
        vin_use s = vin_use (vfs_fd_table v ! nat fd) \<and> vowner_uid s = vowner_uid (vfs_fd_table v ! nat fd)))"

lemma slot_step_free [simp]:
  "0 \<le> fd \<Longrightarrow> fd < 64 \<Longrightarrow> e < 0 \<Longrightarrow> vfs_fd_table v2 = vfs_fd_table v \<Longrightarrow> slot_step fd e v (vfs_free_fd fd v2)"
  by (simp add: slot_step_def vfs_free_fd_def)

lemma open_driver_slots:
  assumes "0 \<le> fd" and "fd < 64" and "vfs_fd_table v2 = vfs_fd_table v"
  shows "wlp (open_driver cur p flags fd ops q (v2, w)) (\<lambda>(r, v', w'). slot_step fd r v v')"
  using assms
  by (auto simp: open_driver_def wlp_rules split_def) (auto simp: slot_step_def)

lemma open_claimed_slots:
  assumes "0 \<le> fd" and "fd < 64"
  shows "wlp (open_claimed cur p flags fd (v, w)) (\<lambda>(r, v', w'). slot_step fd r v v')"
  by (rule open_claimed_cases) (use assms open_driver_slots [OF assms] in \<open>simp_all add: wlp_Some\<close>)

text \<open>
  C27: The table of descriptors is charged and limited as documented. A successful open
  takes exactly one free slot and leaves every other entry alone; the six reserved slots go
  to root and to holders of \<^verbatim>\<open>CAP_SYSTEM_CRITICAL\<close> only, and a user without that privilege never
  holds more than 24 slots. A failed open leaves no slot behind: the entries in use are
  exactly those in use before, unchanged.
\<close>

theorem vfs_open_respects_limits:
  assumes len: "length (vfs_fd_table v) = VFS_MAX_FDS"
    and o: "vfs_open cur path flags (v, w) = Some (fd, v', w')"
  shows "if fd < 0 then \<forall>i < VFS_MAX_FDS. vin_use (vfs_fd_table v' ! i) = vin_use (vfs_fd_table v ! i) \<and>
        (vin_use (vfs_fd_table v ! i) \<longrightarrow> vfs_fd_table v' ! i = vfs_fd_table v ! i)
     else nat fd < VFS_MAX_FDS \<and> \<not> vin_use (vfs_fd_table v ! nat fd) \<and> vin_use (vfs_fd_table v' ! nat fd) \<and>
        (\<forall>i < VFS_MAX_FDS. i \<noteq> nat fd \<longrightarrow> vfs_fd_table v' ! i = vfs_fd_table v ! i) \<and>
        (VFS_MAX_FDS - VFS_RESERVED_FDS \<le> nat fd \<longrightarrow> privileged cur) \<and>
        (cur \<noteq> None \<longrightarrow> \<not> privileged cur \<longrightarrow> uid_held (charged_uid cur) v' \<le> VFS_USER_MAX_FDS)"
proof -
  obtain f v1 where a: "vfs_alloc_fd cur v = (f, v1)" by fastforce
  consider (same) "fd < 0" "v' = v" | (claimed) p where "\<not> f < 0" "open_claimed cur p flags f (v1, w) = Some (fd, v', w')"
    using o a vfs_alloc_fd_range [OF a]
    by (auto simp: vfs_open_def split: if_splits option.splits)
  then show ?thesis
  proof cases
    case claimed
    then obtain i where i: "i < 64" "f = int i" "\<not> vin_use (vfs_fd_table v ! i)" "v1 = claim_slot (charged_uid cur) i v"
      using vfs_alloc_fd_cases [OF a] by auto
    have st: "slot_step f fd v1 v'"
      using wlpD [OF open_claimed_slots claimed(2)] i by simp
    note lim = vfs_alloc_fd_limits [OF a [unfolded i(2)]]
    show ?thesis
    proof (cases "fd < 0")
      case True
      then show ?thesis using st i len by (auto simp: slot_step_def claim_slot_def nth_list_update)
    next
      case False
      obtain s where s: "fd = f" "vfs_fd_table v' = (vfs_fd_table v)[i := s]" "vin_use s" "vowner_uid s = charged_uid cur"
        using st False i len by (auto simp: slot_step_def claim_slot_def)
      have l': "length (vfs_fd_table v') = 64" using s(2) len by simp
      have "uid_held (charged_uid cur) v' = Suc (uid_held (charged_uid cur) v)"
        using length_filter_update [of i "vfs_fd_table v" "\<lambda>s. vin_use s \<and> vowner_uid s = charged_uid cur" s] s i len
        by (simp add: uid_held_filter [OF l'] uid_held_filter [OF len])
      then show ?thesis using lim s i len by auto
    qed
  qed simp
qed

theorem vfs_open_respects_limits_witness:
  "\<exists>fd v' w'. vfs_open (Some stranger) (Some ''/'') 0x800 (vfs_boot demo0) = Some (fd, v', w') \<and>
     (0 \<le> fd \<longrightarrow> uid_held 1000 v' \<le> 24)"
proof -
  obtain v w where vw: "vfs_boot demo0 = (v, w)" by fastforce
  have len: "length (vfs_fd_table v) = 64" using vfs_boot_eq [of demo0] vw by (auto simp: zero_vfs_def)
  obtain fd v' w' where o: "vfs_open (Some stranger) (Some ''/'') 0x800 (v, w) = Some (fd, v', w')"
    using rd.open_safe [of v w "Some stranger" "Some ''/''" "0x800"] vfs_boot_ok [OF unmounted_demo0 demo0_alloc] vw
    by (auto simp: wp_iff)
  have "charged_uid (Some stranger) = 1000" "\<not> privileged (Some stranger)"
    by (simp_all add: charged_uid_def privileged_def stranger_def)
  then show ?thesis using vfs_open_respects_limits [OF len o] o vw by auto
qed

section \<open>Reading back what was written\<close>

text \<open>
  C14: Through all three layers, what is written is read back. For a descriptor of a RAM file
  opened for reading and writing without \<^verbatim>\<open>O_APPEND\<close>, if \<^verbatim>\<open>vfs_write\<close> at position \<open>pos\<close> returns
  \<open>k > 0\<close>, then \<^verbatim>\<open>vfs_lseek\<close> to \<open>pos\<close> returns \<open>pos\<close> and \<^verbatim>\<open>vfs_read\<close> of \<open>k\<close> bytes returns the first \<open>k\<close>
  bytes of the buffer.
\<close>

theorem vfs_write_read_back:
  assumes "vfs_ok {ramfs_file_ops} rv_inv rv_live (v, w)" and "vfs_initialized v" and "vfd_ok v fd"
    and "s = vfs_fd_table v ! nat fd" and "private_data s = Some h" and "\<not> is_dir (handle_pool w ! h)"
    and "f = file_descriptors (rfs w) ! nat (ramfs_fd (handle_pool w ! h))"
    and "vflags s AND VFS_O_ACCMODE = VFS_O_RDWR" and "vflags s AND VFS_O_APPEND = 0"
    and "fd_flags f AND RAMFS_FLAG_WRITE \<noteq> 0" and "fd_flags f AND RAMFS_FLAG_READ \<noteq> 0" and "unat (fd_pos f) < 65536"
    and "vfs_write cur fd (Some buf) sz (v, w) = Some (int k, v1, w1)" and "0 < k"
  shows "\<exists>w2 w3. vfs_lseek cur fd (fd_pos f) VFS_SEEK_SET (v1, w1) = Some (int (unat (fd_pos f)), v1, w2) \<and>
    vfs_read cur fd True (of_nat k) (v1, w2) = Some (int k, take k buf, v1, w3)"
proof -
  let ?h = "handle_pool w ! h" and ?i = "nat fd"
  have i: "?i < 64" "vin_use s" "0 \<le> fd" using assms(3,4) by (auto simp: vfd_ok_def)
  have inv: "rv_inv w" and sl: "slots_ok {ramfs_file_ops} (rv_live w) (vfs_fd_table v)"
    using assms(1) by (auto simp: vfs_ok_def)
  have ops: "vops s = Some ramfs_file_ops" and h: "h \<in> rv_live w"
    using sl i assms(4,5) by (auto simp: slots_ok_def)
  have ri: "ramfs_inv (rfs w)" using inv by (simp add: rv_inv_def)
  have "length (file_descriptors (rfs w)) = 16" by (rule fds_okD(1) [OF ramfs_invD(5) [OF ri]])
  then have hok: "fd_ok (rfs w) (ramfs_fd ?h)"
    using inv h assms(6) by (auto simp: rv_inv_def rv_live_def pool_ok_def handle_ok_def file_handle_def used_def fd_ok_def)
  obtain fs1 where wr: "ramfs_write (ramfs_fd ?h) buf sz (rfs w) = Some (int k, fs1)" "v1 = v" "w1 = w\<lparr>rfs := fs1\<rparr>"
    using assms(2-5,8,9,13,14) ops
    by (auto simp: vfs_write_def ramfs_vfs_write_def ramfs_file_ops_sel Let_def bind_eq_Some_conv split: if_splits)
  have "k \<le> min (unat sz) (65536 - unat (fd_pos f))"
    using ramfs_write_effect [OF ri hok assms(7,10,12), of _ sz buf] wr(1) by auto
  then have k1: "unat (of_nat k :: u32) = k" "k \<le> 65536" using unat_u32_of_nat [of k] by auto
  then have k: "(of_nat k :: u32) \<noteq> 0" "\<not> (of_nat k :: u32) > SSIZE_MAX"
    using assms(14) by (auto simp: word_less_nat_alt simp flip: unat_eq_0)
  obtain fs2 fs3 where rb: "ramfs_seek (ramfs_fd ?h) (fd_pos f) fs1 = Some (int (unat (fd_pos f)), fs2)"
    "ramfs_read (ramfs_fd ?h) (of_nat k) fs2 = Some (int k, take k buf, fs3)"
    using write_read_back [OF ri hok assms(7,10,11,12) wr(1) assms(14)] by blast
  have "sint (fd_pos f) = int (unat (fd_pos f))" using assms(12) by (intro sint_u32_small) simp
  then show ?thesis
    using assms(2-6,8) ops wr rb k
    by (simp add: vfs_lseek_def vfs_read_def ramfs_vfs_seek_def ramfs_vfs_read_def ramfs_file_ops_sel Let_def vfs_flags_readable_def)
qed

definition demo_handles :: ramfs_vfs where
  \<comment> \<open>the file \<open>/a\<close> open on handle 0\<close>
  "demo_handles = \<lparr>rfs = demo2, handle_pool = zero_pool[0 := \<lparr>ramfs_fd = 0, hin_use = True, is_dir = False, dir_node = 0, dir_pos = 0\<rparr>],
     busy_hook = True\<rparr>"

definition demo_open :: "ramfs_vfs vfs" where
  "demo_open = zero_vfs\<lparr>vfs_initialized := True, vfs_fd_table := (vfs_fd_table zero_vfs)[0 := free_slot\<lparr>vin_use := True,
     vops := Some ramfs_file_ops, private_data := Some 0, vflags := VFS_O_RDWR\<rparr>]\<rparr>"

lemma demo_open_ok: "vfs_ok {ramfs_file_ops} rv_inv rv_live (demo_open, demo_handles)"
proof -
  have "used demo2 ! 0" by (simp add: used_def demo2_def blank_fd_def)
  then have "rv_inv demo_handles"
    using ramfs_inv_demo2
    by (auto simp: rv_inv_def demo_handles_def pool_ok_def zero_pool_def handle_ok_def file_handle_def nth_list_update)
  moreover have "0 \<in> rv_live demo_handles" by (simp add: rv_live_def demo_handles_def zero_pool_def)
  moreover have "free_slot\<lparr>vin_use := True\<rparr> \<noteq> free_slot" by (simp add: free_slot_def)
  ultimately show ?thesis
    by (auto simp: vfs_ok_def tables_ok_def slots_ok_def demo_open_def zero_vfs_def nth_list_update free_slot_def)
qed

theorem vfs_write_read_back_witness:
  "\<exists>w1 w2 w3. vfs_write None 0 (Some [7]) 1 (demo_open, demo_handles) = Some (1, demo_open, w1) \<and>
     vfs_lseek None 0 0 VFS_SEEK_SET (demo_open, w1) = Some (0, demo_open, w2) \<and>
     vfs_read None 0 True 1 (demo_open, w2) = Some (1, [7], demo_open, w3)"
proof -
  have s: "vfs_initialized demo_open" "vfd_ok demo_open 0" "private_data (vfs_fd_table demo_open ! 0) = Some 0"
    "vflags (vfs_fd_table demo_open ! 0) = 2" "vops (vfs_fd_table demo_open ! 0) = Some ramfs_file_ops"
    by (simp_all add: demo_open_def vfd_ok_def zero_vfs_def)
  have h: "rfs demo_handles = demo2" "handle_pool demo_handles ! 0 = \<lparr>ramfs_fd = 0, hin_use = True, is_dir = False, dir_node = 0, dir_pos = 0\<rparr>"
    by (simp_all add: demo_handles_def zero_pool_def)
  obtain w1 where w: "vfs_write None 0 (Some [7]) 1 (demo_open, demo_handles) = Some (int 1, demo_open, w1)"
    using ramfs_write_demo s h
    by (auto simp: vfs_write_def ramfs_vfs_write_def vfs_flags_writable_def ramfs_file_ops_sel)
  show ?thesis
    using vfs_write_read_back [OF demo_open_ok s(1,2) refl _ _ refl _ _ _ _ _ w] w s h
    by (simp add: demo2_sel blank_fd_def)
qed

section \<open>Flags and listings\<close>

text \<open>
  C39: \<^verbatim>\<open>VFS_O_CREAT\<close> means nothing to the RAM file system: an open behaves the same with and
  without it, so an open for writing creates a missing file unasked, and an open for
  reading with the flag does not create one.
\<close>

theorem ramfs_vfs_ignores_creat:
  "ramfs_vfs_open cur path (flags OR VFS_O_CREAT) w = ramfs_vfs_open cur path flags w"
proof -
  have bits: "(flags OR 0x100) AND 0x800 = flags AND 0x800" "(flags OR 0x100) AND 0x200 = flags AND 0x200"
    "(flags OR 0x100) AND 0x3 = flags AND 0x3"
    by (simp_all add: bit.conj_disj_distrib2)
  show ?thesis by (simp only: ramfs_vfs_open_def ramfs_flags_of_def bits)
qed

text \<open>
  C19: Reading a directory refines a cursor on the list of its entries: a call with room for
  \<open>n\<close> records returns the next \<open>n\<close> entries in list order, fewer at the end and none beyond it,
  and moves the cursor past them; nothing else of the file system changes.
\<close>

theorem ramfs_vfs_readdir_refines:
  assumes "rv_inv w" and "h \<in> rv_live w" and "is_dir (handle_pool w ! h)" and "DIRENT_SIZE \<le> unat sz"
    and "heap (rfs w) (dir_node (handle_pool w ! h)) = Some n"
  shows "\<exists>cs es. list_children (rfs w) RAMFS_MAX_FILES (nd_children n) = Some cs \<and>
    es = take (unat sz div DIRENT_SIZE) (drop (unat (dir_pos (handle_pool w ! h)))
      (map (\<lambda>c. dirent_of (the (heap (rfs w) c))) cs)) \<and>
    ramfs_vfs_readdir cur (Some h) sz w = Some (int (length es * DIRENT_SIZE), es,
      upd_handle h (\<lambda>h. h\<lparr>dir_pos := dir_pos h + of_nat (length es)\<rparr>) w)"
proof -
  obtain K D where t: "tree_ok K D (fs_root (rfs w)) (heap (rfs w))"
    using ramfs_invD(2) [of "rfs w"] assms(1) unfolding rv_inv_def by blast
  let ?d = "dir_node (handle_pool w ! h)"
  note ch = dir_okD(1) [OF tree_okD(4) [OF t assms(5)]]
  have "length (K ?d) < 64" by (rule kids_bound [OF t assms(5)])
  then have "list_children (rfs w) 64 (nd_children n) = Some (K ?d)" using list_children_chain [OF ch, of 64] by simp
  moreover obtain c where c: "skip_children (rfs w) (unat (dir_pos (handle_pool w ! h))) (nd_children n) = Some c"
    "chain (heap (rfs w)) c (drop (unat (dir_pos (handle_pool w ! h))) (K ?d))"
    using skip_children_chain [OF ch] by blast
  moreover have "?d \<noteq> 0" using tree_okD(1) [OF t] assms(5) by auto
  ultimately show ?thesis
    using assms(3-5) fill_dirents_chain [OF c(2), of "unat sz div 72"]
    by (simp add: ramfs_vfs_readdir_def Let_def take_map drop_map)
qed

theorem ramfs_vfs_readdir_refines_witness:
  "\<exists>es w'. ramfs_vfs_readdir None (Some 0) 144 (demo_handles\<lparr>handle_pool := zero_pool[0 := \<lparr>ramfs_fd = -1, hin_use = True,
      is_dir = True, dir_node = 0x100000, dir_pos = 0\<rparr>]\<rparr>) = Some (72, es, w') \<and> map de_name es = [''a'']"
  (is "\<exists>es w'. ramfs_vfs_readdir None (Some 0) 144 ?w = _ \<and> _")
proof -
  have "kinds demo2 0x100000 = Some RAMFS_TYPE_DIR" by (simp add: kinds_def demo2_sel demo_root_def new_node_def)
  then have inv: "rv_inv ?w"
    using ramfs_inv_demo2
    by (auto simp: rv_inv_def demo_handles_def pool_ok_def zero_pool_def handle_ok_def file_handle_def nth_list_update)
  have sel: "rfs ?w = demo2" "handle_pool ?w ! 0 = \<lparr>ramfs_fd = -1, hin_use = True, is_dir = True, dir_node = 0x100000, dir_pos = 0\<rparr>"
    by (simp_all add: demo_handles_def zero_pool_def)
  have live: "0 \<in> rv_live ?w" using sel by (simp add: rv_live_def)
  have ch: "list_children demo2 64 0x101000 = Some [0x101000]"
    by (subst list_children.simps, subst list_children.simps) (simp add: demo2_sel demo_a_def new_node_def split: nat.splits)
  have "heap demo2 0x100000 = Some (demo_root\<lparr>nd_children := 0x101000, child_count := 1\<rparr>)" by (simp add: demo2_sel)
  then show ?thesis
    using ramfs_vfs_readdir_refines [OF inv live, of 144 _ None] sel ch
    by (simp add: demo2_sel demo_a_def new_node_def dirent_of_def)
qed

end
