(* ===== verification/Sched_Model.thy ===== *)
theory Sched_Model
  imports Task "HOL-Library.Monad_Syntax"
begin

text \<open>
  The scheduler, \<^verbatim>\<open>src/src/scheduler.c\<close>, with the parts of the task table of
  \<^verbatim>\<open>src/src/process.c\<close> it works on. A \<^verbatim>\<open>task_t*\<close> is the index of a slot of the table, \<open>None\<close> is
  NULL. The ready queue is the circular list through the \<^verbatim>\<open>next\<close> fields of the slots, as in the
  code. Every operation runs with interrupts off, so it is one step on the state; a
  computation is \<open>None\<close> when the kernel panics, halts or follows a NULL pointer. After a context
  switch the result is the state in which the next task runs.
\<close>

section \<open>Tasks\<close>

abbreviation (input) MAX_TASKS :: nat where "MAX_TASKS \<equiv> 32"
abbreviation (input) CLEANUP_QUEUE_SIZE :: u32 where "CLEANUP_QUEUE_SIZE \<equiv> 8"

type_synonym task_ptr = "nat option"

datatype task_state = TASK_STATE_READY | TASK_STATE_RUNNING | TASK_STATE_BLOCKED | TASK_STATE_SLEEPING
  | TASK_STATE_ZOMBIE | TASK_STATE_TERMINATED

record tcb = task +
  t_state :: task_state
  t_next :: task_ptr
  t_is_kernel_task :: bool
  t_kernel_stack :: u32
  t_time_slice :: u32
  t_ticks_remaining :: u32
  t_total_ticks :: u32
  t_priority :: u8
  t_base_time_slice :: u32
  t_wake_tick :: u32
  t_blocked_on_wq :: "nat option"
  t_has_run_before :: bool
  t_saved_int_depth :: u32
  t_saved_crit_depth :: u32
  t_saved_crit_flags :: u32

record sched =
  tasks :: "tcb list"
  slot_generations :: "u32 list"
  free_slot_bitmap :: u32
  ready_queue_head :: task_ptr
  ready_queue_tail :: task_ptr
  current_running_task :: task_ptr
  total_context_switches :: u32
  scheduler_enabled :: bool
  fpu_owner :: task_ptr
  cleanup_queue :: "task_ptr list"
  cleanup_queue_head :: u32
  cleanup_queue_tail :: u32
  cleanup_queue_count :: u32
  interrupt_context_depth :: u32
  critical_section_depth :: u32
  critical_section_saved_flags :: u32
  tss_esp0 :: u32

definition tk :: "sched \<Rightarrow> nat \<Rightarrow> tcb" where
  "tk s i = tasks s ! i"

definition upd_task :: "nat \<Rightarrow> (tcb \<Rightarrow> tcb) \<Rightarrow> sched \<Rightarrow> sched" where
  "upd_task i f s = s\<lparr>tasks := (tasks s)[i := f (tasks s ! i)]\<rparr>"

definition task_slot_is_live :: "sched \<Rightarrow> nat \<Rightarrow> bool" where
  "task_slot_is_live s i \<longleftrightarrow> i < MAX_TASKS \<and> t_pid (tk s i) \<noteq> 0 \<and> t_generation (tk s i) = slot_generations s ! i"

definition task_get_all :: "sched \<Rightarrow> nat list" where
  "task_get_all s = filter (\<lambda>i. t_pid (tk s i) \<noteq> 0 \<and> t_state (tk s i) \<noteq> TASK_STATE_TERMINATED) [0..<MAX_TASKS]"

definition task_get_validated :: "u32 \<Rightarrow> u32 \<Rightarrow> sched \<Rightarrow> task_ptr" where
  "task_get_validated pid gen s =
     find (\<lambda>i. t_pid (tk s i) = pid \<and> t_generation (tk s i) = gen \<and> t_state (tk s i) \<noteq> TASK_STATE_TERMINATED)
       [0..<MAX_TASKS]"

definition task_find_free_slot :: "sched \<Rightarrow> task_ptr \<times> sched" where
  \<comment> \<open>a set bit marks a free slot; the bit is tested and cleared in one instruction\<close>
  "task_find_free_slot s =
     (case find (\<lambda>i. bit (free_slot_bitmap s) i) [0..<MAX_TASKS] of
        Some i \<Rightarrow> (Some i, s\<lparr>free_slot_bitmap := free_slot_bitmap s AND NOT (push_bit i 1)\<rparr>)
      | None \<Rightarrow> (None, s))"

definition task_free_slot_for_task :: "nat \<Rightarrow> sched \<Rightarrow> sched" where
  "task_free_slot_for_task i s =
     s\<lparr>slot_generations := (slot_generations s)[i := slot_generations s ! i + 1],
       free_slot_bitmap := free_slot_bitmap s OR push_bit i 1\<rparr>"

section \<open>Initialisation, FPU ownership and the cleanup queue\<close>

definition zero_tcb :: tcb where
  \<comment> \<open>a cleared slot, marked as available\<close>
  "zero_tcb = \<lparr>t_pid = 0, t_generation = 0, t_uid = 0, t_euid = 0, t_egid = 0, t_groups = [], t_private_tmp_dir = [],
     t_capabilities = 0, t_state = TASK_STATE_TERMINATED, t_next = None, t_is_kernel_task = False, t_kernel_stack = 0,
     t_time_slice = 0, t_ticks_remaining = 0, t_total_ticks = 0, t_priority = 0, t_base_time_slice = 0, t_wake_tick = 0,
     t_blocked_on_wq = None, t_has_run_before = False, t_saved_int_depth = 0, t_saved_crit_depth = 0, t_saved_crit_flags = 0\<rparr>"

definition zero_sched :: sched where
  \<comment> \<open>static storage before \<open>process_init\<close>\<close>
  "zero_sched = \<lparr>tasks = replicate MAX_TASKS zero_tcb, slot_generations = replicate MAX_TASKS 0, free_slot_bitmap = 0xFFFFFFFF,
     ready_queue_head = None, ready_queue_tail = None, current_running_task = None, total_context_switches = 0,
     scheduler_enabled = False, fpu_owner = None, cleanup_queue = replicate (unat CLEANUP_QUEUE_SIZE) None,
     cleanup_queue_head = 0, cleanup_queue_tail = 0, cleanup_queue_count = 0, interrupt_context_depth = 0,
     critical_section_depth = 0, critical_section_saved_flags = 0, tss_esp0 = 0\<rparr>"

definition process_init :: "sched \<Rightarrow> sched" where
  "process_init s = s\<lparr>tasks := replicate MAX_TASKS zero_tcb\<rparr>"

definition scheduler_fpu_release :: "task_ptr \<Rightarrow> sched \<Rightarrow> sched" where
  "scheduler_fpu_release t s = (if t \<noteq> None \<and> fpu_owner s = t then s\<lparr>fpu_owner := None\<rparr> else s)"

definition scheduler_init :: "sched \<Rightarrow> sched" where
  "scheduler_init s = s\<lparr>ready_queue_head := None, ready_queue_tail := None, current_running_task := None,
     total_context_switches := 0, scheduler_enabled := False,
     cleanup_queue := replicate (unat CLEANUP_QUEUE_SIZE) None, cleanup_queue_head := 0,
     cleanup_queue_tail := 0, cleanup_queue_count := 0\<rparr>"

definition cleanup_queue_enqueue :: "task_ptr \<Rightarrow> sched \<Rightarrow> bool \<times> sched" where
  "cleanup_queue_enqueue t s =
     (if t = None then (False, s)
      else if cleanup_queue_count s \<ge> CLEANUP_QUEUE_SIZE then (False, s)
      else (True, s\<lparr>cleanup_queue := (cleanup_queue s)[unat (cleanup_queue_tail s) := t],
        cleanup_queue_tail := (cleanup_queue_tail s + 1) mod CLEANUP_QUEUE_SIZE,
        cleanup_queue_count := cleanup_queue_count s + 1\<rparr>))"

definition cleanup_queue_dequeue :: "sched \<Rightarrow> task_ptr \<times> sched" where
  "cleanup_queue_dequeue s =
     (if cleanup_queue_count s = 0 then (None, s)
      else (cleanup_queue s ! unat (cleanup_queue_head s),
        s\<lparr>cleanup_queue := (cleanup_queue s)[unat (cleanup_queue_head s) := None],
          cleanup_queue_head := (cleanup_queue_head s + 1) mod CLEANUP_QUEUE_SIZE,
          cleanup_queue_count := cleanup_queue_count s - 1\<rparr>))"

section \<open>The ready queue\<close>

fun ring_scan :: "sched \<Rightarrow> nat \<Rightarrow> nat \<Rightarrow> nat \<Rightarrow> bool" where
  \<comment> \<open>the membership test: \<open>k\<close> more nodes may be visited after this one\<close>
  "ring_scan s t k scan =
     (scan = t \<or>
      (case t_next (tk s scan) of
         None \<Rightarrow> False
       | Some c \<Rightarrow>
           if ready_queue_head s = Some c then False
           else (case k of 0 \<Rightarrow> False | Suc k' \<Rightarrow> ring_scan s t k' c)))"

definition scheduler_add_task :: "task_ptr \<Rightarrow> sched \<Rightarrow> sched option" where
  "scheduler_add_task task s =
     (case task of
        None \<Rightarrow> Some s
      | Some t \<Rightarrow>
          if t_pid (tk s t) < 1 then Some s
          else if (case ready_queue_head s of None \<Rightarrow> False | Some h \<Rightarrow> ring_scan s t MAX_TASKS h) then Some s
          else
            let s = upd_task t (\<lambda>k. k\<lparr>t_state := TASK_STATE_READY, t_ticks_remaining := t_time_slice k\<rparr>) s in
            if ready_queue_head s = None then
              Some (upd_task t (\<lambda>k. k\<lparr>t_next := Some t\<rparr>) (s\<lparr>ready_queue_head := Some t, ready_queue_tail := Some t\<rparr>))
            else do {
              tl \<leftarrow> ready_queue_tail s;
              let original_head = t_next (tk s tl);
              let s = upd_task tl (\<lambda>k. k\<lparr>t_next := Some t\<rparr>) s;
              let s = upd_task t (\<lambda>k. k\<lparr>t_next := original_head\<rparr>) s;
              Some (s\<lparr>ready_queue_tail := Some t\<rparr>)
            })"

definition unlink_node :: "nat \<Rightarrow> nat \<Rightarrow> sched \<Rightarrow> sched" where
  \<comment> \<open>the links around the node, then head and tail\<close>
  "unlink_node t prev s =
     (let s = upd_task prev (\<lambda>k. k\<lparr>t_next := t_next (tk s t)\<rparr>) s;
          s = (if ready_queue_head s = Some t then s\<lparr>ready_queue_head := t_next (tk s t)\<rparr> else s);
          s = (if ready_queue_tail s = Some t then s\<lparr>ready_queue_tail := Some prev\<rparr> else s)
      in upd_task t (\<lambda>k. k\<lparr>t_next := None\<rparr>) s)"

fun remove_loop :: "nat \<Rightarrow> nat \<Rightarrow> task_ptr \<Rightarrow> task_ptr \<Rightarrow> sched \<Rightarrow> sched option" where
  \<comment> \<open>the first argument counts down from \<open>MAX_TASKS + 1\<close>; at 0 the kernel panics\<close>
  "remove_loop 0 t current prev s = None"
| "remove_loop (Suc k) t current prev s =
     (if current = Some t then do { p \<leftarrow> prev; Some (unlink_node t p s) }
      else do {
        c \<leftarrow> current;
        let current = t_next (tk s c);
        if current = ready_queue_head s then Some s else remove_loop k t current (Some c) s
      })"

definition scheduler_remove_task_locked :: "task_ptr \<Rightarrow> sched \<Rightarrow> sched option" where
  "scheduler_remove_task_locked task s =
     (case task of
        None \<Rightarrow> Some s
      | Some t \<Rightarrow>
          if ready_queue_head s = None then Some s
          else if t_next (tk s t) = Some t \<and> ready_queue_head s = Some t then
            Some (upd_task t (\<lambda>k. k\<lparr>t_next := None\<rparr>) (s\<lparr>ready_queue_head := None, ready_queue_tail := None\<rparr>))
          else remove_loop (MAX_TASKS + 1) t (ready_queue_head s) (ready_queue_tail s) s)"

definition scheduler_remove_task :: "task_ptr \<Rightarrow> sched \<Rightarrow> sched option" where
  "scheduler_remove_task task s =
     (if task = None \<or> ready_queue_head s = None then Some s else scheduler_remove_task_locked task s)"

definition scheduler_block_task :: "task_ptr \<Rightarrow> sched \<Rightarrow> sched option" where
  "scheduler_block_task task s =
     (case task of
        None \<Rightarrow> Some s
      | Some t \<Rightarrow>
          if interrupt_context_depth s > 0 then None
          else do {
            s \<leftarrow> scheduler_remove_task_locked task s;
            Some (upd_task t (\<lambda>k. k\<lparr>t_state := TASK_STATE_BLOCKED\<rparr>) s)
          })"

definition scheduler_wakeup_task :: "task_ptr \<Rightarrow> sched \<Rightarrow> sched option" where
  "scheduler_wakeup_task task s =
     (case task of
        None \<Rightarrow> Some s
      | Some t \<Rightarrow> if t_state (tk s t) \<noteq> TASK_STATE_BLOCKED then Some s else scheduler_add_task task s)"

definition runnable :: "sched \<Rightarrow> nat \<Rightarrow> bool" where
  "runnable s i \<longleftrightarrow> (t_state (tk s i) = TASK_STATE_READY \<or> t_state (tk s i) = TASK_STATE_RUNNING) \<and> task_slot_is_live s i"

partial_function (option) scheduler_get_next_task :: "sched \<Rightarrow> (task_ptr \<times> sched) option" where
  "scheduler_get_next_task s =
     (case ready_queue_head s of
        None \<Rightarrow> Some (None, s)
      | Some n \<Rightarrow>
          if \<not> runnable s n then Option.bind (scheduler_remove_task (Some n) s) scheduler_get_next_task
          else Some (Some n, s\<lparr>ready_queue_head := t_next (tk s n)\<rparr>))"

declare scheduler_get_next_task.simps [code]

section \<open>Context switches\<close>

definition tss_set_kernel_stack :: "u32 \<Rightarrow> sched \<Rightarrow> sched option" where
  "tss_set_kernel_stack stack_ptr s =
     (if stack_ptr = 0 then None
      else if stack_ptr < 0x00100000 then None
      else if stack_ptr AND 0xF \<noteq> 0 then None
      else Some (s\<lparr>tss_esp0 := stack_ptr\<rparr>))"

definition scheduler_switch_kernel_context :: "nat \<Rightarrow> nat \<Rightarrow> sched \<Rightarrow> sched option" where
  "scheduler_switch_kernel_context prev next s = do {
     s \<leftarrow> (if t_is_kernel_task (tk s next) then Some s else tss_set_kernel_stack (t_kernel_stack (tk s next)) s);
     let s = upd_task prev (\<lambda>k. k\<lparr>t_saved_int_depth := interrupt_context_depth s,
       t_saved_crit_depth := critical_section_depth s, t_saved_crit_flags := critical_section_saved_flags s\<rparr>) s;
     Some (s\<lparr>interrupt_context_depth := t_saved_int_depth (tk s next),
       critical_section_depth := t_saved_crit_depth (tk s next),
       critical_section_saved_flags := t_saved_crit_flags (tk s next)\<rparr>)
   }"

definition make_current :: "nat \<Rightarrow> sched \<Rightarrow> sched" where
  \<comment> \<open>the task is RUNNING with a full time slice, and the current one\<close>
  "make_current n s = (upd_task n (\<lambda>k. k\<lparr>t_state := TASK_STATE_RUNNING, t_ticks_remaining := t_time_slice k\<rparr>) s)
     \<lparr>current_running_task := Some n\<rparr>"

definition scheduler_start :: "sched \<Rightarrow> sched option" where
  "scheduler_start s =
     (if ready_queue_head s = None then None
      else do {
        (first, s) \<leftarrow> scheduler_get_next_task (s\<lparr>scheduler_enabled := True\<rparr>);
        f \<leftarrow> first;
        if t_pid (tk s f) < 1 then None
        else do {
          let s = make_current f s;
          if t_is_kernel_task (tk s f) then Some s else tss_set_kernel_stack (t_kernel_stack (tk s f)) s
        }
      })"

definition all_terminated :: "sched \<Rightarrow> bool" where
  "all_terminated s \<longleftrightarrow> ready_queue_head s = None \<and>
     (case current_running_task s of None \<Rightarrow> True | Some c \<Rightarrow> t_state (tk s c) = TASK_STATE_TERMINATED)"

definition charge_tick :: "nat \<Rightarrow> sched \<Rightarrow> sched" where
  "charge_tick c s =
     (if t_ticks_remaining (tk s c) > 0
      then upd_task c (\<lambda>k. k\<lparr>t_ticks_remaining := t_ticks_remaining k - 1, t_total_ticks := t_total_ticks k + 1\<rparr>) s
      else s)"

definition refill_slice :: "nat \<Rightarrow> sched \<Rightarrow> sched" where
  "refill_slice c s = upd_task c (\<lambda>k. k\<lparr>t_ticks_remaining := t_time_slice k\<rparr>) s"

definition retire_prev :: "nat \<Rightarrow> sched \<Rightarrow> sched" where
  \<comment> \<open>a dead task goes to the cleanup queue, a RUNNING one becomes READY, any other keeps its state\<close>
  "retire_prev p s =
     (if t_state (tk s p) = TASK_STATE_TERMINATED \<or> t_state (tk s p) = TASK_STATE_ZOMBIE
      then snd (cleanup_queue_enqueue (Some p) s)
      else if t_state (tk s p) = TASK_STATE_RUNNING then upd_task p (\<lambda>k. k\<lparr>t_state := TASK_STATE_READY\<rparr>) s
      else s)"

definition switch_counted :: "nat \<Rightarrow> nat \<Rightarrow> sched \<Rightarrow> sched" where
  \<comment> \<open>the old task is retired, the new one current, the switch counted\<close>
  "switch_counted p n s =
     (let s = make_current n (retire_prev p s) in s\<lparr>total_context_switches := total_context_switches s + 1\<rparr>)"

definition schedule_switch :: "nat \<Rightarrow> nat \<Rightarrow> sched \<Rightarrow> sched option" where
  "schedule_switch p n s =
     (let s = switch_counted p n s;
          s = (if t_state (tk s p) \<noteq> TASK_STATE_TERMINATED \<and> t_state (tk s p) \<noteq> TASK_STATE_ZOMBIE
               then upd_task p (\<lambda>k. k\<lparr>t_has_run_before := True\<rparr>) s else s);
          s = upd_task n (\<lambda>k. k\<lparr>t_has_run_before := True\<rparr>) s
      in scheduler_switch_kernel_context p n s)"

definition scheduler_schedule :: "sched \<Rightarrow> sched option" where
  "scheduler_schedule s =
     (if \<not> scheduler_enabled s then Some s
      else if all_terminated s then None
      else case current_running_task s of
        None \<Rightarrow> do {
          (next, s) \<leftarrow> scheduler_get_next_task s;
          case next of None \<Rightarrow> Some s | Some n \<Rightarrow> Some (make_current n s)
        }
      | Some p \<Rightarrow>
          let s = charge_tick p s in
          if t_ticks_remaining (tk s p) \<noteq> 0 then Some s
          else do {
            (next, s) \<leftarrow> scheduler_get_next_task s;
            case next of
              None \<Rightarrow> Some (refill_slice p s)
            | Some n \<Rightarrow>
                if n = p then Some (refill_slice p s) else schedule_switch p n s
          })"

definition scheduler_yield :: "sched \<Rightarrow> sched option" where
  "scheduler_yield s =
     (if \<not> scheduler_enabled s then Some s
      else case current_running_task s of
        None \<Rightarrow> Some s
      | Some c \<Rightarrow>
          let s = (if ready_queue_head s = Some c then s\<lparr>ready_queue_head := t_next (tk s c)\<rparr> else s);
              s = upd_task c (\<lambda>k. k\<lparr>t_ticks_remaining := 0\<rparr>) s
          in scheduler_schedule s)"

section \<open>The timer interrupt\<close>

definition interrupt_context_enter :: "sched \<Rightarrow> sched" where
  "interrupt_context_enter s = s\<lparr>interrupt_context_depth := interrupt_context_depth s + 1\<rparr>"

definition interrupt_context_exit :: "sched \<Rightarrow> sched" where
  "interrupt_context_exit s =
     (if interrupt_context_depth s > 0 then s\<lparr>interrupt_context_depth := interrupt_context_depth s - 1\<rparr> else s)"

fun wake_sleepers :: "u32 \<Rightarrow> nat list \<Rightarrow> sched \<Rightarrow> sched option" where
  "wake_sleepers now [] s = Some s"
| "wake_sleepers now (i # is) s =
     (if t_state (tk s i) = TASK_STATE_SLEEPING \<and> now \<ge> t_wake_tick (tk s i)
      then Option.bind (scheduler_add_task (Some i) s) (wake_sleepers now is)
      else wake_sleepers now is s)"

definition reap_task :: "nat \<Rightarrow> sched \<Rightarrow> sched option" where
  \<comment> \<open>unlink, release (of the scheduler's state: the FPU), free the slot\<close>
  "reap_task i s = do {
     s \<leftarrow> scheduler_remove_task_locked (Some i) s;
     let s = scheduler_fpu_release (Some i) s;
     let s = upd_task i (\<lambda>k. k\<lparr>t_state := TASK_STATE_TERMINATED, t_pid := 0\<rparr>) s;
     let s = task_free_slot_for_task i s;
     Some (scheduler_fpu_release (Some i) s)
   }"

fun drain_cleanup :: "nat \<Rightarrow> sched \<Rightarrow> sched option" where
  \<comment> \<open>the queue holds at most \<open>k\<close> tasks\<close>
  "drain_cleanup k s =
     (if cleanup_queue_count s = 0 then Some s
      else case cleanup_queue_dequeue s of
        (None, s) \<Rightarrow> Some s
      | (Some i, s) \<Rightarrow> (case k of 0 \<Rightarrow> None | Suc k' \<Rightarrow> Option.bind (reap_task i s) (drain_cleanup k')))"

definition scheduler_schedule_from_interrupt :: "u32 \<Rightarrow> sched \<Rightarrow> sched option" where
  \<comment> \<open>the refill after the switch runs when the old task is resumed, by \<open>make_current\<close> with that very value\<close>
  "scheduler_schedule_from_interrupt now s =
     (if \<not> scheduler_enabled s then Some s
      else case current_running_task s of
        None \<Rightarrow> Some s
      | Some p \<Rightarrow> do {
          s \<leftarrow> wake_sleepers now (task_get_all s) s;
          s \<leftarrow> drain_cleanup (unat (cleanup_queue_count s)) s;
          if all_terminated s then None
          else do {
            let s = charge_tick p s;
            if t_ticks_remaining (tk s p) \<noteq> 0 then Some s
            else do {
              (next, s) \<leftarrow> scheduler_get_next_task s;
              case next of
                None \<Rightarrow> Some (refill_slice p s)
              | Some n \<Rightarrow>
                  if n = p then Some (refill_slice p s)
                  else scheduler_switch_kernel_context p n (switch_counted p n s)
            }
          }
        })"

definition scheduler_terminate_current_from_interrupt :: "sched \<Rightarrow> sched option" where
  "scheduler_terminate_current_from_interrupt s =
     (if \<not> scheduler_enabled s then None
      else do {
        p \<leftarrow> current_running_task s;
        if \<not> task_slot_is_live s p then None
        else if t_is_kernel_task (tk s p) then None
        else do {
          let s = upd_task p (\<lambda>k. k\<lparr>t_state := TASK_STATE_TERMINATED, t_ticks_remaining := 0\<rparr>) s;
          s \<leftarrow> scheduler_remove_task_locked (Some p) s;
          let s = snd (cleanup_queue_enqueue (Some p) s);
          (next, s) \<leftarrow> scheduler_get_next_task s;
          n \<leftarrow> next;
          if n = p then None
          else do {
            let s = upd_task n (\<lambda>k. k\<lparr>t_has_run_before := True\<rparr>) (make_current n s);
            let s = s\<lparr>total_context_switches := total_context_switches s + 1\<rparr>;
            scheduler_switch_kernel_context p n s
          }
        }
      })"

section \<open>Sleeping, blocking and priorities\<close>

definition sleep_mark :: "u32 \<Rightarrow> u32 \<Rightarrow> nat \<Rightarrow> sched \<Rightarrow> sched option" where
  \<comment> \<open>the critical section of \<open>task_sleep\<close>; \<open>now\<close> is the tick counter\<close>
  "sleep_mark now ticks c s = scheduler_remove_task (Some c)
     (upd_task c (\<lambda>k. k\<lparr>t_wake_tick := now + ticks, t_state := TASK_STATE_SLEEPING\<rparr>) s)"

definition task_sleep :: "u32 \<Rightarrow> u32 \<Rightarrow> sched \<Rightarrow> sched option" where
  "task_sleep now ticks s =
     (case current_running_task s of
        None \<Rightarrow> Some s
      | Some c \<Rightarrow> Option.bind (sleep_mark now ticks c s) scheduler_yield)"

definition exit_mark :: "nat \<Rightarrow> sched \<Rightarrow> sched option" where
  \<comment> \<open>the window of \<open>sys_exit\<close> with interrupts off, as far as the scheduler's state goes\<close>
  "exit_mark c s = scheduler_remove_task (Some c) (upd_task c (\<lambda>k. k\<lparr>t_state := TASK_STATE_ZOMBIE\<rparr>) s)"

definition terminate_other :: "nat \<Rightarrow> sched \<Rightarrow> sched option" where
  \<comment> \<open>the last branch of \<open>task_terminate_task\<close>, for a task that is not the current one, as one step; the code masks
    interrupts in \<open>scheduler_remove_task\<close> and \<open>task_free_slot_for_task\<close> only\<close>
  "terminate_other t s = do {
     let s = scheduler_fpu_release (Some t) s;
     s \<leftarrow> scheduler_remove_task (Some t) (upd_task t (\<lambda>k. k\<lparr>t_state := TASK_STATE_TERMINATED, t_pid := 0\<rparr>) s);
     Some (task_free_slot_for_task t s)
   }"

definition task_set_priority :: "task_ptr \<Rightarrow> u8 \<Rightarrow> sched \<Rightarrow> sched" where
  "task_set_priority task prio s =
     (case task of
        None \<Rightarrow> s
      | Some t \<Rightarrow>
          let priority_multipliers = [1, 2, 3, 5, 10] in
          if unat prio \<ge> length priority_multipliers then s
          else upd_task t (\<lambda>k. k\<lparr>t_priority := prio,
            t_time_slice := t_base_time_slice k * priority_multipliers ! unat prio,
            t_ticks_remaining := t_base_time_slice k * priority_multipliers ! unat prio\<rparr>) s)"

end
