(* ===== verification/Sched_Ring.thy ===== *)
theory Sched_Ring
  imports Sched_Model
begin

text \<open>
  The ready queue as a list. \<open>ready_queue s q\<close> says that the circular list starting at
  \<^verbatim>\<open>ready_queue_head\<close> visits exactly the slots \<open>q\<close> in this order, and that the tail pointer is one of
  them; \<^verbatim>\<open>scheduler_get_next_task\<close> rotates the head and leaves the tail, so the tail need not be the last.
  The lemmas say what each queue operation does to \<open>q\<close>.
\<close>

section \<open>Circular lists\<close>

definition ring :: "(nat \<Rightarrow> nat option) \<Rightarrow> nat list \<Rightarrow> bool" where
  "ring nx q \<longleftrightarrow> distinct q \<and> successively (\<lambda>a b. nx a = Some b) (q @ [hd q])"

lemma ring_Nil [simp]: "ring nx []"
  by (simp add: ring_def)

lemma ring_single [simp]: "ring nx [a] \<longleftrightarrow> nx a = Some a"
  by (simp add: ring_def)

lemma links_cong:
  "(\<And>x. x \<in> set p \<Longrightarrow> nx x = nx' x) \<Longrightarrow>
    successively (\<lambda>a b. nx a = Some b) (p @ [h]) = successively (\<lambda>a b. nx' a = Some b) (p @ [h])"
  by (induction p) (auto simp: successively_Cons)

lemma ring_cong: "(\<And>a. a \<in> set q \<Longrightarrow> nx a = nx' a) \<Longrightarrow> ring nx q = ring nx' q"
  using links_cong [of q nx nx'] by (simp add: ring_def)

lemma ring_rotate: "ring nx (a # q) \<longleftrightarrow> ring nx (q @ [a])"
  by (cases q) (auto simp: ring_def successively_append_iff successively_Cons hd_append)

lemma ring_rotates: "ring nx (xs @ ys) \<longleftrightarrow> ring nx (ys @ xs)"
proof (induction xs arbitrary: ys)
  case (Cons a xs)
  have "ring nx (a # (xs @ ys)) \<longleftrightarrow> ring nx (xs @ (ys @ [a]))" by (subst ring_rotate) simp
  also have "\<dots> \<longleftrightarrow> ring nx ((ys @ [a]) @ xs)" by (rule Cons.IH)
  finally show ?case by simp
qed simp

lemma ring_step: "ring nx (xs @ a # b # ys) \<Longrightarrow> nx a = Some b"
  by (auto simp: ring_def successively_append_iff successively_Cons)

lemma ring_close: "ring nx (a # xs @ [b]) \<Longrightarrow> nx b = Some a"
  by (auto simp: ring_def successively_append_iff successively_Cons)

lemma ring_head:
  assumes "ring nx (a # q)"
  shows "nx a = Some (hd (q @ [a]))"
  using assms by (auto simp: ring_def successively_Cons successively_append_iff)

lemma ring_distinct: "ring nx q \<Longrightarrow> distinct q"
  by (simp add: ring_def)

lemma ring_insert_last:
  assumes "ring nx (xs @ [a])" and "b \<notin> set (xs @ [a])"
  shows "ring (nx(a := Some b, b := nx a)) (xs @ [a, b])"
proof (cases xs)
  case Nil
  then show ?thesis using assms by (auto simp: ring_def)
next
  case (Cons c ys)
  have "nx a = Some c" using assms(1) Cons by (auto intro: ring_close)
  moreover have l: "successively (\<lambda>x y. nx x = Some y) (xs @ [a])" "a \<notin> set xs"
    using assms(1) by (auto simp: ring_def successively_append_iff)
  have "successively (\<lambda>x y. (nx(a := Some b, b := nx a)) x = Some y) (xs @ [a])"
    by (rule links_cong [THEN iffD1, OF _ l(1)]) (use l(2) assms(2) in auto)
  ultimately show ?thesis
    using assms Cons by (auto simp: ring_def successively_append_iff successively_Cons hd_append)
qed

lemma ring_insert:
  assumes "ring nx (xs @ a # ys)" and "b \<notin> set (xs @ a # ys)"
  shows "ring (nx(a := Some b, b := nx a)) (xs @ a # b # ys)"
proof -
  have "ring nx ((ys @ xs) @ [a])" using assms(1) ring_rotates [of nx "xs @ [a]" ys] by simp
  then have "ring (nx(a := Some b, b := nx a)) (ys @ (xs @ [a, b]))"
    using ring_insert_last [of nx "ys @ xs" a b] assms(2) by auto
  then show ?thesis using ring_rotates [of _ ys "xs @ [a, b]"] by simp
qed

lemma ring_cut:
  assumes "ring nx (h # xs @ a # ys)"
  shows "ring (nx(a := nx h, h := None)) (xs @ [a])"
proof -
  have h: "nx h = Some (hd (xs @ [a]))" using assms ring_head [of nx h] by (cases xs) auto
  have l: "successively (\<lambda>x y. nx x = Some y) (xs @ [a])" "a \<notin> set xs" "h \<notin> set (xs @ [a])" "distinct xs"
    using assms by (auto simp: ring_def successively_append_iff successively_Cons)
  have "successively (\<lambda>x y. (nx(a := nx h, h := None)) x = Some y) (xs @ [a])"
    by (rule links_cong [THEN iffD1, OF _ l(1)]) (use l(2,3) in auto)
  then show ?thesis
    using h l by (cases xs) (auto simp: ring_def successively_append_iff successively_Cons hd_append)
qed

lemma ring_remove:
  assumes "ring nx (xs @ p # a # ys)"
  shows "ring (nx(p := nx a, a := None)) (xs @ p # ys)"
proof -
  have "ring nx (a # (ys @ xs) @ p # [])" using assms ring_rotates [of nx "xs @ [p]" "a # ys"] by simp
  then have "ring (nx(p := nx a, a := None)) ((ys @ xs) @ [p])" by (rule ring_cut)
  then show ?thesis using ring_rotates [of _ ys "xs @ [p]"] by simp
qed

section \<open>The queue of the scheduler\<close>

abbreviation nexts :: "sched \<Rightarrow> nat \<Rightarrow> nat option" where
  "nexts s \<equiv> (\<lambda>i. t_next (tk s i))"

definition ready_queue :: "sched \<Rightarrow> nat list \<Rightarrow> bool" where
  "ready_queue s q \<longleftrightarrow> set q \<subseteq> {..<length (tasks s)} \<and> ring (nexts s) q \<and>
     (if q = [] then ready_queue_head s = None \<and> ready_queue_tail s = None
      else ready_queue_head s = Some (hd q) \<and> (\<exists>t \<in> set q. ready_queue_tail s = Some t))"

lemma tk_upd [simp]:
  "i < length (tasks s) \<Longrightarrow> tk (upd_task i f s) j = (if j = i then f (tk s i) else tk s j)"
  by (simp add: tk_def upd_task_def)

lemma tk_sel [simp]:
  "tk (s\<lparr>ready_queue_head := h\<rparr>) = tk s" "tk (s\<lparr>ready_queue_tail := h\<rparr>) = tk s"
  "tk (s\<lparr>current_running_task := h\<rparr>) = tk s" "tk (s\<lparr>total_context_switches := c\<rparr>) = tk s"
  "tk (s\<lparr>fpu_owner := h\<rparr>) = tk s" "tk (s\<lparr>scheduler_enabled := b\<rparr>) = tk s" "tk (s\<lparr>tss_esp0 := e\<rparr>) = tk s"
  "tk (s\<lparr>interrupt_context_depth := c\<rparr>) = tk s" "tk (s\<lparr>critical_section_depth := c\<rparr>) = tk s"
  "tk (s\<lparr>critical_section_saved_flags := c\<rparr>) = tk s" "tk (s\<lparr>cleanup_queue := x\<rparr>) = tk s"
  "tk (s\<lparr>cleanup_queue_head := c\<rparr>) = tk s" "tk (s\<lparr>cleanup_queue_tail := c\<rparr>) = tk s"
  "tk (s\<lparr>cleanup_queue_count := c\<rparr>) = tk s" "tk (s\<lparr>slot_generations := g\<rparr>) = tk s"
  "tk (s\<lparr>free_slot_bitmap := c\<rparr>) = tk s"
  by (simp_all add: tk_def fun_eq_iff)

lemma upd_task_sel [simp]:
  "length (tasks (upd_task i f s)) = length (tasks s)"
  "ready_queue_head (upd_task i f s) = ready_queue_head s" "ready_queue_tail (upd_task i f s) = ready_queue_tail s"
  "current_running_task (upd_task i f s) = current_running_task s" "scheduler_enabled (upd_task i f s) = scheduler_enabled s"
  "slot_generations (upd_task i f s) = slot_generations s" "cleanup_queue (upd_task i f s) = cleanup_queue s"
  "cleanup_queue_head (upd_task i f s) = cleanup_queue_head s" "cleanup_queue_tail (upd_task i f s) = cleanup_queue_tail s"
  "cleanup_queue_count (upd_task i f s) = cleanup_queue_count s" "interrupt_context_depth (upd_task i f s) = interrupt_context_depth s"
  "critical_section_depth (upd_task i f s) = critical_section_depth s" "fpu_owner (upd_task i f s) = fpu_owner s"
  "free_slot_bitmap (upd_task i f s) = free_slot_bitmap s" "tss_esp0 (upd_task i f s) = tss_esp0 s"
  "critical_section_saved_flags (upd_task i f s) = critical_section_saved_flags s"
  by (simp_all add: upd_task_def)

lemma ready_queue_same:
  assumes "ready_queue s q" and "length (tasks s') = length (tasks s)" and "\<And>i. i \<in> set q \<Longrightarrow> t_next (tk s' i) = t_next (tk s i)"
    and "ready_queue_head s' = ready_queue_head s" and "ready_queue_tail s' = ready_queue_tail s"
  shows "ready_queue s' q"
  using assms ring_cong [of q "nexts s'" "nexts s"] by (simp add: ready_queue_def)

lemma ring_nth:
  assumes "ring nx q" and "i \<le> length q"
  shows "(q @ [hd q]) ! i = ((the \<circ> nx) ^^ i) (hd q)"
  using assms(2)
proof (induction i)
  case 0
  then show ?case by (cases q) auto
next
  case (Suc i)
  have "nx ((q @ [hd q]) ! i) = Some ((q @ [hd q]) ! Suc i)"
    using assms(1) Suc.prems by (simp add: ring_def successively_conv_nth)
  then show ?case using Suc by simp
qed

lemma ring_unique:
  assumes r: "ring nx q" "ring nx q'" and h: "hd q = hd q'" and ne: "q \<noteq> []" "q' \<noteq> []"
  shows "q = q'"
proof -
  have le: "length p' \<le> length p" if p: "ring nx p" "ring nx p'" "hd p = hd p'" "p \<noteq> []" for p p'
  proof (rule ccontr)
    assume l: "\<not> length p' \<le> length p"
    then have "p' ! length p = hd p'"
      using ring_nth [OF p(1), of "length p"] ring_nth [OF p(2), of "length p"] p(3) by (simp add: nth_append)
    also have "\<dots> = p' ! 0" using l by (cases p') auto
    finally have "length p = 0" using l ring_distinct [OF p(2)] nth_eq_iff_index_eq [of p' "length p" 0] by (cases p') auto
    then show False using p(4) by simp
  qed
  have len: "length q = length q'" using le [OF r h ne(1)] le [OF r(2,1) h [symmetric] ne(2)] by simp
  show ?thesis
  proof (rule nth_equalityI [OF len])
    fix i assume "i < length q"
    then show "q ! i = q' ! i" using ring_nth [OF r(1), of i] ring_nth [OF r(2), of i] h len by (simp add: nth_append)
  qed
qed

lemma ready_queue_unique: "ready_queue s q \<Longrightarrow> ready_queue s q' \<Longrightarrow> q = q'"
  by (cases "q = [] \<or> q' = []") (auto simp: ready_queue_def split: if_splits intro: ring_unique)

lemma ready_queue_head: "ready_queue s (h # q) \<Longrightarrow> ready_queue_head s = Some h"
  by (simp add: ready_queue_def)

lemma ready_queue_empty: "ready_queue s q \<Longrightarrow> ready_queue_head s = None \<longleftrightarrow> q = []"
  by (auto simp: ready_queue_def split: if_splits)

lemma ready_queue_length: "ready_queue s q \<Longrightarrow> length q \<le> length (tasks s)"
  using card_mono [of "{..<length (tasks s)}" "set q"] by (auto simp: ready_queue_def ring_def distinct_card)

lemma ready_queue_bound: "ready_queue s q \<Longrightarrow> i \<in> set q \<Longrightarrow> i < length (tasks s)"
  by (auto simp: ready_queue_def)

lemma not_head:
  assumes "ready_queue s (xs @ c # ys)" and "xs \<noteq> []"
  shows "ready_queue_head s \<noteq> Some c"
proof -
  have "hd xs \<in> set xs" using assms(2) by simp
  then have "hd xs \<noteq> c" using assms(1) by (auto simp: ready_queue_def ring_def)
  then show ?thesis using assms by (simp add: ready_queue_def)
qed

declare ring_scan.simps [simp del] remove_loop.simps [simp del]

lemma ring_scan_suffix:
  assumes "ready_queue s (xs @ c # ys)" and "length ys \<le> k"
  shows "ring_scan s t k c \<longleftrightarrow> t \<in> set (c # ys)"
  using assms
proof (induction ys arbitrary: xs c k)
  case Nil
  have "t_next (tk s c) = ready_queue_head s"
    using Nil(1) ring_close [of "nexts s" "hd xs" "tl xs" c] by (cases xs) (auto simp: ready_queue_def)
  then show ?case by (subst ring_scan.simps) (auto split: option.splits)
next
  case (Cons d ys)
  have d: "t_next (tk s c) = Some d" using Cons.prems(1) ring_step [of "nexts s" xs c d ys] by (simp add: ready_queue_def)
  have "ready_queue_head s \<noteq> Some d" using Cons.prems(1) by (cases xs) (auto simp: ready_queue_def ring_def)
  moreover obtain k' where "k = Suc k'" "length ys \<le> k'" using Cons.prems(2) by (cases k) auto
  ultimately show ?case
    using Cons.IH [of "xs @ [c]" d k'] Cons.prems(1) d by (subst ring_scan.simps) auto
qed

lemma ring_scan_member:
  assumes "ready_queue s q" and "ready_queue_head s = Some h" and "length (tasks s) = MAX_TASKS"
  shows "ring_scan s t MAX_TASKS h \<longleftrightarrow> t \<in> set q"
proof -
  obtain ys where "q = [] @ h # ys" using assms(1,2) by (cases q) (auto simp: ready_queue_def)
  then show ?thesis using ring_scan_suffix [of s "[]" h ys 32 t] ready_queue_length [OF assms(1)] assms(1,3) by auto
qed

text \<open>
  \<open>relinked s s'\<close>: the two states differ in the links of the ready queue only.
\<close>

definition relinked :: "sched \<Rightarrow> sched \<Rightarrow> bool" where
  "relinked s s' \<longleftrightarrow> length (tasks s') = length (tasks s) \<and>
     (\<forall>i. (tk s' i)\<lparr>t_next := None\<rparr> = (tk s i)\<lparr>t_next := None\<rparr>) \<and>
     s'\<lparr>tasks := [], ready_queue_head := None, ready_queue_tail := None\<rparr> =
     s\<lparr>tasks := [], ready_queue_head := None, ready_queue_tail := None\<rparr>"

lemma relinked_refl [simp]: "relinked s s"
  by (simp add: relinked_def)

lemma relinked_trans: "relinked s s' \<Longrightarrow> relinked s' s'' \<Longrightarrow> relinked s s''"
  by (simp add: relinked_def)

lemma unlink_node_next:
  assumes "p \<noteq> x" and "p < length (tasks s)" and "x < length (tasks s)"
  shows "nexts (unlink_node x p s) = (nexts s)(p := t_next (tk s x), x := None)"
  using assms by (auto simp: unlink_node_def Let_def fun_eq_iff)

lemma unlink_node_ends:
  assumes "p \<noteq> x" and "p < length (tasks s)" and "x < length (tasks s)"
  shows "ready_queue_head (unlink_node x p s) = (if ready_queue_head s = Some x then t_next (tk s x) else ready_queue_head s)"
    and "ready_queue_tail (unlink_node x p s) = (if ready_queue_tail s = Some x then Some p else ready_queue_tail s)"
  using assms by (auto simp: unlink_node_def Let_def)

lemma unlink_node_relinked:
  assumes "p < length (tasks s)" and "x < length (tasks s)"
  shows "relinked s (unlink_node x p s)"
  using assms by (simp add: relinked_def unlink_node_def Let_def upd_task_def tk_def nth_list_update)

lemma unlink_node_queue:
  assumes q: "ready_queue s (xs @ p # x # ys)"
  shows "ready_queue (unlink_node x p s) (xs @ p # ys)"
proof -
  have b: "p \<noteq> x" "p < length (tasks s)" "x < length (tasks s)" "ready_queue_head s \<noteq> Some x"
    using q by (auto simp: ready_queue_def ring_def hd_append split: if_splits)
  have "ring (nexts (unlink_node x p s)) (xs @ p # ys)"
    unfolding unlink_node_next [OF b(1-3)] using q by (intro ring_remove) (simp add: ready_queue_def)
  moreover have "length (tasks (unlink_node x p s)) = length (tasks s)"
    using unlink_node_relinked [OF b(2,3)] by (simp add: relinked_def)
  ultimately show ?thesis
    using q b unfolding ready_queue_def unlink_node_ends [OF b(1-3)] by (auto simp: hd_append)
qed

lemma remove_loop_found:
  assumes "ready_queue s (ws @ us @ p # x # zs)" and "length us + 2 \<le> k"
  shows "remove_loop k x (Some (hd (us @ [p]))) pr s = Some (unlink_node x p s)"
  using assms
proof (induction us arbitrary: ws k pr)
  case Nil
  obtain k' where k: "k = Suc (Suc k')" using Nil(2) by (auto simp: numeral_2_eq_2 Suc_le_D dest!: le_Suc_ex)
  have "t_next (tk s p) = Some x" using Nil(1) ring_step [of "nexts s" ws p x zs] by (simp add: ready_queue_def)
  moreover have "p \<noteq> x" "ready_queue_head s \<noteq> Some x"
    using Nil(1) by (auto simp: ready_queue_def ring_def hd_append split: if_splits)
  ultimately show ?case by (simp add: k remove_loop.simps)
next
  case (Cons c us)
  obtain k' where k: "k = Suc k'" "length us + 2 \<le> k'" using Cons.prems(2) by (cases k) auto
  let ?d = "hd (us @ [p])"
  have "t_next (tk s c) = Some ?d"
    using Cons.prems(1) ring_step [of "nexts s" ws c ?d "tl (us @ [p]) @ x # zs"]
    by (cases us) (auto simp: ready_queue_def)
  moreover have "c \<noteq> x" using Cons.prems(1) by (auto simp: ready_queue_def ring_def)
  moreover have "ready_queue_head s \<noteq> Some ?d"
    by (rule not_head [of s "ws @ [c]" _ "tl (us @ [p]) @ x # zs"]) (use Cons.prems(1) in \<open>cases us; simp\<close>)+
  ultimately show ?case
    using Cons.IH [of "ws @ [c]" k' "Some c"] Cons.prems(1) k by (simp add: remove_loop.simps)
qed

lemma remove_loop_absent:
  assumes "ready_queue s (ws @ us)" and "us \<noteq> []" and "x \<notin> set us" and "length us \<le> k"
  shows "remove_loop k x (Some (hd us)) pr s = Some s"
  using assms
proof (induction us arbitrary: ws k pr)
  case (Cons c us)
  obtain k' where k: "k = Suc k'" "length us \<le> k'" using Cons.prems(4) by (cases k) auto
  show ?case
  proof (cases us)
    case Nil
    have "t_next (tk s c) = ready_queue_head s"
      using Cons.prems(1) Nil ring_close [of "nexts s" "hd ws" "tl ws" c] by (cases ws) (auto simp: ready_queue_def)
    then show ?thesis using k Cons.prems(3) by (simp add: remove_loop.simps)
  next
    case (Cons d vs)
    have "t_next (tk s c) = Some d" using Cons Cons.prems(1) ring_step [of "nexts s" ws c d vs] by (simp add: ready_queue_def)
    moreover have "ready_queue_head s \<noteq> Some d"
      using Cons Cons.prems(1) not_head [of s "ws @ [c]" d vs] by simp
    ultimately show ?thesis
      using Cons.IH [of "ws @ [c]" k' "Some c"] Cons.prems Cons k by (simp add: remove_loop.simps)
  qed
qed simp

section \<open>Removing a task\<close>

definition detachable :: "sched \<Rightarrow> nat \<Rightarrow> bool" where
  \<comment> \<open>a task \<^verbatim>\<open>scheduler_remove_task\<close> unlinks correctly: it is not the head, or the tail precedes the head\<close>
  "detachable s x \<longleftrightarrow> (ready_queue_head s = Some x \<longrightarrow>
     (case ready_queue_tail s of Some p \<Rightarrow> t_next (tk s p) = Some x | None \<Rightarrow> False))"

lemma tail_is_last:
  assumes "ready_queue s q" and "ready_queue_tail s = Some p" and "q \<noteq> []"
  shows "t_next (tk s p) = Some (hd q) \<longleftrightarrow> p = last q"
proof -
  have "p \<in> set q" using assms by (auto simp: ready_queue_def)
  then obtain xs ys where q: "q = xs @ p # ys" by (meson split_list)
  show ?thesis
  proof (cases ys)
    case Nil
    then show ?thesis
      using q assms(1) ring_close [of "nexts s" "hd xs" "tl xs" p] by (cases xs) (auto simp: ready_queue_def)
  next
    case (Cons y zs)
    have "t_next (tk s p) = Some y" using assms(1) q Cons ring_step [of "nexts s" xs p y zs] by (simp add: ready_queue_def)
    moreover have "hd q \<noteq> y" using not_head [of s "xs @ [p]" y zs] assms(1,3) q Cons by (auto simp: ready_queue_def)
    moreover have "p \<noteq> last q" using assms(1) q Cons by (auto simp: ready_queue_def ring_def)
    ultimately show ?thesis by simp
  qed
qed

lemma detachable_iff:
  assumes "ready_queue s q"
  shows "detachable s x \<longleftrightarrow> (q \<noteq> [] \<longrightarrow> x = hd q \<longrightarrow> ready_queue_tail s = Some (last q))"
proof (cases "q = []")
  case True
  then show ?thesis using assms by (simp add: detachable_def ready_queue_def)
next
  case False
  then obtain p where "ready_queue_tail s = Some p" "ready_queue_head s = Some (hd q)" using assms by (auto simp: ready_queue_def)
  then show ?thesis using tail_is_last [OF assms _ False] False by (auto simp: detachable_def)
qed

lemma not_self_linked:
  assumes "ready_queue s (h # q)" and "q \<noteq> []"
  shows "t_next (tk s h) \<noteq> Some h"
proof -
  have "t_next (tk s h) = Some (hd q)" using ring_head [of "nexts s" h q] assms by (simp add: ready_queue_def)
  moreover have "hd q \<in> set q" "h \<notin> set q" using assms by (auto simp: ready_queue_def ring_def)
  ultimately show ?thesis by auto
qed

lemma remove_locked_loop:
  assumes "ready_queue s (h # q)" and "q \<noteq> [] \<or> x \<noteq> h"
  shows "scheduler_remove_task_locked (Some x) s = remove_loop (MAX_TASKS + 1) x (Some h) (ready_queue_tail s) s"
  using assms not_self_linked [of s h q] by (auto simp: scheduler_remove_task_locked_def ready_queue_head)

lemma remove_absent:
  assumes "ready_queue s q" and "length (tasks s) = MAX_TASKS" and "x \<notin> set q"
  shows "scheduler_remove_task_locked (Some x) s = Some s"
proof (cases q)
  case Nil
  then show ?thesis using assms(1) by (simp add: scheduler_remove_task_locked_def ready_queue_def)
next
  case (Cons h r)
  then show ?thesis
    using remove_loop_absent [of s "[]" q x 33 "ready_queue_tail s"] assms ready_queue_length [OF assms(1)]
    by (simp add: remove_locked_loop)
qed

lemma remove_inner:
  assumes "ready_queue s (xs @ p # x # ys)" and "length (tasks s) = MAX_TASKS"
  shows "scheduler_remove_task_locked (Some x) s = Some (unlink_node x p s)"
proof -
  obtain h r where hr: "xs @ p # x # ys = h # r" by (cases xs) auto
  have "x \<noteq> h" using not_head [of s "xs @ [p]" x ys] assms(1) hr by (auto simp: ready_queue_def)
  moreover have "h = hd (xs @ [p])" using hr by (cases xs) auto
  moreover have "length xs + 2 \<le> 33" using ready_queue_length [OF assms(1)] assms(2) by simp
  ultimately show ?thesis
    using remove_loop_found [of s "[]" xs p x ys 33] remove_locked_loop [of s h r x] assms(1) hr by simp
qed

lemma remove_head:
  assumes "ready_queue s (h # q)" and "q \<noteq> []" and "ready_queue_tail s = Some te"
  shows "scheduler_remove_task_locked (Some h) s = Some (unlink_node h te s)"
  using remove_locked_loop [OF assms(1), of h] assms(2,3) by (simp add: remove_loop.simps numeral_eq_Suc)

text \<open>
  With a stale tail the head's unlinking closes the ring at the tail: the tasks behind the
  tail fall out of the queue.
\<close>

lemma remove_head_queue:
  assumes q: "ready_queue s (h # ys @ te # zs)" and te: "ready_queue_tail s = Some te"
  shows "ready_queue (unlink_node h te s) (ys @ [te])" and "relinked s (unlink_node h te s)"
proof -
  have b: "te \<noteq> h" "te < length (tasks s)" "h < length (tasks s)" using q by (auto simp: ready_queue_def ring_def)
  show r: "relinked s (unlink_node h te s)" by (rule unlink_node_relinked [OF b(2,3)])
  have "ring (nexts (unlink_node h te s)) (ys @ [te])"
    unfolding unlink_node_next [OF b(1-3)] by (rule ring_cut [of _ _ _ _ zs]) (use q in \<open>simp add: ready_queue_def\<close>)
  moreover have "t_next (tk s h) = Some (hd (ys @ [te]))"
    using q ring_head [of "nexts s" h "ys @ te # zs"] by (cases ys) (auto simp: ready_queue_def)
  ultimately show "ready_queue (unlink_node h te s) (ys @ [te])"
    using q r te b(1) unfolding ready_queue_def unlink_node_ends [OF b(1-3)] by (auto simp: relinked_def)
qed

lemma remove_task_ok:
  assumes q: "ready_queue s q" and len: "length (tasks s) = MAX_TASKS" and d: "detachable s x"
  shows "\<exists>s'. scheduler_remove_task_locked (Some x) s = Some s' \<and> ready_queue s' (remove1 x q) \<and> relinked s s' \<and>
    (ready_queue_tail s = Some (last q) \<longrightarrow> remove1 x q \<noteq> [] \<longrightarrow> ready_queue_tail s' = Some (last (remove1 x q)))"
proof (cases "x \<in> set q")
  case False
  then show ?thesis using remove_absent [OF q len] q by (simp add: remove1_idem)
next
  case True
  then obtain xs ys where xs: "q = xs @ x # ys" "x \<notin> set xs" by (meson split_list_first)
  then have r1: "remove1 x q = xs @ ys" by (simp add: remove1_append)
  have bx: "x < length (tasks s)" by (rule ready_queue_bound [OF q True])
  consider (single) "xs = []" "ys = []" | (head) us p where "xs = []" "ys = us @ [p]" | (inner) us p where "xs = us @ [p]"
    by (metis rev_exhaust)
  then show ?thesis
  proof cases
    case single
    then have "t_next (tk s x) = Some x" using q xs by (simp add: ready_queue_def)
    then show ?thesis
      using q xs single r1 bx
      by (auto simp: scheduler_remove_task_locked_def ready_queue_def relinked_def upd_task_def tk_def nth_list_update)
  next
    case head
    then have "ready_queue_tail s = Some p" using d xs by (simp add: detachable_iff [OF q])
    moreover have "p \<noteq> x" using q xs head by (auto simp: ready_queue_def ring_def)
    moreover have "p < length (tasks s)" by (rule ready_queue_bound [OF q]) (simp add: xs head)
    ultimately show ?thesis
      using remove_head [of s x ys p] remove_head_queue [of s x us p "[]"] unlink_node_ends(2) [of p x s] q xs head r1 bx by simp
  next
    case inner
    then have "ready_queue s (us @ p # x # ys)" using q xs by simp
    note * = this remove_inner [OF this len] unlink_node_queue [OF this]
    have p: "p < length (tasks s)" by (rule ready_queue_bound [OF q]) (simp add: xs inner)
    moreover have "p \<noteq> x" using xs inner by auto
    moreover have "ys \<noteq> [] \<Longrightarrow> last ys \<noteq> x" using q xs last_in_set [of ys] by (auto simp: ready_queue_def ring_def)
    ultimately show ?thesis
      using * unlink_node_relinked [OF p bx] unlink_node_ends(2) [of p x s] r1 inner xs bx by (cases ys) auto
  qed
qed

section \<open>Adding a task and taking the next\<close>

definition made_ready :: "nat \<Rightarrow> sched \<Rightarrow> sched" where
  "made_ready t s = upd_task t (\<lambda>k. k\<lparr>t_state := TASK_STATE_READY, t_ticks_remaining := t_time_slice k\<rparr>) s"

lemma add_task_queued:
  assumes "ready_queue s q" and "length (tasks s) = MAX_TASKS" and "t \<in> set q"
  shows "scheduler_add_task (Some t) s = Some s"
proof -
  obtain h where "ready_queue_head s = Some h" using assms(1,3) by (cases q) (auto simp: ready_queue_def)
  then show ?thesis using ring_scan_member [OF assms(1) _ assms(2)] assms(3) by (simp add: scheduler_add_task_def)
qed

lemma add_task_empty:
  assumes "ready_queue s []" and "t < length (tasks s)" and "t_pid (tk s t) \<noteq> 0"
  shows "\<exists>s'. scheduler_add_task (Some t) s = Some s' \<and> ready_queue s' [t] \<and> relinked (made_ready t s) s'"
  using assms
  by (auto simp: scheduler_add_task_def made_ready_def ready_queue_def relinked_def word_less_1 Let_def upd_task_def tk_def nth_list_update)

lemma add_task_after_tail:
  assumes q: "ready_queue s (xs @ te # ys)" and te: "ready_queue_tail s = Some te" and len: "length (tasks s) = MAX_TASKS"
    and t: "t < MAX_TASKS" "t_pid (tk s t) \<noteq> 0" "t \<notin> set (xs @ te # ys)"
  shows "\<exists>s'. scheduler_add_task (Some t) s = Some s' \<and> ready_queue s' (xs @ te # t # ys) \<and>
    relinked (made_ready t s) s' \<and> ready_queue_tail s' = Some t"
proof -
  obtain h where h: "ready_queue_head s = Some h" using q by (auto simp: ready_queue_def)
  have b: "te < 32" "te \<noteq> t" using ready_queue_bound [OF q] t(3) len by auto
  define s2 where "s2 = (upd_task t (\<lambda>k. k\<lparr>t_next := t_next (tk s te)\<rparr>)
    (upd_task te (\<lambda>k. k\<lparr>t_next := Some t\<rparr>) (made_ready t s)))\<lparr>ready_queue_tail := Some t\<rparr>"
  have "\<not> ring_scan s t MAX_TASKS h" using ring_scan_member [OF q h len] t(3) by simp
  then have "scheduler_add_task (Some t) s = Some s2"
    using t b h te len by (simp add: scheduler_add_task_def s2_def made_ready_def Let_def word_less_1)
  moreover have nx: "nexts s2 = (nexts s)(te := Some t, t := t_next (tk s te))"
    using b t len by (auto simp: s2_def made_ready_def fun_eq_iff)
  have "ring (nexts s2) (xs @ te # t # ys)"
    unfolding nx using q t(3) by (intro ring_insert) (auto simp: ready_queue_def)
  then have "ready_queue s2 (xs @ te # t # ys)"
    using q t(1) len by (auto simp: ready_queue_def s2_def made_ready_def hd_append)
  moreover have "relinked (made_ready t s) s2"
    using b t len by (simp add: s2_def relinked_def made_ready_def upd_task_def tk_def nth_list_update)
  ultimately show ?thesis by (auto simp: s2_def)
qed

lemma add_task_ok:
  assumes q: "ready_queue s q" and len: "length (tasks s) = MAX_TASKS" and t: "t < MAX_TASKS" "t_pid (tk s t) \<noteq> 0" "t \<notin> set q"
  shows "\<exists>s' q'. scheduler_add_task (Some t) s = Some s' \<and> ready_queue s' q' \<and> set q' = insert t (set q) \<and>
    relinked (made_ready t s) s' \<and>
    (\<forall>c \<in> set q. c = last q \<or> ready_queue_tail s = Some (last q) \<longrightarrow> c = last q' \<or> ready_queue_tail s' = Some (last q'))"
proof (cases q)
  case Nil
  then show ?thesis using add_task_empty [of s t] q len t by (auto intro!: exI [of _ "[t]"])
next
  case (Cons h r)
  then obtain te where te: "ready_queue_tail s = Some te" "te \<in> set q" using q by (auto simp: ready_queue_def)
  then obtain xs ys where xs: "q = xs @ te # ys" by (meson split_list)
  then obtain s' where s': "scheduler_add_task (Some t) s = Some s'" "ready_queue s' (xs @ te # t # ys)"
    "relinked (made_ready t s) s'" "ready_queue_tail s' = Some t"
    using add_task_after_tail [of s xs te ys t] q len t te(1) by blast
  have "ys \<noteq> [] \<Longrightarrow> te \<noteq> last ys" using q xs last_in_set [of ys] by (auto simp: ready_queue_def ring_def)
  then have "c = last (xs @ te # t # ys) \<or> ready_queue_tail s' = Some (last (xs @ te # t # ys))"
    if "c = last q \<or> ready_queue_tail s = Some (last q)" for c
    using that te(1) s'(4) xs by (cases ys) auto
  then show ?thesis using s' xs by (intro exI [of _ s'] exI [of _ "xs @ te # t # ys"]) auto
qed

lemma get_next_head:
  assumes q: "ready_queue s (n # q)" and "runnable s n"
  shows "\<exists>s'. scheduler_get_next_task s = Some (Some n, s') \<and> ready_queue s' (q @ [n]) \<and> relinked s s' \<and>
    ready_queue_tail s' = ready_queue_tail s"
proof -
  let ?s = "s\<lparr>ready_queue_head := t_next (tk s n)\<rparr>"
  have "scheduler_get_next_task s = Some (Some n, ?s)"
    using assms by (subst scheduler_get_next_task.simps) (simp add: ready_queue_head)
  moreover have "t_next (tk s n) = Some (hd (q @ [n]))" using q ring_head [of "nexts s" n q] by (simp add: ready_queue_def)
  then have "ready_queue ?s (q @ [n])" using q by (auto simp: ready_queue_def ring_rotate)
  ultimately show ?thesis by (auto simp: relinked_def)
qed

end
