(* ===== verification/Sched_Safe.thy ===== *)
theory Sched_Safe
  imports Sched_Ring
begin

text \<open>
  Safety of the scheduler: the invariant of the task table, the ready queue and the
  cleanup queue, and that every operation in the contexts the kernel calls it in returns
  (no panic, no NULL pointer) and keeps the invariant.
\<close>

section \<open>The cleanup queue as a list\<close>

definition pending :: "sched \<Rightarrow> nat list \<Rightarrow> bool" where
  \<comment> \<open>the ring buffer holds \<open>xs\<close>, oldest first\<close>
  "pending s xs \<longleftrightarrow> length (cleanup_queue s) = 8 \<and> length xs \<le> 8 \<and> unat (cleanup_queue_count s) = length xs \<and>
     unat (cleanup_queue_head s) < 8 \<and> unat (cleanup_queue_tail s) = (unat (cleanup_queue_head s) + length xs) mod 8 \<and>
     (\<forall>j < length xs. cleanup_queue s ! ((unat (cleanup_queue_head s) + j) mod 8) = Some (xs ! j))"

lemma unat_inc_mod8: "unat x < 8 \<Longrightarrow> unat ((x + 1) mod 8 :: u32) = (unat x + 1) mod 8"
  by (simp add: unat_mod_distrib unat_u32_inc)

lemma cleanup_enqueue_pending:
  assumes "pending s xs" and "length xs < 8"
  shows "pending (snd (cleanup_queue_enqueue (Some i) s)) (xs @ [i])"
proof -
  let ?h = "unat (cleanup_queue_head s)"
  have neq: "(?h + j) mod 8 \<noteq> (?h + length xs) mod 8" if "j < length xs" for j
  proof
    assume "(?h + j) mod 8 = (?h + length xs) mod 8"
    then have "(length xs - j) mod 8 = 0"
      using that by (metis add_diff_cancel_left less_imp_le_nat mod_eq_dvd_iff_nat nat_add_left_cancel_le dvd_imp_mod_0)
    then show False using that assms(2) by simp
  qed
  have "unat (cleanup_queue_tail s) < 8" using assms by (simp add: pending_def)
  then have "unat ((cleanup_queue_tail s + 1) mod 8) = (?h + length (xs @ [i])) mod 8"
    using assms by (simp add: unat_inc_mod8 pending_def mod_Suc_eq)
  moreover have "cleanup_queue_count s < 8" "unat (cleanup_queue_count s + 1) = Suc (length xs)"
    using assms unat_u32_inc [of "cleanup_queue_count s"] by (auto simp: pending_def word_less_nat_alt)
  ultimately show ?thesis
    using assms neq neq [THEN not_sym]
    by (auto simp: pending_def cleanup_queue_enqueue_def nth_append nth_list_update less_Suc_eq)
qed

lemma cleanup_dequeue_pending:
  assumes "pending s (i # xs)"
  shows "fst (cleanup_queue_dequeue s) = Some i" and "pending (snd (cleanup_queue_dequeue s)) xs"
proof -
  let ?h = "unat (cleanup_queue_head s)"
  have c0: "cleanup_queue_count s \<noteq> 0" using assms by (auto simp: pending_def)
  have c: "cleanup_queue_count s \<noteq> 0" "unat (cleanup_queue_count s - 1) = length xs"
    using c0 assms unat_u32_dec [OF c0] by (auto simp: pending_def)
  have h: "?h < 8" "cleanup_queue s ! ?h = Some i" using assms by (auto simp: pending_def)
  show "fst (cleanup_queue_dequeue s) = Some i" using c h by (simp add: cleanup_queue_dequeue_def)
  have nth: "cleanup_queue s ! ((Suc ?h mod 8 + j) mod 8) = Some (xs ! j)" if "j < length xs" for j
    using assms that unfolding pending_def by (auto dest!: spec [of _ "Suc j"] simp: mod_simps)
  have neq: "(Suc ?h mod 8 + j) mod 8 \<noteq> ?h" if "j < length xs" for j
  proof
    assume "(Suc ?h mod 8 + j) mod 8 = ?h"
    then have "(?h + Suc j) mod 8 = ?h mod 8" using h by (simp add: mod_simps)
    then have "Suc j mod 8 = 0" by (metis add_diff_cancel_left' dvd_imp_mod_0 le_add1 mod_eq_dvd_iff_nat)
    then show False using that assms by (auto simp: pending_def)
  qed
  have "unat (cleanup_queue_tail s) = (Suc ?h mod 8 + length xs) mod 8"
    using assms by (simp add: pending_def mod_simps)
  then show "pending (snd (cleanup_queue_dequeue s)) xs"
    using assms c h nth neq neq [THEN not_sym] unat_inc_mod8 [of "cleanup_queue_head s"]
    by (auto simp: pending_def cleanup_queue_dequeue_def nth_list_update)
qed

section \<open>The invariant\<close>

definition alive :: "task_state \<Rightarrow> bool" where
  "alive st \<longleftrightarrow> st \<noteq> TASK_STATE_ZOMBIE \<and> st \<noteq> TASK_STATE_TERMINATED"

definition active :: "task_state \<Rightarrow> bool" where
  "active st \<longleftrightarrow> st = TASK_STATE_READY \<or> st = TASK_STATE_RUNNING"

definition stack_ok :: "tcb \<Rightarrow> bool" where
  \<comment> \<open>what \<^verbatim>\<open>tss_set_kernel_stack\<close> insists on\<close>
  "stack_ok k \<longleftrightarrow> t_is_kernel_task k \<or> 0x00100000 \<le> t_kernel_stack k \<and> t_kernel_stack k AND 0xF = 0"

definition slot_ok :: "sched \<Rightarrow> nat set \<Rightarrow> nat list \<Rightarrow> nat \<Rightarrow> bool" where
  \<comment> \<open>slot \<open>i\<close> when \<open>Q\<close> is the set of queued tasks and \<open>xs\<close> are waiting to be reaped\<close>
  "slot_ok s Q xs i \<longleftrightarrow>
     (i \<in> Q \<longleftrightarrow> active (t_state (tk s i))) \<and>
     (alive (t_state (tk s i)) \<longrightarrow> task_slot_is_live s i \<and> stack_ok (tk s i)) \<and>
     (t_state (tk s i) = TASK_STATE_RUNNING \<longrightarrow> current_running_task s = Some i) \<and>
     t_saved_int_depth (tk s i) \<le> 1 \<and>
     (i \<in> set xs \<longrightarrow> \<not> alive (t_state (tk s i)) \<and> current_running_task s \<noteq> Some i) \<and>
     (bit (free_slot_bitmap s) i \<longrightarrow>
        t_state (tk s i) = TASK_STATE_TERMINATED \<and> i \<notin> set xs \<and> current_running_task s \<noteq> Some i)"

definition sched_ok :: "sched \<Rightarrow> nat list \<Rightarrow> nat list \<Rightarrow> bool" where
  "sched_ok s q xs \<longleftrightarrow> length (tasks s) = MAX_TASKS \<and> length (slot_generations s) = MAX_TASKS \<and>
     ready_queue s q \<and> pending s xs \<and> distinct xs \<and> set xs \<subseteq> {..<MAX_TASKS} \<and>
     (\<forall>i < MAX_TASKS. slot_ok s (set q) xs i)"

definition tail_ok :: "sched \<Rightarrow> nat list \<Rightarrow> bool" where
  \<comment> \<open>the running task is the last of the ring, or the tail is\<close>
  "tail_ok s q \<longleftrightarrow> (\<forall>c \<in> set q. current_running_task s = Some c \<longrightarrow> c = last q \<or> ready_queue_tail s = Some (last q))"

definition sched_inv :: "bool \<Rightarrow> sched \<Rightarrow> bool" where
  \<comment> \<open>between two operations; the flag is set while the current task has left the queue and is on its
      way to \<^verbatim>\<open>scheduler_yield\<close>\<close>
  "sched_inv leaving s \<longleftrightarrow> (\<exists>q xs c. sched_ok s q xs \<and> q \<noteq> [] \<and> c < MAX_TASKS \<and> current_running_task s = Some c \<and>
     (\<not> leaving \<longrightarrow> c \<in> set q \<and> tail_ok s q)) \<and> scheduler_enabled s \<and> interrupt_context_depth s = 0"

lemma active_alive: "active st \<Longrightarrow> alive st"
  by (auto simp: active_def alive_def)

lemma state_simps [simp]:
  "active TASK_STATE_READY" "active TASK_STATE_RUNNING" "\<not> active TASK_STATE_BLOCKED" "\<not> active TASK_STATE_SLEEPING"
  "\<not> active TASK_STATE_ZOMBIE" "\<not> active TASK_STATE_TERMINATED" "alive TASK_STATE_READY" "alive TASK_STATE_RUNNING"
  "alive TASK_STATE_BLOCKED" "alive TASK_STATE_SLEEPING" "\<not> alive TASK_STATE_ZOMBIE" "\<not> alive TASK_STATE_TERMINATED"
  by (simp_all add: active_def alive_def)

lemma sched_okD:
  assumes "sched_ok s q xs"
  shows "length (tasks s) = 32" "length (slot_generations s) = 32" "ready_queue s q" "pending s xs" "distinct xs"
    "i \<in> set xs \<Longrightarrow> i < 32" "i < 32 \<Longrightarrow> slot_ok s (set q) xs i"
  using assms by (auto simp: sched_ok_def)

lemma slot_okD:
  assumes "slot_ok s Q xs i"
  shows "i \<in> Q \<longleftrightarrow> active (t_state (tk s i))" "alive (t_state (tk s i)) \<Longrightarrow> task_slot_is_live s i"
    "alive (t_state (tk s i)) \<Longrightarrow> stack_ok (tk s i)" "t_state (tk s i) = TASK_STATE_RUNNING \<Longrightarrow> current_running_task s = Some i"
    "t_saved_int_depth (tk s i) \<le> 1" "i \<in> set xs \<Longrightarrow> \<not> alive (t_state (tk s i))" "i \<in> set xs \<Longrightarrow> current_running_task s \<noteq> Some i"
    "bit (free_slot_bitmap s) i \<Longrightarrow> t_state (tk s i) = TASK_STATE_TERMINATED \<and> i \<notin> set xs \<and> current_running_task s \<noteq> Some i"
  using assms by (auto simp: slot_ok_def)

lemma queued_runnable: "sched_ok s q xs \<Longrightarrow> i \<in> set q \<Longrightarrow> runnable s i"
  using ready_queue_bound [of s q i] slot_okD(1,2) [of s "set q" xs i]
  by (auto simp: sched_ok_def runnable_def active_def active_alive)

text \<open>Changes the invariant does not see.\<close>

lemma relinked_tcb:
  assumes "relinked s s'"
  shows "t_state (tk s' i) = t_state (tk s i)" "t_pid (tk s' i) = t_pid (tk s i)" "t_generation (tk s' i) = t_generation (tk s i)"
    "t_is_kernel_task (tk s' i) = t_is_kernel_task (tk s i)" "t_kernel_stack (tk s' i) = t_kernel_stack (tk s i)"
    "t_saved_int_depth (tk s' i) = t_saved_int_depth (tk s i)" "t_ticks_remaining (tk s' i) = t_ticks_remaining (tk s i)"
    "t_time_slice (tk s' i) = t_time_slice (tk s i)" "t_wake_tick (tk s' i) = t_wake_tick (tk s i)"
    "t_blocked_on_wq (tk s' i) = t_blocked_on_wq (tk s i)"
proof -
  have "(tk s' i)\<lparr>t_next := None\<rparr> = (tk s i)\<lparr>t_next := None\<rparr>" using assms by (simp add: relinked_def)
  note e = arg_cong [OF this]
  show "t_state (tk s' i) = t_state (tk s i)" "t_pid (tk s' i) = t_pid (tk s i)" "t_generation (tk s' i) = t_generation (tk s i)"
    "t_is_kernel_task (tk s' i) = t_is_kernel_task (tk s i)" "t_kernel_stack (tk s' i) = t_kernel_stack (tk s i)"
    "t_saved_int_depth (tk s' i) = t_saved_int_depth (tk s i)" "t_ticks_remaining (tk s' i) = t_ticks_remaining (tk s i)"
    "t_time_slice (tk s' i) = t_time_slice (tk s i)" "t_wake_tick (tk s' i) = t_wake_tick (tk s i)"
    "t_blocked_on_wq (tk s' i) = t_blocked_on_wq (tk s i)"
    using e [of t_state] e [of t_pid] e [of t_generation] e [of t_is_kernel_task] e [of t_kernel_stack]
      e [of t_saved_int_depth] e [of t_ticks_remaining] e [of t_time_slice] e [of t_wake_tick] e [of t_blocked_on_wq] by simp_all
qed

lemma relinked_sel:
  assumes "relinked s s'"
  shows "length (tasks s') = length (tasks s)" "slot_generations s' = slot_generations s" "current_running_task s' = current_running_task s"
    "cleanup_queue s' = cleanup_queue s" "cleanup_queue_head s' = cleanup_queue_head s" "cleanup_queue_tail s' = cleanup_queue_tail s"
    "cleanup_queue_count s' = cleanup_queue_count s" "scheduler_enabled s' = scheduler_enabled s"
    "interrupt_context_depth s' = interrupt_context_depth s" "free_slot_bitmap s' = free_slot_bitmap s"
proof -
  have "s'\<lparr>tasks := [], ready_queue_head := None, ready_queue_tail := None\<rparr> =
     s\<lparr>tasks := [], ready_queue_head := None, ready_queue_tail := None\<rparr>" using assms by (simp add: relinked_def)
  note e = arg_cong [OF this]
  show "length (tasks s') = length (tasks s)" using assms by (simp add: relinked_def)
  show "slot_generations s' = slot_generations s" "current_running_task s' = current_running_task s"
    "cleanup_queue s' = cleanup_queue s" "cleanup_queue_head s' = cleanup_queue_head s" "cleanup_queue_tail s' = cleanup_queue_tail s"
    "cleanup_queue_count s' = cleanup_queue_count s" "scheduler_enabled s' = scheduler_enabled s"
    "interrupt_context_depth s' = interrupt_context_depth s" "free_slot_bitmap s' = free_slot_bitmap s"
    using e [of free_slot_bitmap] e [of slot_generations] e [of current_running_task] e [of cleanup_queue] e [of cleanup_queue_head]
      e [of cleanup_queue_tail] e [of cleanup_queue_count] e [of scheduler_enabled] e [of interrupt_context_depth] by simp_all
qed

lemma pending_cong:
  "cleanup_queue s' = cleanup_queue s \<Longrightarrow> cleanup_queue_head s' = cleanup_queue_head s \<Longrightarrow>
   cleanup_queue_tail s' = cleanup_queue_tail s \<Longrightarrow> cleanup_queue_count s' = cleanup_queue_count s \<Longrightarrow> pending s' xs = pending s xs"
  by (simp add: pending_def)

lemma sched_ok_relinked:
  assumes "sched_ok s q xs" and "relinked s s'" and "ready_queue s' q'" and "set q' = set q"
  shows "sched_ok s' q' xs"
  using assms pending_cong [OF relinked_sel(4-7) [OF assms(2)]]
  by (simp add: sched_ok_def slot_ok_def task_slot_is_live_def stack_ok_def relinked_tcb [OF assms(2)] relinked_sel [OF assms(2)])

definition same_slot :: "tcb \<Rightarrow> tcb \<Rightarrow> bool" where
  \<comment> \<open>equal in the fields the invariant reads\<close>
  "same_slot k k' \<longleftrightarrow> t_state k = t_state k' \<and> t_pid k = t_pid k' \<and> t_generation k = t_generation k' \<and>
     t_is_kernel_task k = t_is_kernel_task k' \<and> t_kernel_stack k = t_kernel_stack k' \<and> t_saved_int_depth k = t_saved_int_depth k'"

lemma same_slot_refl [simp]: "same_slot k k"
  by (simp add: same_slot_def)

lemma relinked_same_slot: "relinked s s' \<Longrightarrow> same_slot (tk s' i) (tk s i)"
  by (simp add: same_slot_def relinked_tcb)

lemma slot_ok_same:
  assumes "slot_ok s Q xs i" and "same_slot (tk s' i) (tk s i)" and "slot_generations s' ! i = slot_generations s ! i"
    and "current_running_task s' = current_running_task s" and "i \<in> Q' \<longleftrightarrow> i \<in> Q" and "i \<in> set xs' \<longrightarrow> i \<in> set xs"
    and "bit (free_slot_bitmap s') i = bit (free_slot_bitmap s) i"
  shows "slot_ok s' Q' xs' i"
  using assms by (auto simp: slot_ok_def same_slot_def task_slot_is_live_def stack_ok_def)

lemma sched_ok_change:
  \<comment> \<open>slot \<open>x\<close> changes, everything else stays\<close>
  assumes "sched_ok s q xs" and "length (tasks s') = length (tasks s)" and "length (slot_generations s') = length (slot_generations s)"
    and "\<And>i. i \<noteq> x \<Longrightarrow> slot_generations s' ! i = slot_generations s ! i \<and> bit (free_slot_bitmap s') i = bit (free_slot_bitmap s) i"
    and "current_running_task s' = current_running_task s" and "pending s' xs" and "ready_queue s' q'"
    and "set q' - {x} = set q - {x}" and "\<And>i. i \<noteq> x \<Longrightarrow> same_slot (tk s' i) (tk s i)" and "x < 32 \<Longrightarrow> slot_ok s' (set q') xs x"
  shows "sched_ok s' q' xs"
proof -
  have "slot_ok s' (set q') xs i" if "i < 32" for i
  proof (cases "i = x")
    case False
    then show ?thesis
      using slot_ok_same [OF sched_okD(7) [OF assms(1) that], of s' "set q'" xs] assms(4,5,8,9) by auto
  qed (use assms(10) that in simp)
  then show ?thesis using assms sched_okD [OF assms(1)] by (simp add: sched_ok_def)
qed

lemma sched_ok_same:
  assumes "sched_ok s q xs" and "length (tasks s') = length (tasks s)"
    and "slot_generations s' = slot_generations s \<and> free_slot_bitmap s' = free_slot_bitmap s"
    and "current_running_task s' = current_running_task s" and "pending s' xs" and "ready_queue s' q'" and "set q' = set q"
    and "\<And>i. same_slot (tk s' i) (tk s i)"
  shows "sched_ok s' q' xs"
  using sched_ok_change [OF assms(1,2) _ _ assms(4-6), of 32] assms(3,7,8) by simp

section \<open>Adding and detaching tasks\<close>

lemma add_ok:
  assumes ok: "sched_ok s q xs" and t: "t < 32" "alive (t_state (tk s t))"
  shows "\<exists>s' q'. scheduler_add_task (Some t) s = Some s' \<and> sched_ok s' q' xs \<and> (tail_ok s q \<longrightarrow> (current_running_task s = Some t \<longrightarrow> t \<in> set q) \<longrightarrow> tail_ok s' q') \<and>
    (t \<in> set q \<and> s' = s \<and> q' = q \<or> t \<notin> set q \<and> relinked (made_ready t s) s' \<and> set q' = insert t (set q))"
proof (cases "t \<in> set q")
  case True
  then show ?thesis using add_task_queued [OF sched_okD(3,1) [OF ok]] ok by auto
next
  case False
  note sl = sched_okD(7) [OF ok t(1)]
  have pid: "t_pid (tk s t) \<noteq> 0" using slot_okD(2) [OF sl t(2)] by (simp add: task_slot_is_live_def)
  obtain s' q' where a: "scheduler_add_task (Some t) s = Some s'" "ready_queue s' q'" "set q' = insert t (set q)"
    "relinked (made_ready t s) s'"
    "\<forall>c \<in> set q. c = last q \<or> ready_queue_tail s = Some (last q) \<longrightarrow> c = last q' \<or> ready_queue_tail s' = Some (last q')"
    using add_task_ok [OF sched_okD(3,1) [OF ok] t(1) pid False] by blast
  have len: "t < length (tasks s)" using sched_okD(1) [OF ok] t(1) by simp
  note r = relinked_tcb [OF a(4)] relinked_sel [OF a(4)]
  have "slot_ok s' (set q') xs t"
    using sl t len a(3) unfolding slot_ok_def task_slot_is_live_def stack_ok_def r by (auto simp: made_ready_def)
  then have "sched_ok s' q' xs"
    using sched_okD(4) [OF ok] a len
    by (intro sched_ok_change [OF ok, of s' t q'])
      (auto simp: r made_ready_def same_slot_def pending_cong [of s' s])
  moreover have "tail_ok s' q'" if "tail_ok s q" "current_running_task s \<noteq> Some t"
    using that a(3,5) unfolding tail_ok_def r by (auto simp: made_ready_def)
  ultimately show ?thesis using a False by blast
qed

lemma remove_ok:
  \<comment> \<open>slot \<open>x\<close> has left the active states and is taken off the queue\<close>
  assumes ok: "sched_ok s q xs" and x: "x < 32" "detachable s x"
    and s1: "s1 = upd_task x f s" and f: "\<And>k. t_next (f k) = t_next k" "\<And>k. \<not> active (t_state (f k))"
      "\<And>k. alive (t_state (f k)) \<Longrightarrow> same_slot ((f k)\<lparr>t_state := t_state k\<rparr>) k" "\<And>k. t_saved_int_depth (f k) = t_saved_int_depth k"
    and al: "alive (t_state (tk s x))"
  shows "\<exists>s'. scheduler_remove_task_locked (Some x) s1 = Some s' \<and> sched_ok s' (remove1 x q) xs \<and> relinked s1 s' \<and>
    (ready_queue_tail s = Some (last q) \<longrightarrow> remove1 x q \<noteq> [] \<longrightarrow> ready_queue_tail s' = Some (last (remove1 x q)))"
proof -
  have len: "x < length (tasks s)" using sched_okD(1) [OF ok] x(1) by simp
  have q1: "ready_queue s1 q"
    by (rule ready_queue_same [OF sched_okD(3) [OF ok]]) (use len f(1) in \<open>auto simp: s1\<close>)
  have "detachable s1 x" using x(2) len f(1) by (auto simp: detachable_def s1 split: option.splits)
  from remove_task_ok [OF q1 _ this] obtain s' where r: "scheduler_remove_task_locked (Some x) s1 = Some s'"
    "ready_queue s' (remove1 x q)" "relinked s1 s'"
    "ready_queue_tail s1 = Some (last q) \<longrightarrow> remove1 x q \<noteq> [] \<longrightarrow> ready_queue_tail s' = Some (last (remove1 x q))"
    using sched_okD(1) [OF ok] by (auto simp: s1)
  note rs = relinked_tcb [OF r(3)] relinked_sel [OF r(3)]
  have dist: "distinct q" using sched_okD(3) [OF ok] by (simp add: ready_queue_def ring_def)
  note sl = sched_okD(7) [OF ok x(1)]
  have st: "t_state (tk s1 x) = t_state (f (tk s x))" using len by (simp add: s1)
  have "slot_ok s' (set (remove1 x q)) xs x"
    using sl al f(2) [of "tk s x"] f(3,4) [of "tk s x"] len dist
    unfolding slot_ok_def task_slot_is_live_def stack_ok_def rs
    by (auto simp: s1 same_slot_def active_def)
  then have "sched_ok s' (remove1 x q) xs"
    using sched_okD(4) [OF ok] r(2) dist len
    by (intro sched_ok_change [OF ok, of s' x]) (auto simp: rs s1 same_slot_def pending_cong [of s' s])
  then show ?thesis using r by (auto simp: s1)
qed

section \<open>Switching tasks\<close>

lemma made_current:
  assumes "n < length (tasks s)"
  shows "tk (make_current n s) i = (if i = n then (tk s n)\<lparr>t_state := TASK_STATE_RUNNING, t_ticks_remaining := t_time_slice (tk s n)\<rparr> else tk s i)"
    "current_running_task (make_current n s) = Some n" "length (tasks (make_current n s)) = length (tasks s)"
    "slot_generations (make_current n s) = slot_generations s" "ready_queue_head (make_current n s) = ready_queue_head s"
    "ready_queue_tail (make_current n s) = ready_queue_tail s" "pending (make_current n s) xs = pending s xs"
    "scheduler_enabled (make_current n s) = scheduler_enabled s"
    "interrupt_context_depth (make_current n s) = interrupt_context_depth s" "free_slot_bitmap (make_current n s) = free_slot_bitmap s"
  using assms by (auto simp: make_current_def pending_def)

lemma cleanup_enqueue_sel:
  "tasks (snd (cleanup_queue_enqueue t s)) = tasks s" "slot_generations (snd (cleanup_queue_enqueue t s)) = slot_generations s"
  "current_running_task (snd (cleanup_queue_enqueue t s)) = current_running_task s"
  "ready_queue_head (snd (cleanup_queue_enqueue t s)) = ready_queue_head s"
  "ready_queue_tail (snd (cleanup_queue_enqueue t s)) = ready_queue_tail s"
  "scheduler_enabled (snd (cleanup_queue_enqueue t s)) = scheduler_enabled s"
  "interrupt_context_depth (snd (cleanup_queue_enqueue t s)) = interrupt_context_depth s"
  "free_slot_bitmap (snd (cleanup_queue_enqueue t s)) = free_slot_bitmap s"
  by (simp_all add: cleanup_queue_enqueue_def)

lemma retired:
  assumes "p < length (tasks s)"
  shows "tk (retire_prev p s) i = (if i = p \<and> t_state (tk s p) = TASK_STATE_RUNNING then (tk s p)\<lparr>t_state := TASK_STATE_READY\<rparr> else tk s i)"
    "length (tasks (retire_prev p s)) = length (tasks s)" "slot_generations (retire_prev p s) = slot_generations s"
    "current_running_task (retire_prev p s) = current_running_task s"
    "ready_queue_head (retire_prev p s) = ready_queue_head s" "ready_queue_tail (retire_prev p s) = ready_queue_tail s"
    "scheduler_enabled (retire_prev p s) = scheduler_enabled s" "interrupt_context_depth (retire_prev p s) = interrupt_context_depth s"
    "free_slot_bitmap (retire_prev p s) = free_slot_bitmap s"
proof -
  have t: "tk (snd (cleanup_queue_enqueue t s)) = tk s" for t by (simp add: tk_def cleanup_enqueue_sel fun_eq_iff)
  show "tk (retire_prev p s) i = (if i = p \<and> t_state (tk s p) = TASK_STATE_RUNNING then (tk s p)\<lparr>t_state := TASK_STATE_READY\<rparr> else tk s i)"
    "length (tasks (retire_prev p s)) = length (tasks s)" "slot_generations (retire_prev p s) = slot_generations s"
    "current_running_task (retire_prev p s) = current_running_task s"
    "ready_queue_head (retire_prev p s) = ready_queue_head s" "ready_queue_tail (retire_prev p s) = ready_queue_tail s"
    "scheduler_enabled (retire_prev p s) = scheduler_enabled s" "interrupt_context_depth (retire_prev p s) = interrupt_context_depth s"
    "free_slot_bitmap (retire_prev p s) = free_slot_bitmap s"
    using assms by (auto simp: retire_prev_def cleanup_enqueue_sel t)
qed

lemma retired_pending:
  assumes "pending s xs" and "distinct xs" and "p \<notin> set xs"
  shows "\<exists>ys. pending (retire_prev p s) ys \<and> distinct ys \<and> (ys = xs \<or> ys = xs @ [p] \<and> \<not> alive (t_state (tk s p)))"
proof (cases "alive (t_state (tk s p))")
  case True
  then show ?thesis using assms pending_cong [of "upd_task p (\<lambda>k. k\<lparr>t_state := TASK_STATE_READY\<rparr>) s" s xs]
    by (auto simp: retire_prev_def alive_def)
next
  case dead: False
  then have eq: "retire_prev p s = snd (cleanup_queue_enqueue (Some p) s)" by (auto simp: retire_prev_def alive_def)
  show ?thesis
  proof (cases "length xs < 8")
    case True
    then show ?thesis
      using cleanup_enqueue_pending [OF assms(1) True] assms dead eq by (intro exI [of _ "xs @ [p]"]) auto
  next
    case False
    then have "\<not> cleanup_queue_count s < 8" using assms(1) by (simp add: pending_def word_less_nat_alt)
    then have "retire_prev p s = s" using eq by (simp add: cleanup_queue_enqueue_def)
    then show ?thesis using assms by auto
  qed
qed

lemma switch_ok:
  assumes ok: "sched_ok s q xs" and n: "n \<in> set q" "n \<noteq> p" and p: "current_running_task s = Some p" "p < 32"
  shows "\<exists>ys. sched_ok (make_current n (retire_prev p s)) q ys"
proof -
  let ?s = "make_current n (retire_prev p s)"
  have len: "length (tasks s) = 32" "n < 32" using ready_queue_bound [OF sched_okD(3) [OF ok] n(1)] sched_okD(1) [OF ok] by auto
  have pl: "p < length (tasks s)" using len p by simp
  note rt = retired [OF pl]
  have nl: "n < length (tasks (retire_prev p s))" using len rt by simp
  note mc = made_current [OF nl]
  have "p \<notin> set xs" using slot_okD(7) [OF sched_okD(7) [OF ok p(2)]] p(1) by blast
  then obtain ys where ys: "pending (retire_prev p s) ys" "distinct ys" "ys = xs \<or> ys = xs @ [p] \<and> \<not> alive (t_state (tk s p))"
    using retired_pending [OF sched_okD(4,5) [OF ok]] by blast
  have "slot_ok ?s (set q) ys i" if i: "i < 32" for i
  proof -
    note sl = sched_okD(7) [OF ok i]
    have tkn: "tk ?s n = (tk s n)\<lparr>t_state := TASK_STATE_RUNNING, t_ticks_remaining := t_time_slice (tk s n)\<rparr>"
      using n by (simp add: mc rt)
    have cur: "current_running_task ?s = Some n" "slot_generations ?s = slot_generations s" "free_slot_bitmap ?s = free_slot_bitmap s"
      by (simp_all add: mc rt)
    consider "i = n" | "i = p" "i \<noteq> n" | "i \<noteq> p" "i \<noteq> n" by blast
    then show ?thesis
    proof cases
      case 1
      then have "alive (t_state (tk s n))" "n \<notin> set ys" using slot_okD(1,6) [OF sl] n ys(3) by (auto simp: active_alive)
      then show ?thesis
        using sl n 1 by (auto simp: slot_ok_def task_slot_is_live_def stack_ok_def tkn cur)
    next
      case 2
      then show ?thesis
        using sl ys(3) p(1) by (cases "t_state (tk s p) = TASK_STATE_RUNNING")
          (auto simp: slot_ok_def task_slot_is_live_def stack_ok_def mc rt)
    next
      case 3
      then have "t_state (tk s i) \<noteq> TASK_STATE_RUNNING" using slot_okD(4) [OF sl] p by auto
      then show ?thesis using sl 3 ys(3) by (auto simp: slot_ok_def task_slot_is_live_def stack_ok_def mc rt)
    qed
  qed
  moreover have "ready_queue ?s q"
    by (rule ready_queue_same [OF sched_okD(3) [OF ok]]) (auto simp: mc rt)
  moreover have "set ys \<subseteq> {..<32}" using ys(3) ok p(2) by (auto simp: sched_ok_def)
  ultimately show ?thesis
    using sched_okD [OF ok] ys len by (intro exI [of _ ys]) (simp add: sched_ok_def mc rt)
qed

lemma kernel_switch_ok:
  assumes ok: "sched_ok s q xs" and n: "n < 32" "alive (t_state (tk s n))" and p: "p < 32" "p \<noteq> n"
    and d: "interrupt_context_depth s \<le> 1"
  shows "\<exists>s'. scheduler_switch_kernel_context p n s = Some s' \<and> sched_ok s' q xs \<and> interrupt_context_depth s' \<le> 1 \<and>
    current_running_task s' = current_running_task s \<and> scheduler_enabled s' = scheduler_enabled s"
proof -
  have len: "length (tasks s) = 32" by (rule sched_okD(1) [OF ok])
  have st: "stack_ok (tk s n)" by (rule slot_okD(3) [OF sched_okD(7) [OF ok n(1)] n(2)])
  define e where "e = (if t_is_kernel_task (tk s n) then tss_esp0 s else t_kernel_stack (tk s n))"
  define s' where "s' = (upd_task p (\<lambda>k. k\<lparr>t_saved_int_depth := interrupt_context_depth s,
       t_saved_crit_depth := critical_section_depth s, t_saved_crit_flags := critical_section_saved_flags s\<rparr>)
       (s\<lparr>tss_esp0 := e\<rparr>))\<lparr>interrupt_context_depth := t_saved_int_depth (tk s n),
       critical_section_depth := t_saved_crit_depth (tk s n), critical_section_saved_flags := t_saved_crit_flags (tk s n)\<rparr>"
  have "scheduler_switch_kernel_context p n s = Some s'"
    using st p n len
    by (auto simp: scheduler_switch_kernel_context_def s'_def e_def stack_ok_def tss_set_kernel_stack_def Let_def not_le [symmetric])
  moreover have "sched_ok s' q xs"
  proof (rule sched_ok_change [OF ok, of s' p])
    show "ready_queue s' q" by (rule ready_queue_same [OF sched_okD(3) [OF ok]]) (use p len in \<open>auto simp: s'_def\<close>)
    show "pending s' xs" using sched_okD(4) [OF ok] by (simp add: pending_def s'_def)
    show "slot_ok s' (set q) xs p"
      using sched_okD(7) [OF ok p(1)] p len d by (simp add: s'_def slot_ok_def task_slot_is_live_def stack_ok_def)
  qed (use p len in \<open>auto simp: s'_def same_slot_def\<close>)
  moreover have "interrupt_context_depth s' \<le> 1" using slot_okD(5) [OF sched_okD(7) [OF ok n(1)]] by (simp add: s'_def)
  ultimately show ?thesis by (simp add: s'_def)
qed

definition resumed :: "nat \<Rightarrow> nat list \<Rightarrow> sched \<Rightarrow> sched \<Rightarrow> bool" where
  \<comment> \<open>after a scheduling decision taken in \<open>s\<close> with queue \<open>q\<close> and current task \<open>p\<close>\<close>
  "resumed p q s s' \<longleftrightarrow> scheduler_enabled s' \<and> interrupt_context_depth s' \<le> 1 \<and>
     (\<exists>q' xs c. sched_ok s' q' xs \<and> q' \<noteq> [] \<and> c < 32 \<and> current_running_task s' = Some c \<and>
        (c \<in> set q' \<and> c = last q' \<or> c = p \<and> q' = q \<and> ready_queue_tail s' = ready_queue_tail s))"

lemma sched_ok_tick:
  assumes ok: "sched_ok s q xs" and c: "c < 32" and f: "\<And>k. same_slot (f k) k" "\<And>k. t_next (f k) = t_next k"
  shows "sched_ok (upd_task c f s) q xs"
proof -
  have len: "c < length (tasks s)" using sched_okD(1) [OF ok] c by simp
  show ?thesis
  proof (rule sched_ok_same [OF ok])
    show "ready_queue (upd_task c f s) q"
      by (rule ready_queue_same [OF sched_okD(3) [OF ok]]) (use len f in auto)
    show "pending (upd_task c f s) xs" using sched_okD(4) [OF ok] by (simp add: pending_def)
  qed (use len f in auto)
qed

lemma charged:
  "sched_ok s q xs \<Longrightarrow> c < 32 \<Longrightarrow> sched_ok (charge_tick c s) q xs"
  "sched_ok s q xs \<Longrightarrow> c < 32 \<Longrightarrow> sched_ok (refill_slice c s) q xs"
  using sched_ok_tick [of s q xs c] by (auto simp: charge_tick_def refill_slice_def same_slot_def)

lemma charged_sel:
  "current_running_task (charge_tick c s) = current_running_task s" "scheduler_enabled (charge_tick c s) = scheduler_enabled s"
  "interrupt_context_depth (charge_tick c s) = interrupt_context_depth s" "ready_queue_tail (charge_tick c s) = ready_queue_tail s"
  "current_running_task (refill_slice c s) = current_running_task s" "scheduler_enabled (refill_slice c s) = scheduler_enabled s"
  "interrupt_context_depth (refill_slice c s) = interrupt_context_depth s"
  by (auto simp: charge_tick_def refill_slice_def)

lemma pick_ok:
  assumes ok: "sched_ok s (n # r) xs"
  shows "\<exists>s'. scheduler_get_next_task s = Some (Some n, s') \<and> sched_ok s' (r @ [n]) xs \<and> relinked s s'"
  using get_next_head [OF sched_okD(3) [OF ok] queued_runnable [OF ok]] sched_ok_relinked [OF ok] by fastforce

text \<open>The part of the scheduling decision that \<^verbatim>\<open>scheduler_schedule\<close> and the timer interrupt share.\<close>

lemma decide_ok:
  assumes ok: "sched_ok s q xs" and q: "q \<noteq> []" and p: "current_running_task s = Some p" "p < 32"
    and d: "interrupt_context_depth s \<le> 1" and en: "scheduler_enabled s"
    and k: "\<And>n s q xs. sched_ok s q xs \<Longrightarrow> n \<in> set q \<Longrightarrow> n \<noteq> p \<Longrightarrow> n = last q \<Longrightarrow> current_running_task s = Some p \<Longrightarrow>
      interrupt_context_depth s \<le> 1 \<Longrightarrow> scheduler_enabled s \<Longrightarrow> wp (switch n s) (resumed p q0 s0)"
  shows "wp (Option.bind (scheduler_get_next_task s) (\<lambda>(next, s). case next of
      None \<Rightarrow> Some (refill_slice p s) | Some n \<Rightarrow> if n = p then Some (refill_slice p s) else switch n s)) (resumed p q0 s0)"
proof -
  obtain n r where q': "q = n # r" using q by (cases q) auto
  obtain s' where s': "scheduler_get_next_task s = Some (Some n, s')" "sched_ok s' (r @ [n]) xs" "relinked s s'"
    using pick_ok [OF ok [unfolded q']] by blast
  note rs = relinked_sel [OF s'(3)]
  show ?thesis
  proof (cases "n = p")
    case True
    then have "resumed p q0 s0 (refill_slice p s')"
      unfolding resumed_def charged_sel rs using charged(2) [OF s'(2) p(2)] p d en
      by (intro conjI exI [of _ "r @ [n]"] exI [of _ xs] exI [of _ p]) auto
    then show ?thesis using s'(1) True by (simp add: step_simps)
  next
    case False
    then show ?thesis using k [OF s'(2), of n] s'(1) p d en by (simp add: step_simps rs)
  qed
qed

lemma sched_ok_count: "sched_ok (s\<lparr>total_context_switches := c\<rparr>) q xs = sched_ok s q xs"
  by (simp add: sched_ok_def slot_ok_def task_slot_is_live_def ready_queue_def pending_def)

lemma sched_ok_depth: "sched_ok (s\<lparr>interrupt_context_depth := d\<rparr>) q xs = sched_ok s q xs"
  by (simp add: sched_ok_def slot_ok_def task_slot_is_live_def ready_queue_def pending_def)

lemma sched_ok_fpu: "sched_ok (s\<lparr>fpu_owner := h\<rparr>) q xs = sched_ok s q xs"
  by (simp add: sched_ok_def slot_ok_def task_slot_is_live_def ready_queue_def pending_def)

lemma finish_switch:
  assumes ok: "sched_ok s q xs" and n: "n \<in> set q" "n = last q" "n \<noteq> p" and p: "p < 32"
    and cur: "current_running_task s = Some n" and d: "interrupt_context_depth s \<le> 1" and en: "scheduler_enabled s"
  shows "wp (scheduler_switch_kernel_context p n s) (resumed p q0 s0)"
proof -
  have n32: "n < 32" using ready_queue_bound [OF sched_okD(3) [OF ok] n(1)] sched_okD(1) [OF ok] by simp
  have "alive (t_state (tk s n))" using slot_okD(1) [OF sched_okD(7) [OF ok n32]] n(1) by (simp add: active_alive)
  then obtain s' where "scheduler_switch_kernel_context p n s = Some s'" "sched_ok s' q xs" "interrupt_context_depth s' \<le> 1"
    "current_running_task s' = Some n" "scheduler_enabled s'"
    using kernel_switch_ok [OF ok n32 _ p n(3) [symmetric] d] cur en by auto
  then show ?thesis using n n32 by (auto simp: step_simps resumed_def)
qed

lemma switch_counted_ok:
  assumes ok: "sched_ok s q xs" and n: "n \<in> set q" "n \<noteq> p" and p: "current_running_task s = Some p" "p < 32"
  shows "\<exists>ys. sched_ok (switch_counted p n s) q ys" and "current_running_task (switch_counted p n s) = Some n"
    and "interrupt_context_depth (switch_counted p n s) = interrupt_context_depth s"
    and "scheduler_enabled (switch_counted p n s) = scheduler_enabled s"
proof -
  have len: "p < length (tasks s)" "n < length (tasks s)"
    using ready_queue_bound [OF sched_okD(3) [OF ok] n(1)] sched_okD(1) [OF ok] p(2) by auto
  note rt = retired [OF len(1)]
  have nl: "n < length (tasks (retire_prev p s))" using len rt by simp
  show "\<exists>ys. sched_ok (switch_counted p n s) q ys"
    using switch_ok [OF ok n p] by (simp add: switch_counted_def Let_def sched_ok_count)
  show "current_running_task (switch_counted p n s) = Some n"
    "interrupt_context_depth (switch_counted p n s) = interrupt_context_depth s"
    "scheduler_enabled (switch_counted p n s) = scheduler_enabled s"
    using made_current [OF nl] rt by (simp_all add: switch_counted_def Let_def)
qed

lemma has_run_ok:
  assumes "sched_ok s q xs" and "i < 32"
  shows "sched_ok (upd_task i (\<lambda>k. k\<lparr>t_has_run_before := True\<rparr>) s) q xs"
  by (rule sched_ok_tick [OF assms]) (simp_all add: same_slot_def)

lemma schedule_switch_ok:
  assumes "sched_ok s q xs" "n \<in> set q" "n \<noteq> p" "n = last q" "current_running_task s = Some p" "p < 32"
    "interrupt_context_depth s \<le> 1" "scheduler_enabled s"
  shows "wp (schedule_switch p n s) (resumed p q0 s0)"
proof -
  note a = switch_counted_ok [OF assms(1-3,5,6)]
  obtain ys where ys: "sched_ok (switch_counted p n s) q ys" using a(1) by blast
  have n32: "n < 32" using ready_queue_bound [OF sched_okD(3) [OF assms(1)] assms(2)] sched_okD(1) [OF assms(1)] by simp
  let ?s = "if t_state (tk (switch_counted p n s) p) \<noteq> TASK_STATE_TERMINATED \<and> t_state (tk (switch_counted p n s) p) \<noteq> TASK_STATE_ZOMBIE
    then upd_task p (\<lambda>k. k\<lparr>t_has_run_before := True\<rparr>) (switch_counted p n s) else switch_counted p n s"
  have "sched_ok (upd_task n (\<lambda>k. k\<lparr>t_has_run_before := True\<rparr>) ?s) q ys"
    using has_run_ok [OF _ n32] has_run_ok [OF ys assms(6)] ys by simp
  then have "wp (scheduler_switch_kernel_context p n (upd_task n (\<lambda>k. k\<lparr>t_has_run_before := True\<rparr>) ?s)) (resumed p q0 s0)"
    using assms a by (intro finish_switch [OF _ assms(2,4,3,6)]) auto
  then show ?thesis unfolding schedule_switch_def Let_def .
qed

definition settled :: "sched \<Rightarrow> bool" where
  \<comment> \<open>a task has just been chosen: it is the last of the ring\<close>
  "settled s \<longleftrightarrow> scheduler_enabled s \<and> interrupt_context_depth s \<le> 1 \<and>
     (\<exists>q xs c. sched_ok s q xs \<and> c < 32 \<and> current_running_task s = Some c \<and> c \<in> set q \<and> c = last q)"

lemma resumed_settled: "resumed p [] s0 s \<longleftrightarrow> settled s"
  by (auto simp: resumed_def settled_def)

lemma schedule_expired_ok:
  assumes ok: "sched_ok s q xs" and q: "q \<noteq> []" and p: "current_running_task s = Some p" "p < 32"
    and d: "interrupt_context_depth s \<le> 1" and en: "scheduler_enabled s" and t: "t_ticks_remaining (tk s p) = 0"
  shows "wp (scheduler_schedule s) settled"
proof -
  have nt: "\<not> all_terminated s" using q ready_queue_empty [OF sched_okD(3) [OF ok]] by (simp add: all_terminated_def)
  have c: "charge_tick p s = s" using t by (simp add: charge_tick_def)
  have "wp (Option.bind (scheduler_get_next_task s) (\<lambda>(next, s). case next of
      None \<Rightarrow> Some (refill_slice p s) | Some n \<Rightarrow> if n = p then Some (refill_slice p s) else schedule_switch p n s)) (resumed p [] s)"
    by (rule decide_ok [OF ok q]) (use p d en in \<open>auto intro: schedule_switch_ok\<close>)
  then show ?thesis using nt p en t c by (simp add: scheduler_schedule_def Let_def resumed_settled [abs_def])
qed

lemma yield_rotated:
  assumes ok: "sched_ok s q xs" and q: "q \<noteq> []"
  shows "\<exists>q'. sched_ok (if ready_queue_head s = Some p then s\<lparr>ready_queue_head := t_next (tk s p)\<rparr> else s) q' xs \<and> q' \<noteq> []"
proof (cases "ready_queue_head s = Some p")
  case True
  then obtain r where r: "q = p # r" using q sched_okD(3) [OF ok] by (cases q) (auto simp: ready_queue_def)
  have "t_next (tk s p) = Some (hd (r @ [p]))" using sched_okD(3) [OF ok] ring_head [of "nexts s" p r] by (simp add: ready_queue_def r)
  then have "ready_queue (s\<lparr>ready_queue_head := t_next (tk s p)\<rparr>) (r @ [p])"
    using sched_okD(3) [OF ok] by (auto simp: ready_queue_def ring_rotate r)
  moreover have "relinked s (s\<lparr>ready_queue_head := t_next (tk s p)\<rparr>)" by (simp add: relinked_def)
  ultimately have "sched_ok (s\<lparr>ready_queue_head := t_next (tk s p)\<rparr>) (r @ [p]) xs"
    using sched_ok_relinked [OF ok, of _ "r @ [p]"] by (auto simp: r)
  then show ?thesis using True by (intro exI [of _ "r @ [p]"]) simp
qed (use ok q in auto)

lemma yield_ok:
  assumes ok: "sched_ok s q xs" and q: "q \<noteq> []" and p: "current_running_task s = Some p" "p < 32"
    and d: "interrupt_context_depth s \<le> 1" and en: "scheduler_enabled s"
  shows "wp (scheduler_yield s) settled"
proof -
  let ?s = "if ready_queue_head s = Some p then s\<lparr>ready_queue_head := t_next (tk s p)\<rparr> else s"
  obtain q' where q': "sched_ok ?s q' xs" "q' \<noteq> []" using yield_rotated [OF ok q, of p] by blast
  have len: "p < length (tasks ?s)" using sched_okD(1) [OF q'(1)] p(2) by simp
  have "sched_ok (upd_task p (\<lambda>k. k\<lparr>t_ticks_remaining := 0\<rparr>) ?s) q' xs"
    by (rule sched_ok_tick [OF q'(1) p(2)]) (simp_all add: same_slot_def)
  then have "wp (scheduler_schedule (upd_task p (\<lambda>k. k\<lparr>t_ticks_remaining := 0\<rparr>) ?s)) settled"
    by (rule schedule_expired_ok [OF _ q'(2) _ p(2)]) (use p d en len in auto)
  then show ?thesis using p en by (simp add: scheduler_yield_def Let_def)
qed

section \<open>The timer interrupt\<close>

definition grown :: "sched \<Rightarrow> nat list \<Rightarrow> sched \<Rightarrow> nat list \<Rightarrow> bool" where
  \<comment> \<open>tasks were added to the queue, nothing else happened\<close>
  "grown s q s' q' \<longleftrightarrow> set q \<subseteq> set q' \<and> current_running_task s' = current_running_task s \<and>
     scheduler_enabled s' = scheduler_enabled s \<and> interrupt_context_depth s' = interrupt_context_depth s \<and>
     (\<forall>c \<in> set q. current_running_task s = Some c \<longrightarrow> tail_ok s q \<longrightarrow> tail_ok s' q')"

lemma grown_refl [simp]: "grown s q s q"
  by (simp add: grown_def)

lemma grown_trans: "grown s q s' q' \<Longrightarrow> grown s' q' s'' q'' \<Longrightarrow> grown s q s'' q''"
  unfolding grown_def by (auto simp: subset_iff)

lemma add_grown:
  assumes "sched_ok s q xs" and "t < 32" and "alive (t_state (tk s t))"
  shows "\<exists>s' q'. scheduler_add_task (Some t) s = Some s' \<and> sched_ok s' q' xs \<and> grown s q s' q'"
proof -
  obtain s' q' where a: "scheduler_add_task (Some t) s = Some s'" "sched_ok s' q' xs"
    "tail_ok s q \<longrightarrow> (current_running_task s = Some t \<longrightarrow> t \<in> set q) \<longrightarrow> tail_ok s' q'"
    "s' = s \<and> q' = q \<or> relinked (made_ready t s) s' \<and> set q' = insert t (set q)"
    using add_ok [OF assms] by blast
  then have "grown s q s' q'"
    by (auto simp: grown_def relinked_sel made_ready_def)
  then show ?thesis using a by blast
qed

lemma wake_sleepers_ok:
  assumes "sched_ok s q xs" and "\<forall>i \<in> set is. i < 32"
  shows "wp (wake_sleepers now is s) (\<lambda>s'. \<exists>q'. sched_ok s' q' xs \<and> grown s q s' q')"
  using assms
proof (induction "is" arbitrary: s q)
  case Nil
  then show ?case by (auto simp: step_simps)
next
  case (Cons i "is")
  show ?case
  proof (cases "t_state (tk s i) = TASK_STATE_SLEEPING \<and> now \<ge> t_wake_tick (tk s i)")
    case False
    then have "wake_sleepers now (i # is) s = wake_sleepers now is s" by auto
    then show ?thesis using Cons.IH [OF Cons.prems(1)] Cons.prems(2) by simp
  next
    case True
    then obtain s1 q1 where s1: "scheduler_add_task (Some i) s = Some s1" "sched_ok s1 q1 xs" "grown s q s1 q1"
      using add_grown [OF Cons.prems(1), of i] Cons.prems(2) by auto
    have "wp (wake_sleepers now is s1) (\<lambda>s'. \<exists>q'. sched_ok s' q' xs \<and> grown s1 q1 s' q')"
      using Cons.IH [OF s1(2)] Cons.prems(2) by simp
    then have "wp (wake_sleepers now is s1) (\<lambda>s'. \<exists>q'. sched_ok s' q' xs \<and> grown s q s' q')"
      by (rule wp_mono) (use grown_trans [OF s1(3)] in blast)
    then show ?thesis using True s1(1) by simp
  qed
qed

lemma reap_ok:
  assumes ok: "sched_ok s q (i # xs)"
    and s1: "s1 = snd (cleanup_queue_dequeue s)"
  shows "\<exists>s'. reap_task i s1 = Some s' \<and> sched_ok s' q xs \<and> cleanup_queue_count s' = cleanup_queue_count s1 \<and>
    current_running_task s' = current_running_task s \<and> scheduler_enabled s' = scheduler_enabled s \<and>
    interrupt_context_depth s' = interrupt_context_depth s \<and> ready_queue_tail s' = ready_queue_tail s"
proof -
  have i32: "i < 32" using sched_okD(6) [OF ok] by simp
  note sl = slot_okD [OF sched_okD(7) [OF ok i32]]
  have dead: "\<not> alive (t_state (tk s i))" using sl(6) by simp
  have i: "i < 32" "\<not> alive (t_state (tk s i))" "i \<notin> set q" "current_running_task s \<noteq> Some i" "i \<notin> set xs"
    using i32 dead sl(1,7) sched_okD(5) [OF ok] active_alive by auto
  have sel: "tasks s1 = tasks s" "slot_generations s1 = slot_generations s" "free_slot_bitmap s1 = free_slot_bitmap s" "current_running_task s1 = current_running_task s"
    "ready_queue_head s1 = ready_queue_head s" "ready_queue_tail s1 = ready_queue_tail s"
    "scheduler_enabled s1 = scheduler_enabled s" "interrupt_context_depth s1 = interrupt_context_depth s"
    by (simp_all add: s1 cleanup_queue_dequeue_def)
  have tk1: "tk s1 = tk s" by (simp add: tk_def sel fun_eq_iff)
  have q1: "ready_queue s1 q" using sched_okD(3) [OF ok] by (simp add: ready_queue_def sel tk1)
  have ok1: "sched_ok s1 q xs"
  proof -
    have "slot_ok s1 (set q) xs j" if "j < 32" for j
      using slot_ok_same [OF sched_okD(7) [OF ok that], of s1 "set q" xs] by (simp add: sel tk1)
    then show ?thesis
      using sched_okD(1,2,4,5) [OF ok] sched_okD(6) [OF ok] cleanup_dequeue_pending(2) [of s i xs] q1
      by (auto simp: sched_ok_def s1 [symmetric] sel)
  qed
  have rem: "scheduler_remove_task_locked (Some i) s1 = Some s1"
    using remove_absent [OF q1 _ i(3)] sched_okD(1) [OF ok1] by simp
  define s' where "s' = scheduler_fpu_release (Some i) (task_free_slot_for_task i
    (upd_task i (\<lambda>k. k\<lparr>t_state := TASK_STATE_TERMINATED, t_pid := 0\<rparr>) (scheduler_fpu_release (Some i) s1)))"
  have len: "i < length (tasks s1)" using sched_okD(1) [OF ok1] i(1) by simp
  have tk': "tk s' j = (if j = i then (tk s1 i)\<lparr>t_state := TASK_STATE_TERMINATED, t_pid := 0\<rparr> else tk s1 j)" for j
    using len by (simp add: s'_def scheduler_fpu_release_def task_free_slot_for_task_def tk_def upd_task_def)
  have sel': "length (tasks s') = length (tasks s1)" "length (slot_generations s') = length (slot_generations s1)"
    "current_running_task s' = current_running_task s1" "ready_queue_head s' = ready_queue_head s1" "ready_queue_tail s' = ready_queue_tail s1"
    "\<And>j. j \<noteq> i \<Longrightarrow> slot_generations s' ! j = slot_generations s1 ! j \<and> bit (free_slot_bitmap s') j = bit (free_slot_bitmap s1) j" "scheduler_enabled s' = scheduler_enabled s1"
    "interrupt_context_depth s' = interrupt_context_depth s1" "cleanup_queue_count s' = cleanup_queue_count s1"
    "pending s' xs = pending s1 xs"
    by (simp_all add: s'_def scheduler_fpu_release_def task_free_slot_for_task_def pending_def bit_or_mask_1)
  have "sched_ok s' q xs"
  proof (rule sched_ok_change [OF ok1, of s' i])
    show "ready_queue s' q" by (rule ready_queue_same [OF q1]) (use i(3) in \<open>auto simp: sel' tk'\<close>)
    show "slot_ok s' (set q) xs i"
      using i slot_okD(5) [OF sched_okD(7) [OF ok1 i(1)]] by (simp add: slot_ok_def tk' sel' sel)
    show "pending s' xs" using sched_okD(4) [OF ok1] by (simp add: sel')
  qed (auto simp: sel' tk')
  moreover have "reap_task i s1 = Some s'" by (simp add: reap_task_def rem s'_def Let_def)
  ultimately show ?thesis by (simp add: sel' sel)
qed

declare drain_cleanup.simps [simp del]

lemma drain_ok:
  assumes "sched_ok s q xs" and "length xs \<le> k"
  shows "wp (drain_cleanup k s) (\<lambda>s'. sched_ok s' q [] \<and> current_running_task s' = current_running_task s \<and>
    scheduler_enabled s' = scheduler_enabled s \<and> interrupt_context_depth s' = interrupt_context_depth s \<and>
    ready_queue_tail s' = ready_queue_tail s)"
  using assms
proof (induction k arbitrary: s xs)
  case 0
  then have "cleanup_queue_count s = 0" using sched_okD(4) [OF 0(1)] by (simp add: pending_def unat_eq_zero)
  then show ?case using 0 by (subst drain_cleanup.simps) (simp add: step_simps)
next
  case (Suc k)
  show ?case
  proof (cases xs)
    case Nil
    then have "cleanup_queue_count s = 0" using sched_okD(4) [OF Suc.prems(1)] by (simp add: pending_def unat_eq_zero)
    then show ?thesis using Suc.prems Nil by (subst drain_cleanup.simps) (simp add: step_simps)
  next
    case (Cons i ys)
    have c: "cleanup_queue_count s \<noteq> 0" using sched_okD(4) [OF Suc.prems(1)] Cons by (auto simp: pending_def)
    have dq: "cleanup_queue_dequeue s = (Some i, snd (cleanup_queue_dequeue s))"
      using cleanup_dequeue_pending(1) [of s i ys] sched_okD(4) [OF Suc.prems(1)] Cons by (metis prod.collapse)
    obtain s' where s': "reap_task i (snd (cleanup_queue_dequeue s)) = Some s'" "sched_ok s' q ys"
      "current_running_task s' = current_running_task s" "scheduler_enabled s' = scheduler_enabled s"
      "interrupt_context_depth s' = interrupt_context_depth s" "ready_queue_tail s' = ready_queue_tail s"
      using reap_ok [OF Suc.prems(1) [unfolded Cons] refl] by blast
    show ?thesis
      by (subst drain_cleanup.simps, subst dq) (use c s' Suc.IH [OF s'(2)] Suc.prems(2) Cons in \<open>simp add: step_simps\<close>)
  qed
qed

lemma interrupt_ok:
  assumes ok: "sched_ok s q xs" and q: "q \<noteq> []" and p: "current_running_task s = Some p" "p < 32"
    and d: "interrupt_context_depth s \<le> 1" and en: "scheduler_enabled s"
  shows "wp (scheduler_schedule_from_interrupt now s) (\<lambda>s'. settled s' \<or> (\<exists>q'. sched_ok s' q' [] \<and> grown s q s' q'))"
proof -
  have "wp (wake_sleepers now (task_get_all s) s) (\<lambda>s'. \<exists>q'. sched_ok s' q' xs \<and> grown s q s' q')"
    by (rule wake_sleepers_ok [OF ok]) (auto simp: task_get_all_def)
  then obtain s1 q1 where s1: "wake_sleepers now (task_get_all s) s = Some s1" "sched_ok s1 q1 xs" "grown s q s1 q1"
    by (auto simp: wp_iff)
  obtain s2 where s2: "drain_cleanup (unat (cleanup_queue_count s1)) s1 = Some s2" "sched_ok s2 q1 []"
    "current_running_task s2 = current_running_task s1" "scheduler_enabled s2 = scheduler_enabled s1"
    "interrupt_context_depth s2 = interrupt_context_depth s1" "ready_queue_tail s2 = ready_queue_tail s1"
    using drain_ok [OF s1(2), of "unat (cleanup_queue_count s1)"] sched_okD(4) [OF s1(2)] by (auto simp: wp_iff pending_def)
  let ?s = "charge_tick p s2"
  have same: "current_running_task s2 = Some p" "scheduler_enabled s2" "interrupt_context_depth s2 \<le> 1"
    using s1(3) s2 p d en by (auto simp: grown_def)
  have q1: "q1 \<noteq> []" using s1(3) q by (auto simp: grown_def)
  have nt: "\<not> all_terminated s2" using q1 ready_queue_empty [OF sched_okD(3) [OF s2(2)]] by (simp add: all_terminated_def)
  have ok3: "sched_ok ?s q1 []" by (rule charged(1) [OF s2(2) p(2)])
  show ?thesis
  proof (cases "t_ticks_remaining (tk ?s p) = 0")
    case False
    have "grown s q ?s q1" using s1(3) s2 unfolding grown_def charged_sel by (simp add: tail_ok_def charged_sel)
    then show ?thesis using False s1(1) s2(1) nt p en ok3
      by (auto simp: scheduler_schedule_from_interrupt_def step_simps Let_def)
  next
    case True
    have "wp (Option.bind (scheduler_get_next_task ?s) (\<lambda>(next, s). case next of
        None \<Rightarrow> Some (refill_slice p s) | Some n \<Rightarrow> if n = p then Some (refill_slice p s)
        else scheduler_switch_kernel_context p n (switch_counted p n s))) (resumed p [] s)"
    proof (rule decide_ok [OF ok3 q1])
      fix n s q xs
      assume o: "sched_ok s q xs" "n \<in> set q" "n \<noteq> p" "n = last q" "current_running_task s = Some p"
        "interrupt_context_depth s \<le> 1" "scheduler_enabled s"
      note a = switch_counted_ok [OF o(1-3,5) p(2)]
      obtain ys where "sched_ok (switch_counted p n s) q ys" using a(1) by blast
      then show "wp (scheduler_switch_kernel_context p n (switch_counted p n s)) (resumed p [] s0)" for s0
        by (rule finish_switch [OF _ o(2,4,3) p(2) a(2)]) (use a o in auto)
    qed (use same p in \<open>auto simp: charged_sel\<close>)
    then have "wp (scheduler_schedule_from_interrupt now s) settled"
      using True s1(1) s2(1) nt p en
      by (simp add: scheduler_schedule_from_interrupt_def step_simps Let_def resumed_settled [abs_def])
    then show ?thesis by (rule wp_mono) simp
  qed
qed

section \<open>Operations in their contexts\<close>

datatype sched_op =
    Yield
  | Tick u32
  | Block
  | Sleep u32 u32
  | Exit
  | Fault
  | Add nat
  | Wake nat
  | Kill nat
  | Spawn tcb
  | Priority nat u8

definition others_ready :: "sched \<Rightarrow> bool" where
  \<comment> \<open>a task other than the current one can run; in the running system the idle task can\<close>
  "others_ready s \<longleftrightarrow> list_ex (\<lambda>i. current_running_task s \<noteq> Some i \<and> t_state (tk s i) = TASK_STATE_READY) [0..<MAX_TASKS]"

definition allowed :: "sched_op \<Rightarrow> sched \<times> bool \<Rightarrow> bool" where
  \<comment> \<open>the contexts the kernel uses the operations in; the flag as in \<open>sched_inv\<close>\<close>
  "allowed op = (\<lambda>(s, leaving). case op of
     Yield \<Rightarrow> True
   | Tick now \<Rightarrow> True
   | Block \<Rightarrow> \<not> leaving \<and> others_ready s
   | Sleep now ticks \<Rightarrow> \<not> leaving \<and> others_ready s
   | Exit \<Rightarrow> \<not> leaving \<and> others_ready s
   | Fault \<Rightarrow> \<not> leaving \<and> others_ready s \<and> \<not> t_is_kernel_task (tk s (the (current_running_task s)))
   | Add t \<Rightarrow> t < MAX_TASKS \<and> alive (t_state (tk s t))
   | Wake t \<Rightarrow> t < MAX_TASKS
   | Kill t \<Rightarrow> \<not> leaving \<and> t < MAX_TASKS \<and> alive (t_state (tk s t)) \<and> current_running_task s \<noteq> Some t \<and> detachable s t
   | Spawn k \<Rightarrow> t_pid k \<noteq> 0 \<and> stack_ok k \<and> t_saved_int_depth k = 0 \<and> t_next k = None
   | Priority t p \<Rightarrow> t < MAX_TASKS)"

definition spawn :: "tcb \<Rightarrow> sched \<Rightarrow> sched option" where
  \<comment> \<open>a new task in a free slot, READY and queued\<close>
  "spawn k s = (case task_find_free_slot s of
     (None, s) \<Rightarrow> Some s
   | (Some i, s) \<Rightarrow> scheduler_add_task (Some i)
       (upd_task i (\<lambda>_. k\<lparr>t_generation := slot_generations s ! i, t_state := TASK_STATE_READY\<rparr>) s))"

definition sched_exec :: "sched_op \<Rightarrow> sched \<times> bool \<Rightarrow> (sched \<times> bool) option" where
  \<comment> \<open>a task suspended inside its own interrupt handler leaves the handler when it runs again\<close>
  "sched_exec op = (\<lambda>(s, leaving). case op of
     Yield \<Rightarrow> map_option (\<lambda>s'. (interrupt_context_exit s', False)) (scheduler_yield s)
   | Tick now \<Rightarrow> map_option (\<lambda>s'. (interrupt_context_exit s', leaving \<and> current_running_task s' = current_running_task s))
       (scheduler_schedule_from_interrupt now (interrupt_context_enter s))
   | Block \<Rightarrow> map_option (\<lambda>s'. (s', True)) (scheduler_block_task (current_running_task s) s)
   | Sleep now ticks \<Rightarrow> map_option (\<lambda>s'. (s', True)) (Option.bind (current_running_task s) (\<lambda>c. sleep_mark now ticks c s))
   | Exit \<Rightarrow> map_option (\<lambda>s'. (s', True)) (Option.bind (current_running_task s) (\<lambda>c. exit_mark c s))
   | Fault \<Rightarrow> map_option (\<lambda>s'. (interrupt_context_exit s', False)) (scheduler_terminate_current_from_interrupt s)
   | Add t \<Rightarrow> map_option (\<lambda>s'. (s', leaving)) (scheduler_add_task (Some t) s)
   | Wake t \<Rightarrow> map_option (\<lambda>s'. (s', leaving)) (scheduler_wakeup_task (Some t) s)
   | Kill t \<Rightarrow> map_option (\<lambda>s'. (s', leaving)) (terminate_other t s)
   | Spawn k \<Rightarrow> map_option (\<lambda>s'. (s', leaving)) (spawn k s)
   | Priority t p \<Rightarrow> Some (task_set_priority (Some t) p s, leaving))"

lemma settled_inv:
  assumes "settled s"
  shows "sched_inv False (interrupt_context_exit s)"
proof -
  obtain q xs c where q: "sched_ok s q xs" "c < 32" "current_running_task s = Some c" "c \<in> set q" "c = last q"
    "scheduler_enabled s" "interrupt_context_depth s \<le> 1"
    using assms by (auto simp: settled_def)
  have d: "interrupt_context_depth (interrupt_context_exit s) = 0"
    using q(7) by (auto simp: interrupt_context_exit_def word_le_nat_alt word_less_nat_alt unat_eq_zero unat_u32_dec le_Suc_eq intro!: word_unat_eq_iff [THEN iffD2])
  have "sched_ok (interrupt_context_exit s) q xs"
    using q(1) by (simp add: interrupt_context_exit_def sched_ok_depth)
  moreover have "tail_ok (interrupt_context_exit s) q" using q(3,5) by (simp add: tail_ok_def interrupt_context_exit_def)
  moreover have "scheduler_enabled (interrupt_context_exit s)" "current_running_task (interrupt_context_exit s) = Some c"
    using q(3,6) by (simp_all add: interrupt_context_exit_def)
  ultimately show ?thesis using q(2,4) d unfolding sched_inv_def by auto
qed

lemma sched_invE:
  assumes "sched_inv b s"
  obtains q xs c where "sched_ok s q xs" "q \<noteq> []" "c < 32" "current_running_task s = Some c" "\<not> b \<Longrightarrow> c \<in> set q"
    "\<not> b \<Longrightarrow> tail_ok s q" "scheduler_enabled s" "interrupt_context_depth s = 0"
  using assms unfolding sched_inv_def by blast

lemma sched_inv_weaken: "sched_inv False s \<Longrightarrow> sched_inv b s"
  by (auto simp: sched_inv_def)

lemma grown_inv:
  assumes g: "grown s q s' q'" and ok: "sched_ok s' q' xs" and q: "q \<noteq> []" and c: "current_running_task s = Some c" "c < 32"
    and b: "\<not> b \<Longrightarrow> c \<in> set q \<and> tail_ok s q" and d: "interrupt_context_depth s = 0" "scheduler_enabled s"
  shows "sched_inv b s'"
proof -
  have "q' \<noteq> []" "current_running_task s' = Some c" "\<not> b \<longrightarrow> c \<in> set q' \<and> tail_ok s' q'"
    using g q c b by (auto simp: grown_def)
  then show ?thesis using g ok c d unfolding sched_inv_def by (auto simp: grown_def)
qed

lemma current_detachable:
  assumes ok: "sched_ok s q xs" and c: "current_running_task s = Some c" "c \<in> set q" and t: "tail_ok s q"
  shows "detachable s c"
proof -
  note q = sched_okD(3) [OF ok]
  have "ready_queue_tail s = Some (last q)" if "c = hd q"
  proof (cases "c = last q")
    case True
    then have "q = [c]" using that c(2) q by (cases q) (auto simp: ready_queue_def ring_def split: if_splits)
    then show ?thesis using q by (simp add: ready_queue_def)
  qed (use t c in \<open>auto simp: tail_ok_def\<close>)
  then show ?thesis by (simp add: detachable_iff [OF q])
qed

lemma others_remain:
  assumes ok: "sched_ok s q xs" and c: "current_running_task s = Some c" and o: "others_ready s"
  shows "remove1 c q \<noteq> []"
proof -
  obtain i where i: "i < 32" "i \<noteq> c" "t_state (tk s i) = TASK_STATE_READY"
    using o c by (auto simp: others_ready_def list_ex_iff)
  then have "i \<in> set q" using slot_okD(1) [OF sched_okD(7) [OF ok i(1)]] by simp
  then have "i \<in> set (remove1 c q)" using i(2) by simp
  then show ?thesis by auto
qed

text \<open>The current task leaves the queue.\<close>

lemma leave_ok:
  assumes inv: "sched_inv False s" and o: "others_ready s" and c: "current_running_task s = Some c"
    and f: "\<And>k. t_next (f k) = t_next k" "\<And>k. \<not> active (t_state (f k))"
      "\<And>k. alive (t_state (f k)) \<Longrightarrow> same_slot ((f k)\<lparr>t_state := t_state k\<rparr>) k" "\<And>k. t_saved_int_depth (f k) = t_saved_int_depth k"
  shows "\<exists>s' q xs. scheduler_remove_task (Some c) (upd_task c f s) = Some s' \<and>
      scheduler_remove_task_locked (Some c) (upd_task c f s) = Some s' \<and> sched_ok s' q xs \<and> q \<noteq> [] \<and> c \<notin> set q \<and>
      relinked (upd_task c f s) s' \<and> sched_inv True s' \<and> c < 32"
proof -
  obtain q xs where q: "sched_ok s q xs" "q \<noteq> []" "c < 32" "c \<in> set q" "tail_ok s q" "scheduler_enabled s" "interrupt_context_depth s = 0"
    using inv c by (auto elim: sched_invE)
  have al: "alive (t_state (tk s c))" using slot_okD(1) [OF sched_okD(7) [OF q(1,3)]] q(4) by (simp add: active_alive)
  obtain s' where s': "scheduler_remove_task_locked (Some c) (upd_task c f s) = Some s'" "sched_ok s' (remove1 c q) xs"
    "relinked (upd_task c f s) s'"
    using remove_ok [OF q(1,3) current_detachable [OF q(1) c q(4,5)] refl f al] by blast
  have ne: "remove1 c q \<noteq> []" by (rule others_remain [OF q(1) c o])
  have "distinct q" using sched_okD(3) [OF q(1)] by (simp add: ready_queue_def ring_def)
  moreover have "scheduler_remove_task (Some c) (upd_task c f s) = Some s'"
    using s'(1) ready_queue_empty [OF sched_okD(3) [OF q(1)]] q(2) by (auto simp: scheduler_remove_task_def)
  moreover have "sched_inv True s'"
    using s'(2) ne q c relinked_sel [OF s'(3)] unfolding sched_inv_def by auto
  ultimately show ?thesis using s' ne q(3) by (intro exI [of _ s'] exI [of _ "remove1 c q"] exI [of _ xs]) simp
qed

lemma block_ok:
  assumes inv: "sched_inv False s" and o: "others_ready s" and c: "current_running_task s = Some c"
  shows "\<exists>s'. scheduler_block_task (Some c) s = Some s' \<and> sched_inv True s' \<and> t_state (tk s' c) = TASK_STATE_BLOCKED \<and>
    (\<forall>i. i \<noteq> c \<longrightarrow> t_state (tk s' i) = t_state (tk s i)) \<and>
    (\<forall>i. t_pid (tk s' i) = t_pid (tk s i) \<and> t_generation (tk s' i) = t_generation (tk s i)) \<and>
    current_running_task s' = current_running_task s"
proof -
  obtain q xs where q: "sched_ok s q xs" "q \<noteq> []" "c < 32" "c \<in> set q" "tail_ok s q" "scheduler_enabled s" "interrupt_context_depth s = 0"
    using inv c by (auto elim: sched_invE)
  obtain s1 where s1: "scheduler_remove_task_locked (Some c) s = Some s1" "ready_queue s1 (remove1 c q)" "relinked s s1"
    using remove_task_ok [OF sched_okD(3,1) [OF q(1)] current_detachable [OF q(1) c q(4,5)]] by blast
  note r = relinked_tcb [OF s1(3)] relinked_sel [OF s1(3)]
  let ?s = "upd_task c (\<lambda>k. k\<lparr>t_state := TASK_STATE_BLOCKED\<rparr>) s1"
  have len: "c < length (tasks s1)" using sched_okD(1) [OF q(1)] q(3) r by simp
  have dist: "distinct q" using sched_okD(3) [OF q(1)] by (simp add: ready_queue_def ring_def)
  have "sched_ok ?s (remove1 c q) xs"
  proof (rule sched_ok_change [OF q(1), of ?s c])
    show "ready_queue ?s (remove1 c q)" by (rule ready_queue_same [OF s1(2)]) (use len in auto)
    show "pending ?s xs" using sched_okD(4) [OF q(1)] by (simp add: pending_def r)
    show "slot_ok ?s (set (remove1 c q)) xs c"
      using sched_okD(7) [OF q(1,3)] q(4) len dist active_alive
      by (auto simp: slot_ok_def task_slot_is_live_def stack_ok_def r)
  qed (use len dist in \<open>auto simp: r same_slot_def\<close>)
  moreover have "remove1 c q \<noteq> []" by (rule others_remain [OF q(1) c o])
  ultimately have "sched_inv True ?s" using q c len unfolding sched_inv_def by (auto simp: r)
  moreover have "scheduler_block_task (Some c) s = Some ?s" using s1(1) q(7) by (simp add: scheduler_block_task_def)
  ultimately show ?thesis using len c by (simp add: r)
qed

lemma remove1_last: "x \<noteq> last q \<Longrightarrow> q \<noteq> [] \<Longrightarrow> last (remove1 x q) = last q"
  by (cases q rule: rev_cases) (auto simp: remove1_append)

lemma kill_ok:
  assumes inv: "sched_inv False s" and t: "t < 32" "alive (t_state (tk s t))" "current_running_task s \<noteq> Some t" "detachable s t"
  shows "\<exists>s'. terminate_other t s = Some s' \<and> sched_inv False s'"
proof -
  let ?f = "\<lambda>k. k\<lparr>t_state := TASK_STATE_TERMINATED, t_pid := 0\<rparr>"
  define s0 where "s0 = scheduler_fpu_release (Some t) s"
  have sel0: "tasks s0 = tasks s" "slot_generations s0 = slot_generations s" "free_slot_bitmap s0 = free_slot_bitmap s"
    "ready_queue_head s0 = ready_queue_head s" "ready_queue_tail s0 = ready_queue_tail s"
    "current_running_task s0 = current_running_task s" "pending s0 = pending s" "scheduler_enabled s0 = scheduler_enabled s"
    "interrupt_context_depth s0 = interrupt_context_depth s"
    by (simp_all add: s0_def scheduler_fpu_release_def pending_def fun_eq_iff)
  have tk0: "tk s0 = tk s" by (simp add: tk_def sel0 fun_eq_iff)
  obtain q xs c where q: "sched_ok s q xs" "q \<noteq> []" "c < 32" "current_running_task s = Some c" "c \<in> set q" "tail_ok s q"
    "scheduler_enabled s" "interrupt_context_depth s = 0"
    using inv by (auto elim: sched_invE)
  have ok0: "sched_ok s0 q xs" using q(1) by (simp add: s0_def scheduler_fpu_release_def sched_ok_fpu)
  have al: "alive (t_state (tk s0 t))" and de: "detachable s0 t" using t by (auto simp: tk0 detachable_def sel0 split: option.splits)
  obtain s1 where s1: "scheduler_remove_task_locked (Some t) (upd_task t ?f s0) = Some s1" "sched_ok s1 (remove1 t q) xs"
    "relinked (upd_task t ?f s0) s1"
    "ready_queue_tail s0 = Some (last q) \<longrightarrow> remove1 t q \<noteq> [] \<longrightarrow> ready_queue_tail s1 = Some (last (remove1 t q))"
    using remove_ok [OF ok0 t(1) de refl _ _ _ _ al, of ?f] by auto
  note r = relinked_tcb [OF s1(3)] relinked_sel [OF s1(3)]
  let ?s = "task_free_slot_for_task t s1"
  have tl: "t < length (tasks s0)" using sched_okD(1) [OF ok0] t(1) by simp
  have tk2: "tk ?s = tk s1" by (simp add: task_free_slot_for_task_def)
  have "sched_ok ?s (remove1 t q) xs"
  proof (rule sched_ok_change [OF s1(2), of ?s t])
    show "ready_queue ?s (remove1 t q)" using sched_okD(3) [OF s1(2)] by (simp add: ready_queue_def task_free_slot_for_task_def)
    show "pending ?s xs" using sched_okD(4) [OF s1(2)] by (simp add: pending_def task_free_slot_for_task_def)
    show "slot_ok ?s (set (remove1 t q)) xs t"
      using sched_okD(7) [OF s1(2) t(1)] sched_okD(7) [OF q(1) t(1)] t tl
      by (auto simp: slot_ok_def tk2 r tk0 sel0) (auto simp: task_free_slot_for_task_def r sel0)
  qed (auto simp: task_free_slot_for_task_def bit_or_mask_1 same_slot_def)
  moreover have ct: "c \<in> set (remove1 t q)" using q(4,5) t(3) by auto
  then have ne: "remove1 t q \<noteq> []" by auto
  have cur: "current_running_task ?s = Some c" "ready_queue_tail ?s = ready_queue_tail s1"
    using q(4) by (simp_all add: task_free_slot_for_task_def r sel0)
  have "tail_ok ?s (remove1 t q)"
    using q(4-6) s1(4) ne remove1_last [of t q] t(3) q(2) by (auto simp: tail_ok_def cur sel0)
  ultimately have "sched_inv False ?s" using q ct ne cur
    unfolding sched_inv_def by (auto simp: task_free_slot_for_task_def r sel0)
  moreover have "terminate_other t s = Some ?s"
    using s1(1) ready_queue_empty [OF sched_okD(3) [OF ok0]] q(2)
    by (auto simp: terminate_other_def s0_def [symmetric] scheduler_remove_task_def)
  ultimately show ?thesis by blast
qed

lemma fault_ok:
  assumes inv: "sched_inv False s" and o: "others_ready s" and c: "current_running_task s = Some c"
    and k: "\<not> t_is_kernel_task (tk s c)"
  shows "wp (scheduler_terminate_current_from_interrupt s) settled"
proof -
  let ?f = "\<lambda>k. k\<lparr>t_state := TASK_STATE_TERMINATED, t_ticks_remaining := 0\<rparr>"
  obtain s1 q xs where s1: "scheduler_remove_task_locked (Some c) (upd_task c ?f s) = Some s1" "sched_ok s1 q xs" "q \<noteq> []"
    "relinked (upd_task c ?f s) s1" "c < 32" "c \<notin> set q"
    using leave_ok [OF inv o c, of ?f] by auto
  note r = relinked_tcb [OF s1(4)] relinked_sel [OF s1(4)]
  have en: "scheduler_enabled s" "interrupt_context_depth s = 0" using inv by (auto elim: sched_invE)
  obtain q0 xs0 where q0: "sched_ok s q0 xs0" "c \<in> set q0" using inv c by (auto elim: sched_invE)
  have len: "c < length (tasks s)" using sched_okD(1) [OF q0(1)] s1(5) by simp
  have live: "task_slot_is_live s c"
    using slot_okD(1,2) [OF sched_okD(7) [OF q0(1) s1(5)]] q0(2) active_alive by blast
  have dead: "t_state (tk s1 c) = TASK_STATE_TERMINATED" using len by (simp add: r)
  obtain n rest where n: "q = n # rest" using s1(3) by (cases q) auto
  obtain s2 where s2: "scheduler_get_next_task s1 = Some (Some n, s2)" "sched_ok s2 (rest @ [n]) xs" "relinked s1 s2"
    using pick_ok [OF s1(2) [unfolded n]] by blast
  have s2eq: "s2 = s1\<lparr>ready_queue_head := t_next (tk s1 n)\<rparr>"
    using s2(1) queued_runnable [OF s1(2), of n] ready_queue_head [of s1 n rest] sched_okD(3) [OF s1(2)] n
    by (subst (asm) scheduler_get_next_task.simps) simp
  let ?e = "snd (cleanup_queue_enqueue (Some c) s1)"
  have "runnable ?e n" using queued_runnable [OF s1(2), of n] n
    by (simp add: runnable_def task_slot_is_live_def tk_def cleanup_enqueue_sel)
  then have pick: "scheduler_get_next_task ?e = Some (Some n, ?e\<lparr>ready_queue_head := t_next (tk ?e n)\<rparr>)"
    using ready_queue_head [of s1 n rest] sched_okD(3) [OF s1(2)] n
    by (subst scheduler_get_next_task.simps) (simp add: cleanup_enqueue_sel)
  have ret: "?e\<lparr>ready_queue_head := t_next (tk ?e n)\<rparr> = retire_prev c s2"
    using dead by (simp add: retire_prev_def s2eq cleanup_queue_enqueue_def tk_def)
  have cur2: "current_running_task s2 = Some c" "scheduler_enabled s2" "interrupt_context_depth s2 = 0"
    using c en by (simp_all add: relinked_sel [OF s2(3)] r)
  have nc: "n \<in> set (rest @ [n])" "n \<noteq> c" using s1(6) n by auto
  note a = switch_counted_ok [OF s2(2) nc cur2(1) s1(5)]
  have n32: "n < 32" using ready_queue_bound [OF sched_okD(3) [OF s1(2)], of n] sched_okD(1) [OF s1(2)] n by simp
  obtain ys where ys: "sched_ok (switch_counted c n s2) (rest @ [n]) ys" using a(1) by blast
  let ?s = "(upd_task n (\<lambda>k. k\<lparr>t_has_run_before := True\<rparr>) (make_current n (retire_prev c s2)))"
  have "sched_ok (make_current n (retire_prev c s2)) (rest @ [n]) ys"
    using ys by (simp add: switch_counted_def Let_def sched_ok_count)
  then have "sched_ok ?s (rest @ [n]) ys" by (rule has_run_ok [OF _ n32])
  then have "sched_ok (?s\<lparr>total_context_switches := total_context_switches ?s + 1\<rparr>) (rest @ [n]) ys"
    by (simp only: sched_ok_count)
  then have "wp (scheduler_switch_kernel_context c n (?s\<lparr>total_context_switches := total_context_switches ?s + 1\<rparr>)) (resumed c [] s)"
    by (rule finish_switch [OF _ nc(1) _ nc(2) s1(5)]) (use a cur2 in \<open>auto simp: switch_counted_def Let_def\<close>)
  then show ?thesis
    using en c live k s1(1) pick nc(2)
    by (simp add: scheduler_terminate_current_from_interrupt_def step_simps Let_def ret resumed_settled [abs_def])
qed

lemma spawn_grown:
  assumes ok: "sched_ok s q xs" and k: "t_pid k \<noteq> 0" "stack_ok k" "t_saved_int_depth k = 0"
  shows "\<exists>s' q'. spawn k s = Some s' \<and> sched_ok s' q' xs \<and> grown s q s' q' \<and> (free_slot_bitmap s \<noteq> 0 \<longrightarrow> q' \<noteq> [])"
proof (cases "find (\<lambda>i. bit (free_slot_bitmap s) i) [0..<32]")
  case None
  then have "free_slot_bitmap s = 0" by (intro bit_word_eqI) (auto simp: find_None_iff)
  then show ?thesis using None ok by (auto simp: spawn_def task_find_free_slot_def)
next
  case (Some i)
  then have i: "i < 32" "bit (free_slot_bitmap s) i" using find_upt_SomeD by blast+
  note sl = slot_okD [OF sched_okD(7) [OF ok i(1)]]
  have fr: "t_state (tk s i) = TASK_STATE_TERMINATED" "i \<notin> set xs" "current_running_task s \<noteq> Some i" "i \<notin> set q" using sl(1,8) i(2) by auto
  define k' where "k' = k\<lparr>t_generation := slot_generations s ! i, t_state := TASK_STATE_READY\<rparr>"
  define s1 where "s1 = upd_task i (\<lambda>_. k') (s\<lparr>free_slot_bitmap := free_slot_bitmap s AND NOT (push_bit i 1)\<rparr>)"
  have len: "i < length (tasks s)" "length (tasks s) = 32" using sched_okD(1) [OF ok] i(1) by auto
  have tk1: "tk s1 j = (if j = i then k' else tk s j)" for j using len by (simp add: s1_def)
  have q1: "ready_queue s1 q" by (rule ready_queue_same [OF sched_okD(3) [OF ok]]) (use fr(4) len in \<open>auto simp: tk1, auto simp: s1_def\<close>)
  have "length (tasks s1) = 32" "t_pid (tk s1 i) \<noteq> 0" using len k by (simp_all add: s1_def k'_def)
  then obtain s' q' where a: "scheduler_add_task (Some i) s1 = Some s'" "ready_queue s' q'" "set q' = insert i (set q)"
    "relinked (made_ready i s1) s'"
    "\<forall>c \<in> set q. c = last q \<or> ready_queue_tail s1 = Some (last q) \<longrightarrow> c = last q' \<or> ready_queue_tail s' = Some (last q')"
    using add_task_ok [OF q1 _ i(1) _ fr(4)] by blast
  note r = relinked_tcb [OF a(4)] relinked_sel [OF a(4)]
  have sel1: "length (tasks s1) = length (tasks s)" "slot_generations s1 = slot_generations s"
    "current_running_task s1 = current_running_task s" "ready_queue_tail s1 = ready_queue_tail s"
    "scheduler_enabled s1 = scheduler_enabled s" "interrupt_context_depth s1 = interrupt_context_depth s"
    "\<And>j. j \<noteq> i \<Longrightarrow> bit (free_slot_bitmap s1) j = bit (free_slot_bitmap s) j" "\<not> bit (free_slot_bitmap s1) i" "pending s1 = pending s"
    by (auto simp: s1_def bit_and_not_mask_1 pending_def fun_eq_iff)
  have mr: "tk (made_ready i s1) j = (if j = i then k'\<lparr>t_ticks_remaining := t_time_slice k'\<rparr> else tk s j)" for j
    using len by (simp add: made_ready_def tk1 sel1 k'_def)
  have mr2: "current_running_task (made_ready i s1) = current_running_task s1" "slot_generations (made_ready i s1) = slot_generations s1"
    "free_slot_bitmap (made_ready i s1) = free_slot_bitmap s1" "length (tasks (made_ready i s1)) = length (tasks s1)"
    "scheduler_enabled (made_ready i s1) = scheduler_enabled s1" "interrupt_context_depth (made_ready i s1) = interrupt_context_depth s1"
    "pending (made_ready i s1) = pending s1"
    by (simp_all add: made_ready_def pending_def fun_eq_iff)
  have "pending s' = pending s" using pending_cong [OF r(14-17)] by (simp add: fun_eq_iff mr2 sel1)
  moreover have "slot_ok s' (set q') xs i"
    using i fr k unfolding slot_ok_def task_slot_is_live_def stack_ok_def r mr mr2 sel1(2,3) using sel1(8) a(3)
    by (auto simp: k'_def stack_ok_def)
  ultimately have "sched_ok s' q' xs"
    using sched_okD(4) [OF ok] a(2,3)
    by (intro sched_ok_change [OF ok, of s' i q']) (auto simp: r mr mr2 sel1 same_slot_def)
  moreover have "grown s q s' q'"
    using a(3,5) by (auto simp: grown_def tail_ok_def r mr2 sel1)
  moreover have "spawn k s = Some s'" using a(1) Some by (simp add: spawn_def task_find_free_slot_def s1_def k'_def)
  moreover have "q' \<noteq> []" using a(3) by auto
  ultimately show ?thesis by (intro exI [of _ s'] exI [of _ q']) simp
qed

lemma spawn_ok:
  assumes inv: "sched_inv b s" and k: "t_pid k \<noteq> 0" "stack_ok k" "t_saved_int_depth k = 0"
  shows "\<exists>s'. spawn k s = Some s' \<and> sched_inv b s'"
proof -
  obtain q xs c where q: "sched_ok s q xs" "q \<noteq> []" "c < 32" "current_running_task s = Some c" "\<not> b \<Longrightarrow> c \<in> set q"
    "\<not> b \<Longrightarrow> tail_ok s q" "scheduler_enabled s" "interrupt_context_depth s = 0"
    using inv by (blast elim: sched_invE)
  obtain s' q' where a: "spawn k s = Some s'" "sched_ok s' q' xs" "grown s q s' q'"
    using spawn_grown [OF q(1) k] by blast
  have "sched_inv b s'" by (rule grown_inv [OF a(3,2) q(2,4,3)]) (use q in auto)
  then show ?thesis using a(1) by blast
qed

end
