(* ===== verification/Sched_Boot.thy ===== *)
theory Sched_Boot
  imports Sched_Safe
begin

text \<open>
  Boot of the scheduler: from static storage through \<^verbatim>\<open>process_init\<close>, \<^verbatim>\<open>scheduler_init\<close> and the creation
  of the boot tasks to \<^verbatim>\<open>scheduler_start\<close>, which establishes the invariant of the running system.
\<close>

section \<open>Boot\<close>

definition spawn_all :: "tcb list \<Rightarrow> sched \<Rightarrow> sched option" where
  "spawn_all ks s = foldl (\<lambda>r k. Option.bind r (spawn k)) (Some s) ks"

definition sched_boot :: "tcb list \<Rightarrow> sched option" where
  \<comment> \<open>the order of \<^verbatim>\<open>kernel_main\<close>: both initialisations, the boot tasks, the start\<close>
  "sched_boot ks = Option.bind (spawn_all ks (scheduler_init (process_init zero_sched))) scheduler_start"

definition startable :: "tcb \<Rightarrow> bool" where
  \<comment> \<open>what task creation gives every new task\<close>
  "startable k \<longleftrightarrow> t_pid k \<noteq> 0 \<and> stack_ok k \<and> t_saved_int_depth k = 0"

lemma boot_table_sel:
  defines "s \<equiv> scheduler_init (process_init zero_sched)"
  shows "i < 32 \<Longrightarrow> tk s i = zero_tcb" "length (tasks s) = 32" "length (slot_generations s) = 32" "ready_queue_head s = None"
    "ready_queue_tail s = None" "current_running_task s = None" "pending s []" "interrupt_context_depth s = 0"
    "free_slot_bitmap s = 0xFFFFFFFF"
  unfolding s_def scheduler_init_def process_init_def zero_sched_def tk_def pending_def
  by simp_all

lemma boot_table_ok: "sched_ok (scheduler_init (process_init zero_sched)) [] []"
proof -
  let ?s = "scheduler_init (process_init zero_sched)"
  note b = boot_table_sel
  have "slot_ok ?s (set []) [] i" if "i < 32" for i
    unfolding slot_ok_def b(1) [OF that] b(6) by (simp add: zero_tcb_def)
  moreover have "ready_queue ?s []" by (simp add: ready_queue_def ring_def b)
  ultimately show ?thesis by (simp add: sched_ok_def b)
qed

lemma spawn_all_ok:
  assumes "\<forall>k \<in> set ks. startable k" and "sched_ok s q xs" and "current_running_task s = None" and "interrupt_context_depth s = 0"
  shows "wp (spawn_all ks s) (\<lambda>s'. \<exists>q'. sched_ok s' q' xs \<and> set q \<subseteq> set q' \<and> (q = [] \<longrightarrow> ks \<noteq> [] \<longrightarrow> free_slot_bitmap s \<noteq> 0 \<longrightarrow> q' \<noteq> []) \<and>
    current_running_task s' = None \<and> interrupt_context_depth s' = 0)"
  using assms
proof (induction ks arbitrary: s q)
  case Nil
  then show ?case by (auto simp: spawn_all_def step_simps)
next
  case (Cons k ks)
  obtain s1 q1 where s1: "spawn k s = Some s1" "sched_ok s1 q1 xs" "grown s q s1 q1" "free_slot_bitmap s \<noteq> 0 \<longrightarrow> q1 \<noteq> []"
    using spawn_grown [OF Cons.prems(2), of k] Cons.prems(1) by (auto simp: startable_def)
  have eq: "spawn_all (k # ks) s = spawn_all ks s1" using s1(1) by (simp add: spawn_all_def)
  have sel: "set q \<subseteq> set q1" "current_running_task s1 = None" "interrupt_context_depth s1 = 0"
    using s1(3) Cons.prems by (auto simp: grown_def)
  have "wp (spawn_all ks s1) (\<lambda>s'. \<exists>q'. sched_ok s' q' xs \<and> set q1 \<subseteq> set q' \<and>
      (q1 = [] \<longrightarrow> ks \<noteq> [] \<longrightarrow> free_slot_bitmap s1 \<noteq> 0 \<longrightarrow> q' \<noteq> []) \<and> current_running_task s' = None \<and> interrupt_context_depth s' = 0)"
    by (rule Cons.IH [OF _ s1(2)]) (use sel Cons.prems(1) in auto)
  moreover have "set q \<subseteq> set q' \<and> (q = [] \<longrightarrow> k # ks \<noteq> [] \<longrightarrow> free_slot_bitmap s \<noteq> 0 \<longrightarrow> q' \<noteq> [])" if "set q1 \<subseteq> set q'" for q'
    using that sel(1) s1(4) by auto
  ultimately show ?case unfolding eq by - (erule wp_mono, blast)
qed

lemma sched_ok_enabled: "sched_ok (s\<lparr>scheduler_enabled := b\<rparr>) q xs = sched_ok s q xs"
  by (simp add: sched_ok_def slot_ok_def task_slot_is_live_def ready_queue_def pending_def tk_def)

lemma sched_ok_esp0: "sched_ok (s\<lparr>tss_esp0 := e\<rparr>) q xs = sched_ok s q xs"
  by (simp add: sched_ok_def slot_ok_def task_slot_is_live_def ready_queue_def pending_def tk_def)

lemma start_ok:
  assumes ok: "sched_ok s q xs" and q: "q \<noteq> []" and c: "current_running_task s = None" and d: "interrupt_context_depth s = 0"
  shows "wp (scheduler_start s) (sched_inv False)"
proof -
  obtain n r where n: "q = n # r" using q by (cases q) auto
  have en: "sched_ok (s\<lparr>scheduler_enabled := True\<rparr>) (n # r) xs"
    using ok n by (simp add: sched_ok_enabled)
  obtain s1 where s1: "scheduler_get_next_task (s\<lparr>scheduler_enabled := True\<rparr>) = Some (Some n, s1)" "sched_ok s1 (r @ [n]) xs"
    "relinked (s\<lparr>scheduler_enabled := True\<rparr>) s1"
    using pick_ok [OF en] by blast
  have sel: "current_running_task s1 = None" "interrupt_context_depth s1 = 0" "scheduler_enabled s1"
    using relinked_sel [OF s1(3)] c d by simp_all
  have n32: "n < 32" "n < length (tasks s1)"
    using ready_queue_bound [OF sched_okD(3) [OF s1(2)], of n] sched_okD(1) [OF s1(2)] by simp_all
  note mc = made_current [OF n32(2)]
  have sln: "alive (t_state (tk s1 n))" "n \<notin> set xs" "task_slot_is_live s1 n" "stack_ok (tk s1 n)"
    using slot_okD(1-3,6) [OF sched_okD(7) [OF s1(2) n32(1)]] active_alive by auto
  have "slot_ok (make_current n s1) (set (r @ [n])) xs i" if "i < 32" for i
    using sched_okD(7) [OF s1(2) that] sln sel(1)
    by (cases "i = n") (auto simp: slot_ok_def task_slot_is_live_def stack_ok_def mc)
  moreover have "ready_queue (make_current n s1) (r @ [n])"
    by (rule ready_queue_same [OF sched_okD(3) [OF s1(2)]]) (auto simp: mc)
  ultimately have ok2: "sched_ok (make_current n s1) (r @ [n]) xs"
    using sched_okD [OF s1(2)] by (auto simp: sched_ok_def mc)
  have inv: "sched_inv False ((make_current n s1)\<lparr>tss_esp0 := e\<rparr>)" for e
    unfolding sched_inv_def using ok2 n32 sel mc
    by (intro conjI exI [of _ "r @ [n]"] exI [of _ xs] exI [of _ n])
      (auto simp: tail_ok_def sched_ok_esp0)
  have "t_pid (tk s1 n) \<noteq> 0" using sln(3) by (simp add: task_slot_is_live_def)
  then have "\<not> t_pid (tk s1 n) < 1" by (simp add: word_less_1)
  moreover have "ready_queue_head s \<noteq> None" using ready_queue_empty [OF sched_okD(3) [OF ok]] q by simp
  moreover have "stack_ok (tk (make_current n s1) n)" using sln(4) by (simp add: mc stack_ok_def)
  ultimately show ?thesis
    using s1(1) inv inv [of "tss_esp0 (make_current n s1)"] n32
    by (auto simp: scheduler_start_def step_simps Let_def stack_ok_def tss_set_kernel_stack_def mc not_less)
qed

lemma boot_ok:
  assumes "ks \<noteq> []" and "\<forall>k \<in> set ks. startable k"
  shows "wp (sched_boot ks) (sched_inv False)"
proof -
  have "wp (spawn_all ks (scheduler_init (process_init zero_sched)))
    (\<lambda>s'. wp (scheduler_start s') (sched_inv False))"
    by (rule wp_mono [OF spawn_all_ok [OF assms(2) boot_table_ok]])
      (use assms(1) start_ok in \<open>auto simp: boot_table_sel\<close>)
  then show ?thesis by (simp add: sched_boot_def step_simps)
qed

end
