(* ===== verification/Sched_Hist.thy ===== *)
theory Sched_Hist
  imports Sched_Boot
begin

text \<open>
  Histories of the scheduler: every operation in its context keeps the invariant, so every
  state reachable from a booted one satisfies it.
\<close>

section \<open>Histories\<close>

lemma leaves_ok:
  assumes inv: "sched_inv False s" and o: "others_ready s"
  shows "wp (sched_exec Block (s, False)) (\<lambda>(s', b'). sched_inv b' s')"
    and "wp (sched_exec (Sleep now ticks) (s, False)) (\<lambda>(s', b'). sched_inv b' s')"
    and "wp (sched_exec Exit (s, False)) (\<lambda>(s', b'). sched_inv b' s')"
proof -
  obtain c where c: "current_running_task s = Some c" using inv by (auto elim: sched_invE)
  show "wp (sched_exec Block (s, False)) (\<lambda>(s', b'). sched_inv b' s')"
    using block_ok [OF inv o c] c by (auto simp: sched_exec_def step_simps)
  show "wp (sched_exec (Sleep now ticks) (s, False)) (\<lambda>(s', b'). sched_inv b' s')"
    using leave_ok [OF inv o c, of "\<lambda>k. k\<lparr>t_wake_tick := now + ticks, t_state := TASK_STATE_SLEEPING\<rparr>"] c
    by (auto simp: sched_exec_def step_simps sleep_mark_def same_slot_def)
  show "wp (sched_exec Exit (s, False)) (\<lambda>(s', b'). sched_inv b' s')"
    using leave_ok [OF inv o c, of "\<lambda>k. k\<lparr>t_state := TASK_STATE_ZOMBIE\<rparr>"] c
    by (auto simp: sched_exec_def step_simps exit_mark_def same_slot_def)
qed

lemma add_inv:
  assumes inv: "sched_inv b s" and t: "t < 32" "alive (t_state (tk s t))"
  shows "\<exists>s'. scheduler_add_task (Some t) s = Some s' \<and> sched_inv b s'"
proof -
  obtain q xs c where q: "sched_ok s q xs" "q \<noteq> []" "c < 32" "current_running_task s = Some c" "\<not> b \<Longrightarrow> c \<in> set q"
    "\<not> b \<Longrightarrow> tail_ok s q" "scheduler_enabled s" "interrupt_context_depth s = 0"
    using inv by (blast elim: sched_invE)
  obtain s' q' where a: "scheduler_add_task (Some t) s = Some s'" "sched_ok s' q' xs" "grown s q s' q'"
    using add_grown [OF q(1) t] by blast
  have "sched_inv b s'" by (rule grown_inv [OF a(3,2) q(2,4,3)]) (use q in auto)
  then show ?thesis using a(1) by blast
qed

lemma yield_inv: "sched_inv b s \<Longrightarrow> wp (scheduler_yield s) (\<lambda>s'. sched_inv False (interrupt_context_exit s'))"
  by (erule sched_invE, rule wp_mono [OF yield_ok settled_inv]) auto

lemma tick_inv:
  assumes inv: "sched_inv b s"
  shows "wp (scheduler_schedule_from_interrupt now (interrupt_context_enter s))
    (\<lambda>s'. sched_inv (b \<and> current_running_task s' = current_running_task s) (interrupt_context_exit s'))"
proof -
  obtain q xs c where q: "sched_ok s q xs" "q \<noteq> []" "c < 32" "current_running_task s = Some c" "\<not> b \<Longrightarrow> c \<in> set q"
    "\<not> b \<Longrightarrow> tail_ok s q" "scheduler_enabled s" "interrupt_context_depth s = 0"
    using inv by (blast elim: sched_invE)
  let ?s = "interrupt_context_enter s"
  have e: "sched_ok ?s q xs" "current_running_task ?s = Some c" "scheduler_enabled ?s" "interrupt_context_depth ?s = 1"
    "tail_ok ?s q = tail_ok s q"
    using q by (simp_all add: interrupt_context_enter_def sched_ok_depth tail_ok_def)
  have grown: "sched_inv (b \<and> current_running_task s' = current_running_task s) (interrupt_context_exit s')"
    if g: "sched_ok s' q' []" "grown ?s q s' q'" for s' q'
  proof -
    have d: "interrupt_context_depth s' = 1" "current_running_task s' = Some c" "scheduler_enabled s'"
      using g(2) e by (simp_all add: grown_def)
    have x: "interrupt_context_exit s' = s'\<lparr>interrupt_context_depth := 0\<rparr>" using d by (simp add: interrupt_context_exit_def)
    have "q' \<noteq> []" "\<not> b \<longrightarrow> c \<in> set q' \<and> tail_ok s' q'" using g(2) q e by (auto simp: grown_def)
    then show ?thesis
      unfolding sched_inv_def x using g(1) d q(3,4)
      by (intro conjI exI [of _ q'] exI [of _ "[]"] exI [of _ c]) (auto simp: sched_ok_depth tail_ok_def)
  qed
  show ?thesis
    by (rule wp_mono [OF interrupt_ok [OF e(1) q(2) e(2) q(3)]])
      (use e grown settled_inv sched_inv_weaken in auto)
qed

lemma exec_ok:
  assumes inv: "sched_inv b s" and al: "allowed op (s, b)"
  shows "wp (sched_exec op (s, b)) (\<lambda>(s', b'). sched_inv b' s')"
proof (cases op)
  case Yield
  then show ?thesis using yield_inv [OF inv] by (simp add: sched_exec_def step_simps)
next
  case (Tick now)
  then show ?thesis using tick_inv [OF inv, of now] by (simp add: sched_exec_def step_simps)
next
  case Fault
  then have f: "\<not> b" "others_ready s" "\<not> t_is_kernel_task (tk s (the (current_running_task s)))" using al by (simp_all add: allowed_def)
  moreover obtain c where "current_running_task s = Some c" using inv by (auto elim: sched_invE)
  ultimately have "wp (scheduler_terminate_current_from_interrupt s) settled" using fault_ok [of s c] inv by simp
  then have "wp (scheduler_terminate_current_from_interrupt s) (\<lambda>s'. sched_inv False (interrupt_context_exit s'))"
    by (rule wp_mono) (rule settled_inv)
  then show ?thesis using Fault by (simp add: sched_exec_def step_simps)
next
  case (Add t)
  then show ?thesis using add_inv [OF inv, of t] al by (auto simp: sched_exec_def step_simps allowed_def)
next
  case (Wake t)
  then show ?thesis using add_inv [OF inv, of t] inv al
    by (auto simp: sched_exec_def step_simps allowed_def scheduler_wakeup_task_def)
next
  case (Kill t)
  then show ?thesis using kill_ok [of s t] inv al by (auto simp: sched_exec_def step_simps allowed_def)
next
  case (Spawn k)
  then show ?thesis using spawn_ok [OF inv, of k] al by (auto simp: sched_exec_def step_simps allowed_def)
next
  case (Priority t p)
  obtain q xs c where q: "sched_ok s q xs" "q \<noteq> []" "c < 32" "current_running_task s = Some c" "\<not> b \<Longrightarrow> c \<in> set q"
    "\<not> b \<Longrightarrow> tail_ok s q" "scheduler_enabled s" "interrupt_context_depth s = 0"
    using inv by (blast elim: sched_invE)
  have "sched_ok (upd_task t f s) q xs" if "\<And>k. same_slot (f k) k" "\<And>k. t_next (f k) = t_next k" for f
    using sched_ok_tick [OF q(1) _ that] Priority al by (simp add: allowed_def)
  then have "sched_ok (task_set_priority (Some t) p s) q xs" using q(1) by (simp add: task_set_priority_def Let_def same_slot_def)
  then have "sched_inv b (task_set_priority (Some t) p s)"
    unfolding sched_inv_def using q
    by (intro conjI exI [of _ q] exI [of _ xs] exI [of _ c]) (auto simp: task_set_priority_def Let_def tail_ok_def)
  then show ?thesis using Priority by (simp add: sched_exec_def step_simps)
qed (use leaves_ok inv al in \<open>auto simp: allowed_def\<close>)

text \<open>The states the scheduler can be in: any sequence of operations in their contexts.\<close>

inductive sched_reach :: "sched \<times> bool \<Rightarrow> sched \<times> bool \<Rightarrow> bool" for start where
  sched_start: "sched_reach start start"
| sched_step: "sched_reach start c \<Longrightarrow> allowed op c \<Longrightarrow> sched_exec op c = Some c' \<Longrightarrow> sched_reach start c'"

lemma reach_inv:
  assumes "sched_reach (s0, b0) (s, b)" and "sched_inv b0 s0"
  shows "sched_inv b s"
proof -
  have "case c of (s, b) \<Rightarrow> sched_inv b s" if "sched_reach (s0, b0) c" for c
    using that
  proof induction
    case (sched_step c op c')
    then show ?case using exec_ok [of "snd c" "fst c" op] by (auto simp: wp_iff split: prod.splits)
  qed (use assms(2) in simp)
  then show ?thesis using assms(1) by fastforce
qed

end
