(* ===== verification/Sched_Props.thy ===== *)
theory Sched_Props
  imports Sched_Hist
begin

text \<open>
  Properties of the scheduler: what every history of operations keeps, in which order tasks
  get the processor, and two ways in which the circular queue with its separate tail
  pointer falls short of a round robin.
\<close>

section \<open>Round robin\<close>

lemma kernel_switch_sel:
  assumes "scheduler_switch_kernel_context p n s = Some s'" and "p < length (tasks s)"
  shows "t_state (tk s' i) = t_state (tk s i)" "t_time_slice (tk s' i) = t_time_slice (tk s i)"
    "t_ticks_remaining (tk s' i) = t_ticks_remaining (tk s i)" "cleanup_queue_count s' = cleanup_queue_count s"
    "ready_queue_tail s' = ready_queue_tail s"
  using assms
  by (auto simp: scheduler_switch_kernel_context_def tss_set_kernel_stack_def Let_def bind_eq_Some_conv split: if_splits)

lemma exit_handler:
  assumes "interrupt_context_depth s \<le> 1"
  shows "interrupt_context_exit s = s\<lparr>interrupt_context_depth := 0\<rparr>"
proof -
  have "unat (interrupt_context_depth s) = 0 \<or> unat (interrupt_context_depth s) = unat (1 :: u32)"
    using assms by (auto simp: word_le_nat_alt)
  then have "interrupt_context_depth s = 0 \<or> interrupt_context_depth s = 1" by (simp only: unat_eq_zero word_unat_eq_iff [symmetric])
  then show ?thesis by (auto simp: interrupt_context_exit_def)
qed

definition turn :: "sched \<Rightarrow> nat list \<Rightarrow> bool" where
  \<comment> \<open>the last task of the ring \<open>q\<close> is running, nobody sleeps or waits to be reaped\<close>
  "turn s q \<longleftrightarrow> q \<noteq> [] \<and> sched_ok s q [] \<and> current_running_task s = Some (last q) \<and> scheduler_enabled s \<and>
     interrupt_context_depth s = 0 \<and> (\<forall>i < 32. t_state (tk s i) \<noteq> TASK_STATE_SLEEPING)"

definition slices :: "sched \<Rightarrow> nat \<Rightarrow> nat" where
  "slices s i = max 1 (unat (t_time_slice (tk s i)))"

lemma no_sleepers: "\<forall>i \<in> set is. t_state (tk s i) \<noteq> TASK_STATE_SLEEPING \<Longrightarrow> wake_sleepers now is s = Some s"
  by (induction "is") auto

lemma pending_none: "pending s [] \<Longrightarrow> drain_cleanup k s = Some s"
  by (subst drain_cleanup.simps) (auto simp: pending_def unat_eq_zero)

lemma turn_tick:
  \<comment> \<open>a timer tick while nobody is woken or reaped\<close>
  assumes t: "turn s q"
  defines "p \<equiv> last q" and "s1 \<equiv> charge_tick (last q) (interrupt_context_enter s)"
  shows "scheduler_schedule_from_interrupt now (interrupt_context_enter s) =
      (if t_ticks_remaining (tk s1 p) \<noteq> 0 then Some s1
       else do {
         (next, s) \<leftarrow> scheduler_get_next_task s1;
         case next of None \<Rightarrow> Some (refill_slice p s)
         | Some n \<Rightarrow> if n = p then Some (refill_slice p s) else scheduler_switch_kernel_context p n (switch_counted p n s)
       })"
    and "sched_ok s1 q []" and "current_running_task s1 = Some p" and "scheduler_enabled s1" and "interrupt_context_depth s1 = 1"
    and "t_state (tk s1 i) = t_state (tk s i)" and "t_time_slice (tk s1 i) = t_time_slice (tk s i)"
    and "unat (t_ticks_remaining (tk s1 p)) = unat (t_ticks_remaining (tk s p)) - 1"
proof -
  let ?s = "interrupt_context_enter s"
  have ok: "sched_ok ?s q []" and en: "scheduler_enabled ?s" "current_running_task ?s = Some p" "interrupt_context_depth ?s = 1" "tk ?s = tk s"
    using t by (simp_all add: turn_def interrupt_context_enter_def sched_ok_depth p_def)
  have p: "p < 32" "p < length (tasks ?s)" and ne: "ready_queue_head ?s \<noteq> None"
    using ready_queue_bound [OF sched_okD(3) [OF ok], of p] sched_okD(1) [OF ok] ready_queue_empty [OF sched_okD(3) [OF ok]] t
    by (auto simp: turn_def p_def)
  have "wake_sleepers now (task_get_all ?s) ?s = Some ?s"
    by (rule no_sleepers) (use t en in \<open>auto simp: turn_def task_get_all_def\<close>)
  moreover have "drain_cleanup (unat (cleanup_queue_count ?s)) ?s = Some ?s"
    by (rule pending_none [OF sched_okD(4) [OF ok]])
  moreover have "\<not> all_terminated ?s" using ne by (simp add: all_terminated_def)
  ultimately show "scheduler_schedule_from_interrupt now ?s =
      (if t_ticks_remaining (tk s1 p) \<noteq> 0 then Some s1
       else do {
         (next, s) \<leftarrow> scheduler_get_next_task s1;
         case next of None \<Rightarrow> Some (refill_slice p s)
         | Some n \<Rightarrow> if n = p then Some (refill_slice p s) else scheduler_switch_kernel_context p n (switch_counted p n s)
       })"
    using en unfolding s1_def p_def by (simp add: scheduler_schedule_from_interrupt_def Let_def)
  show "sched_ok s1 q []" using charged(1) [OF ok p(1)] by (simp add: s1_def p_def)
  show "current_running_task s1 = Some p" "scheduler_enabled s1" "interrupt_context_depth s1 = 1"
    using en by (simp_all add: s1_def charged_sel)
  show "t_state (tk s1 i) = t_state (tk s i)" "t_time_slice (tk s1 i) = t_time_slice (tk s i)"
    using p(2) en by (auto simp: s1_def p_def [symmetric] charge_tick_def)
  show "unat (t_ticks_remaining (tk s1 p)) = unat (t_ticks_remaining (tk s p)) - 1"
    using p(2) en unat_u32_dec [of "t_ticks_remaining (tk s p)"] by (auto simp: s1_def p_def [symmetric] charge_tick_def word_gt_0)
qed

lemma tick_counts:
  assumes t: "turn s q" and r: "unat (t_ticks_remaining (tk s (last q))) > 1"
  shows "\<exists>s'. sched_exec (Tick now) (s, False) = Some (s', False) \<and> turn s' q \<and>
    unat (t_ticks_remaining (tk s' (last q))) = unat (t_ticks_remaining (tk s (last q))) - 1 \<and> slices s' = slices s"
proof -
  let ?s1 = "charge_tick (last q) (interrupt_context_enter s)"
  note a = turn_tick [OF t]
  have nz: "t_ticks_remaining (tk ?s1 (last q)) \<noteq> 0" using a(8) r by (auto simp: unat_eq_zero)
  have x: "interrupt_context_exit ?s1 = ?s1\<lparr>interrupt_context_depth := 0\<rparr>" using a(5) by (simp add: interrupt_context_exit_def)
  have "turn (interrupt_context_exit ?s1) q"
    using t a(2-6) unfolding x by (simp add: turn_def sched_ok_depth)
  then show ?thesis
    using a(1) [of now] nz a(7,8) by (simp add: sched_exec_def x slices_def fun_eq_iff)
qed

lemma tick_switches:
  assumes t: "turn s q" and r: "unat (t_ticks_remaining (tk s (last q))) \<le> 1"
  shows "\<exists>s'. sched_exec (Tick now) (s, False) = Some (s', False) \<and> turn s' (rotate1 q) \<and>
    t_ticks_remaining (tk s' (hd q)) = t_time_slice (tk s' (hd q)) \<and> slices s' = slices s"
proof -
  let ?p = "last q"
  define s1 where "s1 = charge_tick ?p (interrupt_context_enter s)"
  note a = turn_tick [OF t, folded s1_def]
  have z: "t_ticks_remaining (tk s1 ?p) = 0" using a(8) r by (simp add: unat_eq_zero [symmetric])
  obtain n r where q: "q = n # r" using t by (cases q) (auto simp: turn_def)
  obtain s2 where s2: "scheduler_get_next_task s1 = Some (Some n, s2)" "sched_ok s2 (r @ [n]) []" "relinked s1 s2"
    using pick_ok [OF a(2) [unfolded q]] by blast
  note rs = relinked_sel [OF s2(3)] relinked_tcb [OF s2(3)]
  have n: "n < 32" "n < length (tasks s2)" and p: "?p < 32" "?p < length (tasks s2)" "?p \<in> set (r @ [n])"
    using ready_queue_bound [OF sched_okD(3) [OF s2(2)]] sched_okD(1) [OF s2(2)] q by (auto split: if_splits)
  have sl: "t_state (tk s2 i) \<noteq> TASK_STATE_SLEEPING" if "i < 32" for i using t that by (simp add: turn_def rs a)
  show ?thesis
  proof (cases "n = ?p")
    case True
    let ?s = "refill_slice n s2"
    have x: "interrupt_context_exit ?s = ?s\<lparr>interrupt_context_depth := 0\<rparr>"
      using a(5) by (simp add: interrupt_context_exit_def charged_sel rs)
    have cur: "current_running_task s2 = Some n" "scheduler_enabled s2" using a(3,4) True by (simp_all add: rs)
    have ok: "sched_ok ?s (rotate1 q) []" using charged(2) [OF s2(2) n(1)] by (simp add: q)
    have "t_state (tk ?s i) = t_state (tk s2 i)" for i using n(2) by (simp add: refill_slice_def)
    then have "turn (interrupt_context_exit ?s) (rotate1 q)"
      unfolding x turn_def using ok cur sl by (simp add: sched_ok_depth charged_sel) (simp add: q)
    moreover have "sched_exec (Tick now) (s, False) = Some (interrupt_context_exit ?s, False)"
      using a(1) [of now] z s2(1) True by (simp add: sched_exec_def)
    moreover have "t_ticks_remaining (tk (interrupt_context_exit ?s) n) = t_time_slice (tk (interrupt_context_exit ?s) n)"
      "slices (interrupt_context_exit ?s) = slices s"
      unfolding x using n(2) a(7) by (auto simp: slices_def refill_slice_def rs fun_eq_iff)
    ultimately show ?thesis by (simp add: q)
  next
    case False
    have cur: "current_running_task s2 = Some ?p" using a(3) by (simp add: rs)
    have act: "active (t_state (tk s2 ?p))" using slot_okD(1) [OF sched_okD(7) [OF s2(2) p(1)]] p(3) by simp
    then have st: "t_state (tk s2 ?p) = TASK_STATE_READY \<or> t_state (tk s2 ?p) = TASK_STATE_RUNNING" by (simp add: active_def)
    let ?s3 = "switch_counted ?p n s2"
    have nin: "n \<in> set (r @ [n])" by simp
    note b = switch_counted_ok [OF s2(2) nin False cur p(1)]
    have len2: "length (tasks s2) = 32" by (rule sched_okD(1) [OF s2(2)])
    note rt = retired [OF p(2)]
    have nr: "n < length (tasks (retire_prev ?p s2))" using n(2) by (simp add: rt)
    note mc = made_current [OF nr]
    have tk3: "t_time_slice (tk ?s3 i) = t_time_slice (tk s2 i)" "t_ticks_remaining (tk ?s3 n) = t_time_slice (tk s2 n)"
      "t_state (tk ?s3 n) = TASK_STATE_RUNNING" "length (tasks ?s3) = 32" for i
      using False len2 by (simp_all add: switch_counted_def Let_def mc rt)
    have sl3: "t_state (tk ?s3 i) \<noteq> TASK_STATE_SLEEPING" if "i < 32" for i
      using sl [OF that] by (simp add: switch_counted_def Let_def mc rt)
    have cnt: "cleanup_queue_count ?s3 = cleanup_queue_count s2"
      using st by (auto simp: switch_counted_def make_current_def retire_prev_def Let_def)
    obtain ys where ys: "sched_ok ?s3 (r @ [n]) ys" using b(1) by blast
    have "ys = []" using sched_okD(4) [OF ys] sched_okD(4) [OF s2(2)] cnt by (simp add: pending_def)
    then have ok3: "sched_ok ?s3 (r @ [n]) []" using ys by simp
    obtain s4 where s4: "scheduler_switch_kernel_context ?p n ?s3 = Some s4" "sched_ok s4 (r @ [n]) []"
      "interrupt_context_depth s4 \<le> 1" "current_running_task s4 = Some n" "scheduler_enabled s4"
      using kernel_switch_ok [OF ok3 n(1) _ p(1)] b(2-4) False a(4,5) tk3(3) by (auto simp: rs)
    have p3: "?p < length (tasks ?s3)" using tk3(4) p(1) by simp
    note sel = kernel_switch_sel [OF s4(1) p3]
    note x = exit_handler [OF s4(3)]
    have "turn (interrupt_context_exit s4) (rotate1 q)"
      unfolding x turn_def using s4 sl3 by (auto simp: q sched_ok_depth sel)
    moreover have "sched_exec (Tick now) (s, False) = Some (interrupt_context_exit s4, False)"
      using a(1) [of now] z s2(1) s4(1) False by (simp add: sched_exec_def)
    moreover have "t_ticks_remaining (tk (interrupt_context_exit s4) n) = t_time_slice (tk (interrupt_context_exit s4) n)"
      "slices (interrupt_context_exit s4) = slices s"
      by (simp_all add: x slices_def sel tk3 rs a(7) fun_eq_iff)
    ultimately show ?thesis by (simp add: q)
  qed
qed

fun run_ticks :: "u32 list \<Rightarrow> sched \<Rightarrow> sched option" where
  \<comment> \<open>timer interrupts at these times, nothing in between\<close>
  "run_ticks [] s = Some s"
| "run_ticks (now # ts) s = Option.bind (sched_exec (Tick now) (s, False)) (\<lambda>(s, _). run_ticks ts s)"

lemma run_ticks_append: "run_ticks (ts @ us) s = Option.bind (run_ticks ts s) (run_ticks us)"
  by (induction ts arbitrary: s) (auto split: bind_splits prod.splits)

lemma slice_runs_out:
  assumes "turn s q" and "length ts = max 1 (unat (t_ticks_remaining (tk s (last q))))"
  shows "\<exists>s'. run_ticks ts s = Some s' \<and> turn s' (rotate1 q) \<and>
    t_ticks_remaining (tk s' (hd q)) = t_time_slice (tk s' (hd q)) \<and> slices s' = slices s"
  using assms
proof (induction ts arbitrary: s)
  case (Cons now ts)
  show ?case
  proof (cases "unat (t_ticks_remaining (tk s (last q))) > 1")
    case True
    obtain s1 where s1: "sched_exec (Tick now) (s, False) = Some (s1, False)" "turn s1 q"
      "unat (t_ticks_remaining (tk s1 (last q))) = unat (t_ticks_remaining (tk s (last q))) - 1" "slices s1 = slices s"
      using tick_counts [OF Cons.prems(1) True] by blast
    then show ?thesis using Cons.IH [OF s1(2)] Cons.prems(2) True by auto
  next
    case False
    then have "ts = []" using Cons.prems(2) by simp
    moreover have "unat (t_ticks_remaining (tk s (last q))) \<le> 1" using False by simp
    ultimately show ?thesis using tick_switches [OF Cons.prems(1), of now] by auto
  qed
qed simp

lemma turn_comes:
  assumes "turn s q" and "i < length q"
    and "length ts = max 1 (unat (t_ticks_remaining (tk s (last q)))) + sum_list (map (slices s) (take i q))"
  shows "\<exists>s'. run_ticks ts s = Some s' \<and> current_running_task s' = Some (q ! i)"
  using assms
proof (induction i arbitrary: s q ts)
  case 0
  obtain s' where s': "run_ticks ts s = Some s'" "turn s' (rotate1 q)"
    using slice_runs_out [OF 0(1), of ts] 0(3) by auto
  moreover have "last (rotate1 q) = q ! 0" using 0(2) by (cases q) auto
  ultimately show ?case by (auto simp: turn_def)
next
  case (Suc i)
  let ?m = "max 1 (unat (t_ticks_remaining (tk s (last q))))"
  obtain n r where q: "q = n # r" using Suc.prems(2) by (cases q) auto
  obtain s1 where s1: "run_ticks (take ?m ts) s = Some s1" "turn s1 (rotate1 q)" "t_ticks_remaining (tk s1 n) = t_time_slice (tk s1 n)"
    "slices s1 = slices s"
    using slice_runs_out [OF Suc.prems(1), of "take ?m ts"] Suc.prems(3) by (auto simp: q)
  have len: "i < length r" using Suc.prems(2) by (simp add: q)
  have "max 1 (unat (t_ticks_remaining (tk s1 (last (rotate1 q))))) = slices s1 n" using s1(3) by (simp add: q slices_def)
  then have "length (drop ?m ts) = max 1 (unat (t_ticks_remaining (tk s1 (last (rotate1 q))))) + sum_list (map (slices s1) (take i (rotate1 q)))"
    using Suc.prems(3) len by (simp add: q s1(4))
  then obtain s' where "run_ticks (drop ?m ts) s1 = Some s'" "current_running_task s' = Some (rotate1 q ! i)"
    using Suc.IH [OF s1(2), of "drop ?m ts"] len by (auto simp: q)
  moreover have "rotate1 q ! i = q ! Suc i" using len by (simp add: q nth_append)
  moreover have "run_ticks ts s = Option.bind (run_ticks (take ?m ts) s) (run_ticks (drop ?m ts))"
    by (simp flip: run_ticks_append)
  ultimately show ?case using s1(1) by simp
qed

section \<open>Who gets starved\<close>

lemma yield_to_head:
  assumes ok: "sched_ok s (n # r) xs" and c: "current_running_task s = Some p" "p < 32" "p \<noteq> n" and en: "scheduler_enabled s"
    and d: "interrupt_context_depth s = 0" and st: "t_state (tk s p) = TASK_STATE_BLOCKED"
  shows "\<exists>s' ys. sched_exec Yield (s, b) = Some (s', False) \<and> sched_ok s' (r @ [n]) ys \<and> current_running_task s' = Some n \<and>
    ready_queue_tail s' = ready_queue_tail s \<and> scheduler_enabled s' \<and> interrupt_context_depth s' = 0 \<and>
    t_state (tk s' p) = TASK_STATE_BLOCKED"
proof -
  let ?s1 = "upd_task p (\<lambda>k. k\<lparr>t_ticks_remaining := 0\<rparr>) s"
  note rq = sched_okD(3) [OF ok]
  have pl: "p < length (tasks s)" using sched_okD(1) [OF ok] c(2) by simp
  have ok1: "sched_ok ?s1 (n # r) xs" by (rule sched_ok_tick [OF ok c(2)]) (simp_all add: same_slot_def)
  obtain s2 where s2: "scheduler_get_next_task ?s1 = Some (Some n, s2)" "sched_ok s2 (r @ [n]) xs" "relinked ?s1 s2"
    "ready_queue_tail s2 = ready_queue_tail s"
    using get_next_head [OF sched_okD(3) [OF ok1] queued_runnable [OF ok1]] sched_ok_relinked [OF ok1] by fastforce
  note rs = relinked_sel [OF s2(3)] relinked_tcb [OF s2(3)]
  have n: "n < 32" "n < length (tasks s2)" and p2: "p < length (tasks s2)"
    using ready_queue_bound [OF sched_okD(3) [OF s2(2)], of n] sched_okD(1) [OF s2(2)] c(2) by auto
  have cur: "current_running_task s2 = Some p" "n \<in> set (r @ [n])" "n \<noteq> p" using c by (auto simp: rs)
  note b = switch_counted_ok [OF s2(2) cur(2,3,1) c(2)]
  note rt = retired [OF p2]
  have nr: "n < length (tasks (retire_prev p s2))" using n(2) by (simp add: rt)
  note mc = made_current [OF nr]
  have stp: "t_state (tk (switch_counted p n s2) p) = TASK_STATE_BLOCKED" "ready_queue_tail (switch_counted p n s2) = ready_queue_tail s"
    "length (tasks (switch_counted p n s2)) = 32"
    using c(3) st s2(4) pl sched_okD(1) [OF s2(2)] by (simp_all add: switch_counted_def Let_def mc rt rs)
  let ?s3 = "upd_task n (\<lambda>k. k\<lparr>t_has_run_before := True\<rparr>) (upd_task p (\<lambda>k. k\<lparr>t_has_run_before := True\<rparr>) (switch_counted p n s2))"
  obtain ys where "sched_ok (switch_counted p n s2) (r @ [n]) ys" using b(1) by blast
  then have ok3: "sched_ok ?s3 (r @ [n]) ys" by (intro has_run_ok n(1) c(2))
  have d3: "interrupt_context_depth ?s3 \<le> 1" "alive (t_state (tk ?s3 n))"
    using b(3) d c(3) slot_okD(1) [OF sched_okD(7) [OF ok3 n(1)]] by (simp_all add: rs active_alive)
  obtain s4 where s4: "scheduler_switch_kernel_context p n ?s3 = Some s4" "sched_ok s4 (r @ [n]) ys"
    "interrupt_context_depth s4 \<le> 1" "current_running_task s4 = Some n" "scheduler_enabled s4"
    using kernel_switch_ok [OF ok3 n(1) d3(2) c(2,3) d3(1)] b(2,4) en by (auto simp: rs)
  have p3: "p < length (tasks ?s3)" using stp(3) c(2) by simp
  note sel = kernel_switch_sel [OF s4(1) p3]
  have "scheduler_yield s = Some s4"
    using ready_queue_head [OF rq] c en pl s2(1) s4(1) stp(1)
    by (simp add: scheduler_yield_def scheduler_schedule_def all_terminated_def charge_tick_def schedule_switch_def Let_def)
  then have "sched_exec Yield (s, b) = Some (s4\<lparr>interrupt_context_depth := 0\<rparr>, False)"
    using exit_handler [OF s4(3)] by (simp add: sched_exec_def)
  then show ?thesis
    using s4(2,4,5) stp n(1) c(2,3)
    by (intro exI [of _ "s4\<lparr>interrupt_context_depth := 0\<rparr>"] exI [of _ ys]) (simp add: sched_ok_depth sel)
qed

definition pingpong :: "sched \<Rightarrow> nat \<Rightarrow> nat \<Rightarrow> nat \<Rightarrow> nat \<Rightarrow> bool" where
  \<comment> \<open>\<open>p\<close> runs, \<open>t\<close> then \<open>x\<close> are next, the tail pointer is at \<open>t\<close>, and \<open>b\<close> is blocked\<close>
  "pingpong s p t x b \<longleftrightarrow> (\<exists>xs. sched_ok s [t, x, p] xs) \<and> current_running_task s = Some p \<and> ready_queue_tail s = Some t \<and>
     b < 32 \<and> t_state (tk s b) = TASK_STATE_BLOCKED \<and> scheduler_enabled s \<and> interrupt_context_depth s = 0"

fun exec_all :: "sched_op list \<Rightarrow> sched \<times> bool \<Rightarrow> (sched \<times> bool) option" where
  "exec_all [] c = Some c"
| "exec_all (op # ops) c = (if allowed op c then Option.bind (sched_exec op c) (exec_all ops) else None)"

fun relay :: "nat \<Rightarrow> nat \<Rightarrow> nat \<Rightarrow> nat \<Rightarrow> sched_op list" where
  \<comment> \<open>\<open>n\<close> rounds: the running task \<open>p\<close> wakes \<open>b\<close>, blocks and yields, then \<open>t\<close> runs and does the same with \<open>p\<close>\<close>
  "relay 0 p t b = []"
| "relay (Suc n) p t b = [Wake b, Block, Yield] @ relay n t b p"

lemma pingpong_wake:
  assumes "pingpong s p t x b"
  shows "\<exists>s' xs. scheduler_wakeup_task (Some b) s = Some s' \<and> sched_ok s' [t, b, x, p] xs \<and> ready_queue_tail s' = Some b \<and>
    current_running_task s' = Some p \<and> scheduler_enabled s' \<and> interrupt_context_depth s' = 0 \<and> b \<notin> {t, x, p}"
proof -
  obtain xs where a: "sched_ok s [t, x, p] xs" "current_running_task s = Some p" "ready_queue_tail s = Some t" "b < 32"
    "t_state (tk s b) = TASK_STATE_BLOCKED" "scheduler_enabled s" "interrupt_context_depth s = 0"
    using assms by (auto simp: pingpong_def)
  note sl = slot_okD [OF sched_okD(7) [OF a(1,4)]]
  have b: "b \<notin> set [t, x, p]" "t_pid (tk s b) \<noteq> 0" "alive (t_state (tk s b))"
    using sl(1,2) a(5) by (auto simp: task_slot_is_live_def)
  obtain s' where s': "scheduler_add_task (Some b) s = Some s'" "ready_queue s' [t, b, x, p]" "relinked (made_ready b s) s'"
    "ready_queue_tail s' = Some b"
    using add_task_after_tail [of s "[]" t "[x, p]" b] sched_okD(1,3) [OF a(1)] a(3,4) b by auto
  obtain q' where q': "sched_ok s' q' xs" "set q' = insert b (set [t, x, p])"
    using add_ok [OF a(1,4) b(3)] s'(1) b(1) by auto
  have "sched_ok s' [t, b, x, p] xs" by (rule sched_ok_relinked [OF q'(1) _ s'(2)]) (use q'(2) in auto)
  then show ?thesis
    using s' a b(1) relinked_sel [OF s'(3)] by (auto simp: scheduler_wakeup_task_def made_ready_def)
qed

lemma pingpong_block:
  assumes ok: "sched_ok s [t, b, x, p] xs" and c: "current_running_task s = Some p" "ready_queue_tail s = Some b"
    and en: "scheduler_enabled s" "interrupt_context_depth s = 0"
  shows "\<exists>s' xs. scheduler_block_task (Some p) s = Some s' \<and> sched_ok s' [t, b, x] xs \<and> ready_queue_tail s' = Some b \<and>
    current_running_task s' = Some p \<and> scheduler_enabled s' \<and> interrupt_context_depth s' = 0 \<and>
    t_state (tk s' p) = TASK_STATE_BLOCKED \<and> p \<noteq> t \<and> p < 32"
proof -
  note rq = sched_okD(3) [OF ok]
  have b: "x < 32" "p < 32" "length (tasks s) = 32" "p \<noteq> x" "p \<noteq> b" "p \<noteq> t" "b \<noteq> t" "x \<noteq> t" "b \<noteq> x"
    using ready_queue_bound [OF rq] sched_okD(1) [OF ok] rq by (auto simp: ready_queue_def ring_def)
  have rm: "scheduler_remove_task_locked (Some p) s = Some (unlink_node p x s)"
    using remove_inner [of s "[t, b]" x p "[]"] rq b by simp
  have q1: "ready_queue (unlink_node p x s) [t, b, x]" using unlink_node_queue [of s "[t, b]" x p "[]"] rq by simp
  have rl: "relinked s (unlink_node p x s)" by (rule unlink_node_relinked) (use b in simp_all)
  note r = relinked_tcb [OF rl] relinked_sel [OF rl]
  have tl: "ready_queue_tail (unlink_node p x s) = Some b" using unlink_node_ends(2) [of x p s] b c by simp
  let ?s = "upd_task p (\<lambda>k. k\<lparr>t_state := TASK_STATE_BLOCKED\<rparr>) (unlink_node p x s)"
  have "sched_ok ?s [t, b, x] xs"
  proof (rule sched_ok_change [OF ok, of ?s p])
    show "ready_queue ?s [t, b, x]" by (rule ready_queue_same [OF q1]) (use b in \<open>auto simp: r\<close>)
    show "pending ?s xs" using sched_okD(4) [OF ok] by (simp add: pending_def r)
    show "slot_ok ?s (set [t, b, x]) xs p"
      using sched_okD(7) [OF ok b(2)] b active_alive by (auto simp: slot_ok_def task_slot_is_live_def stack_ok_def r)
  qed (use b in \<open>auto simp: r same_slot_def\<close>)
  moreover have "scheduler_block_task (Some p) s = Some ?s" using rm en by (simp add: scheduler_block_task_def)
  ultimately show ?thesis
    using tl c en b by (intro exI [of _ ?s] exI [of _ xs]) (simp add: r)
qed

lemma queued_waits:
  assumes "sched_ok s q xs" and "x \<in> set q" and "current_running_task s = Some c" and "c \<noteq> x"
  shows "current_running_task s \<noteq> Some x \<and> t_state (tk s x) = TASK_STATE_READY"
proof -
  have "x < 32" using ready_queue_bound [OF sched_okD(3) [OF assms(1)] assms(2)] sched_okD(1) [OF assms(1)] by simp
  then show ?thesis using slot_okD(1,4) [OF sched_okD(7) [OF assms(1)]] assms(2-4) by (fastforce simp: active_def)
qed

lemma pingpong_waits: "pingpong s p t x b \<Longrightarrow> current_running_task s \<noteq> Some x \<and> t_state (tk s x) = TASK_STATE_READY"
  unfolding pingpong_def using queued_waits [of s "[t, x, p]" _ x p] by (auto simp: sched_ok_def ready_queue_def ring_def)

lemma pingpong_round:
  assumes pp: "pingpong s p t x b"
  shows "\<exists>s'. exec_all [Wake b, Block, Yield] (s, False) = Some (s', False) \<and> pingpong s' t b x p \<and>
    (\<forall>k \<le> 3. \<exists>s' b'. exec_all (take k [Wake b, Block, Yield]) (s, False) = Some (s', b') \<and>
       current_running_task s' \<noteq> Some x \<and> t_state (tk s' x) = TASK_STATE_READY)"
proof -
  obtain s1 xs where s1: "scheduler_wakeup_task (Some b) s = Some s1" "sched_ok s1 [t, b, x, p] xs" "ready_queue_tail s1 = Some b"
    "current_running_task s1 = Some p" "scheduler_enabled s1" "interrupt_context_depth s1 = 0"
    using pingpong_wake [OF pp] by blast
  obtain s2 ys where s2: "scheduler_block_task (Some p) s1 = Some s2" "sched_ok s2 (t # [b, x]) ys" "ready_queue_tail s2 = Some b"
    "current_running_task s2 = Some p" "scheduler_enabled s2" "interrupt_context_depth s2 = 0"
    "t_state (tk s2 p) = TASK_STATE_BLOCKED" "p \<noteq> t" "p < 32"
    using pingpong_block [OF s1(2,4,3,5,6)] by blast
  obtain s3 zs where s3: "sched_exec Yield (s2, True) = Some (s3, False)" "sched_ok s3 ([b, x] @ [t]) zs"
    "current_running_task s3 = Some t" "ready_queue_tail s3 = ready_queue_tail s2" "scheduler_enabled s3"
    "interrupt_context_depth s3 = 0" "t_state (tk s3 p) = TASK_STATE_BLOCKED"
    using yield_to_head [OF s2(2,4,9,8,5-7)] by blast
  have bx: "b < 32" "b \<noteq> p" using ready_queue_bound [OF sched_okD(3) [OF s1(2)], of b] sched_okD(1,3) [OF s1(2)]
    by (auto simp: ready_queue_def ring_def)
  have "active (t_state (tk s1 b))" using slot_okD(1) [OF sched_okD(7) [OF s1(2) bx(1)]] by simp
  moreover have "t_state (tk s1 b) \<noteq> TASK_STATE_RUNNING" using slot_okD(4) [OF sched_okD(7) [OF s1(2) bx(1)]] s1(4) bx(2) by auto
  ultimately have "others_ready s1" using s1(4) bx by (auto simp: others_ready_def list_ex_iff active_def)
  then have e: "exec_all [Wake b, Block, Yield] (s, False) = Some (s3, False)" "exec_all [Wake b, Block] (s, False) = Some (s2, True)"
    "exec_all [Wake b] (s, False) = Some (s1, False)"
    using s1(1,4) s2(1) s3(1) pp by (auto simp: allowed_def sched_exec_def pingpong_def)
  have pp3: "pingpong s3 t b x p" using s3 s2(3,9) by (auto simp: pingpong_def)
  have px: "p \<noteq> x" using sched_okD(3) [OF s1(2)] by (simp add: ready_queue_def ring_def)
  note w = pingpong_waits [OF pp] queued_waits [OF s1(2) _ s1(4) px] queued_waits [OF s2(2) _ s2(4) px] pingpong_waits [OF pp3]
  have "\<exists>s' b'. exec_all (take k [Wake b, Block, Yield]) (s, False) = Some (s', b') \<and>
       current_running_task s' \<noteq> Some x \<and> t_state (tk s' x) = TASK_STATE_READY" if k: "k \<le> 3" for k
  proof -
    consider "k = 0" | "k = 1" | "k = 2" | "k = 3" using k by linarith
    then show ?thesis using e w by cases (auto simp del: exec_all.simps(2))
  qed
  then show ?thesis using e(1) pp3 by blast
qed

section \<open>Properties\<close>

text \<open>Tasks for the witnesses: kernel tasks with a time slice of five ticks.\<close>

definition ktask :: "u32 \<Rightarrow> tcb" where
  "ktask pid = zero_tcb\<lparr>t_pid := pid, t_is_kernel_task := True, t_time_slice := 5\<rparr>"

definition boot4 :: "tcb list" where
  "boot4 = [ktask 101, ktask 102, ktask 103, ktask 104]"

lemma boot4_startable [simp]: "boot4 \<noteq> []" "\<forall>k \<in> set boot4. startable k"
  by (simp_all add: boot4_def startable_def ktask_def zero_tcb_def stack_ok_def)

definition snapshot :: "sched \<Rightarrow> task_ptr \<times> task_ptr \<times> task_ptr \<times> task_ptr list \<times> nat list \<times> nat list" where
  "snapshot s = (ready_queue_head s, ready_queue_tail s, current_running_task s, map (\<lambda>i. t_next (tk s i)) [0, 1, 2, 3],
     filter (\<lambda>i. active (t_state (tk s i))) [0..<32], filter (\<lambda>i. t_state (tk s i) = TASK_STATE_BLOCKED) [0..<32])"

lemma boot4_snapshot:
  "map_option snapshot (sched_boot boot4) = Some (Some 1, Some 3, Some 0, [Some 1, Some 2, Some 3, Some 0], [0, 1, 2, 3], [])"
  by code_simp

lemma boot4_clock:
  "map_option (\<lambda>s. (list_all (\<lambda>j. t_state (tk s j) \<noteq> TASK_STATE_SLEEPING) [0..<32], cleanup_queue_count s = 0,
     map (\<lambda>i. (t_ticks_remaining (tk s i), t_time_slice (tk s i))) [0, 1, 2, 3])) (sched_boot boot4) =
     Some (True, True, [(5, 5), (5, 5), (5, 5), (5, 5)])"
  by code_simp

lemma blocked4_snapshot:
  "map_option (\<lambda>(s, b). (snapshot s, b)) (Option.bind (sched_boot boot4) (\<lambda>s. exec_all [Block, Yield, Yield] (s, False))) =
     Some ((Some 3, Some 3, Some 2, [None, Some 2, Some 3, Some 1], [1, 2, 3], [0]), False)"
  by code_simp

lemma snapshotD:
  assumes "snapshot s = (h, te, c, [n0, n1, n2, n3], act, blk)"
  shows "ready_queue_head s = h" "ready_queue_tail s = te" "current_running_task s = c" "t_next (tk s 0) = n0" "t_next (tk s 1) = n1"
    "t_next (tk s 2) = n2" "t_next (tk s 3) = n3" "i \<in> set act \<longleftrightarrow> i < 32 \<and> active (t_state (tk s i))"
    "i \<in> set blk \<longleftrightarrow> i < 32 \<and> t_state (tk s i) = TASK_STATE_BLOCKED"
  using assms unfolding snapshot_def by auto

lemma snapshot_queue:
  assumes inv: "sched_inv b s" and snap: "snapshot s = (Some h, Some te, c, [n0, n1, n2, n3], act, blk)"
    and q: "ring (\<lambda>i. t_next (tk s i)) (h # r)" "te \<in> set (h # r)" "set (h # r) = set act"
  shows "\<exists>xs. sched_ok s (h # r) xs"
proof -
  note sn = snapshotD [OF snap]
  obtain q' xs where ok: "sched_ok s q' xs" using inv by (blast elim: sched_invE)
  have sub: "set (h # r) \<subseteq> {..<32}" using q(3) sn(8) by auto
  then have rq: "ready_queue s (h # r)"
    using q(1,2) sn(1,2) sched_okD(1) [OF ok] by (simp add: ready_queue_def)
  have "i \<in> set (h # r) \<longleftrightarrow> i \<in> set q'" for i
    unfolding q(3) using slot_okD(1) [OF sched_okD(7) [OF ok, of i]] sn(8) [of i] ready_queue_bound [OF sched_okD(3) [OF ok], of i] sched_okD(1) [OF ok]
    by auto
  then have "set (h # r) = set q'" by blast
  then show ?thesis using sched_ok_relinked [OF ok relinked_refl rq] by blast
qed

lemma exec_all_reach: "exec_all ops c = Some c' \<Longrightarrow> sched_reach start c \<Longrightarrow> sched_reach start c'"
  by (induction ops arbitrary: c) (auto simp: bind_eq_Some_conv split: if_splits intro: sched_step)

lemma exec_all_append: "exec_all (xs @ ys) c = Option.bind (exec_all xs c) (exec_all ys)"
  by (induction xs arbitrary: c) (auto split: bind_splits)

text \<open>
  C2: The scheduler never gets stuck. After a boot with at least one well-formed task, in
  every state that timer ticks, yields, blocking, sleeping, exits, faults, wake-ups, kills, task
  creations and priority changes can reach, every operation that the kernel may call there returns:
  no panic of the queue checks, of the task-state-segment checks or of an empty queue, and no NULL
  pointer. Afterwards the circular ready queue is again a ring without repetition that holds exactly
  the slots in state READY or RUNNING, all of them live; only the current task is RUNNING; and
  no free slot is queued. (A kill is allowed only on a task that the queue can unlink, see
  below for the others; a task may only leave the processor while another one is READY.)
\<close>

theorem sched_history_safe:
  assumes "ks \<noteq> []" and "\<forall>k \<in> set ks. startable k"
  shows "\<exists>s0. sched_boot ks = Some s0 \<and> (\<forall>s b op. sched_reach (s0, False) (s, b) \<longrightarrow> allowed op (s, b) \<longrightarrow>
    (\<exists>s' b' q. sched_exec op (s, b) = Some (s', b') \<and> ready_queue s' q \<and> distinct q \<and> q \<noteq> [] \<and>
       (\<forall>i < 32. (i \<in> set q \<longleftrightarrow> t_state (tk s' i) = TASK_STATE_READY \<or> t_state (tk s' i) = TASK_STATE_RUNNING) \<and>
          (i \<in> set q \<longrightarrow> task_slot_is_live s' i \<and> \<not> bit (free_slot_bitmap s') i) \<and>
          (t_state (tk s' i) = TASK_STATE_RUNNING \<longrightarrow> current_running_task s' = Some i)) \<and>
       (b' \<or> (\<exists>c \<in> set q. current_running_task s' = Some c))))"
proof -
  obtain s0 where s0: "sched_boot ks = Some s0" "sched_inv False s0" using boot_ok [OF assms] by (auto simp: wp_iff)
  have "\<exists>s' b' q. sched_exec op (s, b) = Some (s', b') \<and> ready_queue s' q \<and> distinct q \<and> q \<noteq> [] \<and>
       (\<forall>i < 32. (i \<in> set q \<longleftrightarrow> t_state (tk s' i) = TASK_STATE_READY \<or> t_state (tk s' i) = TASK_STATE_RUNNING) \<and>
          (i \<in> set q \<longrightarrow> task_slot_is_live s' i \<and> \<not> bit (free_slot_bitmap s') i) \<and>
          (t_state (tk s' i) = TASK_STATE_RUNNING \<longrightarrow> current_running_task s' = Some i)) \<and>
       (b' \<or> (\<exists>c \<in> set q. current_running_task s' = Some c))"
    if r: "sched_reach (s0, False) (s, b)" and al: "allowed op (s, b)" for s b op
  proof -
    obtain s' b' where e: "sched_exec op (s, b) = Some (s', b')" "sched_inv b' s'"
      using exec_ok [OF reach_inv [OF r s0(2)] al] by (auto simp: wp_iff)
    then obtain q xs c where q: "sched_ok s' q xs" "q \<noteq> []" "current_running_task s' = Some c" "\<not> b' \<Longrightarrow> c \<in> set q"
      by (blast elim: sched_invE)
    note sl = slot_okD [OF sched_okD(7) [OF q(1)]]
    have "task_slot_is_live s' i \<and> \<not> bit (free_slot_bitmap s') i" if "i < 32" "i \<in> set q" for i
      using sl(1,2,8) [OF that(1)] that(2) active_alive by auto
    then show ?thesis
      using e(1) q sl(1,4) sched_okD(3) [OF q(1)]
      by (intro exI [of _ s'] exI [of _ b'] exI [of _ q]) (auto simp: active_def ready_queue_def ring_def)
  qed
  then show ?thesis using s0(1) by blast
qed

theorem sched_history_safe_witness:
  "\<exists>s0 s' b'. sched_boot boot4 = Some s0 \<and> sched_exec (Tick 7) (s0, False) = Some (s', b') \<and>
     (\<exists>q. ready_queue s' q \<and> q \<noteq> [])"
proof -
  obtain s0 where s0: "sched_boot boot4 = Some s0" "allowed (Tick 7) (s0, False) \<longrightarrow>
    (\<exists>s' b' q. sched_exec (Tick 7) (s0, False) = Some (s', b') \<and> ready_queue s' q \<and> q \<noteq> [])"
    using sched_history_safe [OF boot4_startable] sched_start by blast
  then show ?thesis by (auto simp: allowed_def)
qed

text \<open>
  C9: Preemptive round robin. While nobody is woken, created or reaped, the timer alone
  hands the processor around: if the running task is the last of the ready ring \<open>q\<close>, the task at
  position \<open>i\<close> of the ring becomes the current one after exactly as many timer ticks as the rest of
  the running task's slice and the slices of the tasks before it in the ring (a slice of 0
  counts as one tick), whatever the tick counter shows. So every ready task runs within the
  sum of the slices of the others.
\<close>

theorem round_robin_turn:
  assumes "sched_inv False s" and "ready_queue s q" and "current_running_task s = Some (last q)" and "i < length q"
    and "\<forall>j < 32. t_state (tk s j) \<noteq> TASK_STATE_SLEEPING" and "cleanup_queue_count s = 0"
    and "length ts = max 1 (unat (t_ticks_remaining (tk s (last q)))) + sum_list (map (\<lambda>j. max 1 (unat (t_time_slice (tk s j)))) (take i q))"
  shows "\<exists>s'. run_ticks ts s = Some s' \<and> current_running_task s' = Some (q ! i)"
proof -
  obtain q' xs where inv: "sched_ok s q' xs" "scheduler_enabled s" "interrupt_context_depth s = 0" "current_running_task s = Some (last q)"
    using assms(1,3) by (blast elim: sched_invE)
  have "xs = []" using sched_okD(4) [OF inv(1)] assms(6) by (simp add: pending_def)
  moreover have "q' = q" by (rule ready_queue_unique [OF sched_okD(3) [OF inv(1)] assms(2)])
  ultimately have "turn s q" using inv assms(4,5) by (auto simp: turn_def)
  moreover have "slices s = (\<lambda>j. max 1 (unat (t_time_slice (tk s j))))" by (simp add: slices_def fun_eq_iff)
  ultimately show ?thesis using turn_comes [of s q i ts] assms(4,7) by simp
qed

lemma boot4_state:
  obtains s where "sched_boot boot4 = Some s" "sched_inv False s" "ready_queue s [1, 2, 3, 0]" "ready_queue_tail s = Some 3"
    "current_running_task s = Some 0" "\<forall>j < 32. t_state (tk s j) \<noteq> TASK_STATE_SLEEPING" "cleanup_queue_count s = 0"
    "map (\<lambda>i. (t_ticks_remaining (tk s i), t_time_slice (tk s i))) [0, 1, 2, 3] = [(5, 5), (5, 5), (5, 5), (5, 5)]"
proof -
  obtain s where s: "sched_boot boot4 = Some s" "sched_inv False s" using boot_ok [OF boot4_startable] by (auto simp: wp_iff)
  have snap: "snapshot s = (Some 1, Some 3, Some 0, [Some 1, Some 2, Some 3, Some 0], [0, 1, 2, 3], [])"
    using boot4_snapshot s(1) by simp
  note sn = snapshotD [OF snap]
  have "\<exists>xs. sched_ok s [1, 2, 3, 0] xs"
    by (rule snapshot_queue [OF s(2) snap]) (use sn(4-7) in \<open>auto simp: ring_def\<close>)
  then have "ready_queue s [1, 2, 3, 0]" using sched_okD(3) by blast
  moreover have "list_all (\<lambda>j. t_state (tk s j) \<noteq> TASK_STATE_SLEEPING) [0..<32]" "cleanup_queue_count s = 0"
    "map (\<lambda>i. (t_ticks_remaining (tk s i), t_time_slice (tk s i))) [0, 1, 2, 3] = [(5, 5), (5, 5), (5, 5), (5, 5)]"
    using boot4_clock s(1) by simp_all
  ultimately show ?thesis using that [of s] s sn(2,3) by (simp add: list_all_iff)
qed

theorem round_robin_turn_witness:
  "\<exists>s s'. sched_boot boot4 = Some s \<and> run_ticks (replicate 15 0) s = Some s' \<and> current_running_task s' = Some 3"
proof -
  obtain s where s: "sched_boot boot4 = Some s" "sched_inv False s" "ready_queue s [1, 2, 3, 0]" "current_running_task s = Some 0"
    "\<forall>j < 32. t_state (tk s j) \<noteq> TASK_STATE_SLEEPING" "cleanup_queue_count s = 0"
    "map (\<lambda>i. (t_ticks_remaining (tk s i), t_time_slice (tk s i))) [0, 1, 2, 3] = [(5, 5), (5, 5), (5, 5), (5, 5)]"
    by (rule boot4_state)
  have "\<exists>s'. run_ticks (replicate 15 0) s = Some s' \<and> current_running_task s' = Some ([1, 2, 3, 0] ! 2)"
    by (rule round_robin_turn [OF s(2,3)]) (use s(4-7) in simp_all)
  then show ?thesis using s(1) by auto
qed

text \<open>
  C34: Killing the task that is next in line drops tasks. \<^verbatim>\<open>scheduler_get_next_task\<close> moves the
  head of the ring on but not the tail, while \<^verbatim>\<open>scheduler_remove_task_locked\<close> takes the tail for
  the predecessor of the head. When a task that is not running and is at the head is
  terminated, the ring is closed at the tail pointer: the tasks behind it, among them the one
  that is running, keep their state READY or RUNNING but are in the queue no more, and nothing
  reports it.
\<close>

theorem kill_next_loses_tasks:
  assumes "sched_inv False s" and "ready_queue s (h # ys @ te # zs)" and "ready_queue_tail s = Some te"
    and "current_running_task s \<noteq> Some h"
  shows "\<exists>s'. terminate_other h s = Some s' \<and> ready_queue s' (ys @ [te]) \<and> current_running_task s' = current_running_task s \<and>
    (\<forall>z \<in> set zs. z \<notin> set (ys @ [te]) \<and> t_state (tk s' z) = t_state (tk s z) \<and>
       (t_state (tk s' z) = TASK_STATE_READY \<or> t_state (tk s' z) = TASK_STATE_RUNNING))"
proof -
  let ?q = "h # ys @ te # zs"
  let ?f = "\<lambda>k. k\<lparr>t_state := TASK_STATE_TERMINATED, t_pid := 0\<rparr>"
  obtain q' xs where "sched_ok s q' xs" using assms(1) by (blast elim: sched_invE)
  then have ok: "sched_ok s ?q xs" using ready_queue_unique [OF sched_okD(3) assms(2)] by blast
  have len: "h < length (tasks s)" and dist: "distinct ?q" using assms(2) by (auto simp: ready_queue_def ring_def)
  define s1 where "s1 = upd_task h ?f (scheduler_fpu_release (Some h) s)"
  have fpu: "tk (scheduler_fpu_release (Some h) s) = tk s" "length (tasks (scheduler_fpu_release (Some h) s)) = length (tasks s)"
    by (simp_all add: scheduler_fpu_release_def)
  have q1: "ready_queue s1 ?q"
    by (rule ready_queue_same [OF assms(2)]) (use len in \<open>auto simp: s1_def fpu scheduler_fpu_release_def\<close>)
  have sel: "ready_queue_tail s1 = Some te" "ready_queue_head s1 = Some h" "current_running_task s1 = current_running_task s"
    using assms(3) ready_queue_head [OF q1] by (simp_all add: s1_def scheduler_fpu_release_def)
  have rm: "scheduler_remove_task_locked (Some h) s1 = Some (unlink_node h te s1)" by (rule remove_head [OF q1 _ sel(1)]) simp
  note r = remove_head_queue [OF q1 sel(1)]
  note rs = relinked_tcb [OF r(2)] relinked_sel [OF r(2)]
  have "terminate_other h s = Some (task_free_slot_for_task h (unlink_node h te s1))"
    unfolding terminate_other_def Let_def s1_def [symmetric] using rm sel(2) by (simp add: scheduler_remove_task_def)
  moreover have "ready_queue (task_free_slot_for_task h (unlink_node h te s1)) (ys @ [te])"
    using r(1) by (simp add: ready_queue_def task_free_slot_for_task_def)
  moreover have "t_state (tk s1 z) = t_state (tk s z) \<and> active (t_state (tk s z)) \<and> z \<notin> set (ys @ [te])" if "z \<in> set zs" for z
    using that dist len slot_okD(1) [OF sched_okD(7) [OF ok, of z]] ready_queue_bound [OF assms(2), of z] sched_okD(1) [OF ok]
    by (auto simp: s1_def fpu)
  ultimately show ?thesis by (auto simp: task_free_slot_for_task_def rs sel active_def)
qed

theorem kill_next_loses_tasks_witness:
  "\<exists>s s'. sched_boot boot4 = Some s \<and> terminate_other 1 s = Some s' \<and> ready_queue s' [2, 3] \<and>
     current_running_task s' = Some 0 \<and> (t_state (tk s' 0) = TASK_STATE_READY \<or> t_state (tk s' 0) = TASK_STATE_RUNNING)"
proof -
  obtain s where s: "sched_boot boot4 = Some s" "sched_inv False s" "ready_queue s (1 # [2] @ 3 # [0])" "ready_queue_tail s = Some 3"
    "current_running_task s = Some 0"
    by (rule boot4_state) simp
  then show ?thesis using kill_next_loses_tasks [OF s(2,3,4)] by auto
qed

text \<open>
  C35: The round robin can starve a ready task. Woken tasks are linked in behind the tail pointer, which
  after a rotation stands in the middle of the ring, so they overtake the tasks behind it. Let \<open>p\<close> run, let
  \<open>t\<close> and then \<open>x\<close> be next, the tail pointer be at \<open>t\<close> and \<open>b\<close> be blocked, and let each task that runs wake the blocked
  one of \<open>p\<close>, \<open>t\<close> and \<open>b\<close>, block and yield. However many rounds they do, \<open>x\<close> stays ready and never
  runs, at no point in between either, while each round hands the processor to the next of \<open>t\<close>, \<open>b\<close> and \<open>p\<close> in
  turn and restores the situation: \<open>x\<close> is again behind the next task to run. A queue that appended
  woken tasks at its end would give \<open>x\<close> the processor in the second round.
\<close>

theorem waker_chain_starves:
  assumes "pingpong s p t x b"
  shows "(\<exists>s'. exec_all (relay n p t b) (s, False) = Some (s', False) \<and> pingpong s' ([p, t, b] ! (n mod 3)) ([t, b, p] ! (n mod 3)) x ([b, p, t] ! (n mod 3))) \<and>
    (\<forall>k \<le> 3 * n. \<exists>s' b'. exec_all (take k (relay n p t b)) (s, False) = Some (s', b') \<and>
      current_running_task s' \<noteq> Some x \<and> t_state (tk s' x) = TASK_STATE_READY)"
  using assms
proof (induction n arbitrary: s p t b)
  case 0
  then show ?case using pingpong_waits by fastforce
next
  case (Suc n)
  let ?r = "[Wake b, Block, Yield]" and ?ops = "relay n t b p"
  obtain s1 where s1: "exec_all ?r (s, False) = Some (s1, False)" "pingpong s1 t b x p"
    and pre: "\<forall>k \<le> 3. \<exists>s' b'. exec_all (take k ?r) (s, False) = Some (s', b') \<and> current_running_task s' \<noteq> Some x \<and>
      t_state (tk s' x) = TASK_STATE_READY"
    using pingpong_round [OF Suc.prems] by blast
  note ih = Suc.IH [OF s1(2)]
  have all: "exec_all (?r @ us) (s, False) = exec_all us (s1, False)" for us
    using s1(1) by (simp only: exec_all_append bind.bind_lunit)
  have turn: "[u, v, w] ! (Suc n mod 3) = [v, w, u] ! (n mod 3)" for u v w :: nat
  proof -
    consider "n mod 3 = 0" | "n mod 3 = 1" | "n mod 3 = 2" using mod_less_divisor [of 3 n] by linarith
    then show ?thesis by cases (simp_all add: mod_Suc)
  qed
  have "\<exists>s' b'. exec_all (take k (?r @ ?ops)) (s, False) = Some (s', b') \<and> current_running_task s' \<noteq> Some x \<and>
      t_state (tk s' x) = TASK_STATE_READY" if k: "k \<le> 3 * Suc n" for k
  proof (cases "k \<le> 3")
    case True
    then have "take k (?r @ ?ops) = take k ?r" by (simp del: append_Cons)
    then show ?thesis using pre True by (simp only:)
  next
    case False
    then have "take k (?r @ ?ops) = ?r @ take (k - 3) ?ops" by (simp del: append_Cons add: numeral_3_eq_3)
    then show ?thesis using ih k False all by (simp del: append_Cons)
  qed
  moreover have "relay (Suc n) p t b = ?r @ ?ops" by simp
  ultimately show ?case using ih by (simp only: all turn) blast
qed

theorem waker_chain_starves_witness:
  "\<exists>s0 s. sched_boot boot4 = Some s0 \<and> sched_reach (s0, False) (s, False) \<and>
     (\<exists>s'. exec_all (relay 100 2 3 0) (s, False) = Some (s', False) \<and> current_running_task s' = Some 3) \<and>
     (\<forall>k \<le> 300. \<exists>s' b'. exec_all (take k (relay 100 2 3 0)) (s, False) = Some (s', b') \<and>
        current_running_task s' \<noteq> Some 1 \<and> t_state (tk s' 1) = TASK_STATE_READY)"
proof -
  obtain s0 where s0: "sched_boot boot4 = Some s0" "sched_inv False s0" using boot_ok [OF boot4_startable] by (auto simp: wp_iff)
  obtain s where s: "exec_all [Block, Yield, Yield] (s0, False) = Some (s, False)"
    and snap: "snapshot s = (Some 3, Some 3, Some 2, [None, Some 2, Some 3, Some 1], [1, 2, 3], [0])"
    using blocked4_snapshot s0(1) by auto
  have r: "sched_reach (s0, False) (s, False)" by (rule exec_all_reach [OF s sched_start])
  have inv: "sched_inv False s" by (rule reach_inv [OF r s0(2)])
  note sn = snapshotD [OF snap]
  have "\<exists>xs. sched_ok s [3, 1, 2] xs"
    by (rule snapshot_queue [OF inv snap]) (use sn(4-7) in \<open>auto simp: ring_def\<close>)
  moreover have "scheduler_enabled s" "interrupt_context_depth s = 0" using inv by (blast elim: sched_invE)+
  ultimately have "pingpong s 2 3 1 0" using sn(2,3) sn(9) [of 0] by (simp add: pingpong_def)
  from waker_chain_starves [OF this, of 100]
  have "\<exists>s'. exec_all (relay 100 2 3 0) (s, False) = Some (s', False) \<and> current_running_task s' = Some 3"
    "\<forall>k \<le> 300. \<exists>s' b'. exec_all (take k (relay 100 2 3 0)) (s, False) = Some (s', b') \<and>
        current_running_task s' \<noteq> Some 1 \<and> t_state (tk s' 1) = TASK_STATE_READY"
    by (auto simp: pingpong_def)
  then show ?thesis using s0(1) r by blast
qed

end
