(* ===== verification/Array_Queue.thy ===== *)
theory Array_Queue
  imports Prelude
begin

text \<open>
  Arrays used as queues: the mutexes and the wait queues keep their waiters in the first
  \<open>n\<close> cells of an array and shift the rest down when one leaves.
\<close>

fun shift_from :: "nat \<Rightarrow> nat \<Rightarrow> 'a list \<Rightarrow> 'a list" where
  \<comment> \<open>\<open>k\<close> assignments \<^verbatim>\<open>a[i] = a[i + 1]\<close> from \<open>i\<close> on\<close>
  "shift_from i 0 xs = xs"
| "shift_from i (Suc k) xs = shift_from (Suc i) k (xs[i := xs ! Suc i])"

lemma shift_from_length [simp]: "length (shift_from i k xs) = length xs"
  by (induction i k xs rule: shift_from.induct) auto

lemma shift_from_nth:
  "i + k < length xs \<Longrightarrow> j < length xs \<Longrightarrow> shift_from i k xs ! j = (if i \<le> j \<and> j < i + k then xs ! Suc j else xs ! j)"
proof (induction i k xs rule: shift_from.induct)
  case (2 i k xs)
  then show ?case by (cases "j = i") (auto simp: nth_list_update)
qed auto

lemma take_shift:
  assumes "i < n" and "n \<le> length xs"
  shows "take (n - 1) (shift_from i (n - 1 - i) xs) = take i xs @ drop (Suc i) (take n xs)"
proof (rule nth_equalityI)
  show "length (take (n - 1) (shift_from i (n - 1 - i) xs)) = length (take i xs @ drop (Suc i) (take n xs))" using assms by simp
  fix j assume j: "j < length (take (n - 1) (shift_from i (n - 1 - i) xs))"
  then have "j < n - 1" "j < length xs" by auto
  then show "take (n - 1) (shift_from i (n - 1 - i) xs) ! j = (take i xs @ drop (Suc i) (take n xs)) ! j"
    using assms shift_from_nth [of i "n - 1 - i" xs j] by (auto simp: nth_append min_def)
qed

lemma take_push: "n < length xs \<Longrightarrow> take (Suc n) (xs[n := x]) = take n xs @ [x]"
  by (simp add: take_Suc_conv_app_nth)

section \<open>The interface\<close>

text \<open>
  A bounded first-in first-out queue: what \<open>push\<close>, \<open>front\<close> and \<open>pop\<close> do to the list of items.
  The waiters of a mutex, the tasks of a wait queue and the ring buffer of tasks to be reaped
  are instances.
\<close>

locale fifo_queue =
  fixes ok :: "'q \<Rightarrow> bool" and items :: "'q \<Rightarrow> 'a list" and cap :: nat
    and push :: "'a \<Rightarrow> 'q \<Rightarrow> 'q" and front :: "'q \<Rightarrow> 'a" and pop :: "'q \<Rightarrow> 'q"
  assumes push_ok: "ok q \<Longrightarrow> length (items q) < cap \<Longrightarrow> ok (push x q)"
    and push_items: "ok q \<Longrightarrow> length (items q) < cap \<Longrightarrow> items (push x q) = items q @ [x]"
    and pop_ok: "ok q \<Longrightarrow> items q \<noteq> [] \<Longrightarrow> ok (pop q)"
    and front_items: "ok q \<Longrightarrow> items q \<noteq> [] \<Longrightarrow> items q = front q # items (pop q)"
begin

lemma pops:
  assumes "ok q" and "n \<le> length (items q)"
  shows "ok ((pop ^^ n) q) \<and> items ((pop ^^ n) q) = drop n (items q)"
  using assms
proof (induction n)
  case (Suc n)
  then have i: "ok ((pop ^^ n) q)" "items ((pop ^^ n) q) = drop n (items q)" by auto
  then have "items ((pop ^^ n) q) \<noteq> []" using Suc.prems by simp
  then show ?case
    using pop_ok [OF i(1)] front_items [OF i(1)] i(2) by (simp add: drop_Suc flip: drop_tl) (metis list.sel(3) drop_tl tl_drop)
qed simp

lemma nth_front:
  \<comment> \<open>the item at position \<open>n\<close> is the front after \<open>n\<close> removals\<close>
  assumes "ok q" and "n < length (items q)"
  shows "front ((pop ^^ n) q) = items q ! n"
proof -
  have "ok ((pop ^^ n) q)" "items ((pop ^^ n) q) = drop n (items q)" using pops [of q n] assms by auto
  moreover from this have "items ((pop ^^ n) q) \<noteq> []" using assms(2) by simp
  ultimately show ?thesis using front_items [of "(pop ^^ n) q"] assms(2) by (metis Cons_nth_drop_Suc list.sel(1))
qed

lemma pushed_last:
  assumes "ok q" and "length (items q) < cap"
  shows "front ((pop ^^ length (items q)) (push x q)) = x"
  using nth_front [OF push_ok [OF assms], of "length (items q)" x] push_items [OF assms] by (simp add: nth_append)

end

end
