(* ===== verification/Sched_Frame.thy ===== *)
theory Sched_Frame
  imports Sched_Hist Array_Queue
begin

text \<open>
  What the scheduler leaves alone: no operation but a wake-up unblocks a blocked task, none but a
  kill ends it, and the identity (PID and generation) of a living task never changes. The wait
  queues and the mutexes rely on these facts.
\<close>

section \<open>Calm slots\<close>

definition ident :: "tcb \<Rightarrow> u32 \<times> u32" where
  "ident k = (t_pid k, t_generation k)"

definition calm1 :: "tcb \<Rightarrow> tcb \<Rightarrow> bool" where
  \<comment> \<open>living tasks keep their identity and whether they are blocked, dead ones stay dead\<close>
  "calm1 k k' \<longleftrightarrow>
     (if alive (t_state k)
      then alive (t_state k') \<and> ident k' = ident k \<and> t_blocked_on_wq k' = t_blocked_on_wq k \<and>
        (t_state k' = TASK_STATE_BLOCKED \<longleftrightarrow> t_state k = TASK_STATE_BLOCKED)
      else t_state k' = TASK_STATE_TERMINATED \<or> t_state k' = t_state k \<and> ident k' = ident k)"

definition calm :: "nat set \<Rightarrow> sched \<Rightarrow> sched \<Rightarrow> bool" where
  "calm T s s' \<longleftrightarrow> (\<forall>i < 32. i \<notin> T \<longrightarrow> calm1 (tk s i) (tk s' i))"

lemma calm1_refl [simp]: "calm1 k k"
  by (simp add: calm1_def)

lemma calm1_trans: "calm1 k k' \<Longrightarrow> calm1 k' k'' \<Longrightarrow> calm1 k k''"
  by (auto simp: calm1_def alive_def split: if_splits)

lemma calm_refl [simp]: "calm T s s"
  by (simp add: calm_def)

lemma calm_trans: "calm T s s' \<Longrightarrow> calm T s' s'' \<Longrightarrow> calm T s s''"
  by (auto simp: calm_def intro: calm1_trans)

lemma calmD: "calm T s s' \<Longrightarrow> i < 32 \<Longrightarrow> i \<notin> T \<Longrightarrow> calm1 (tk s i) (tk s' i)"
  by (simp add: calm_def)

lemma calm_mono: "calm T s s' \<Longrightarrow> T \<subseteq> T' \<Longrightarrow> calm T' s s'"
  by (auto simp: calm_def)

lemma calm_tk: "tk s' = tk s \<Longrightarrow> calm T s s'"
  by (simp add: calm_def)

lemma calm1_same: "t_state k' = t_state k \<Longrightarrow> t_pid k' = t_pid k \<Longrightarrow> t_generation k' = t_generation k \<Longrightarrow>
    t_blocked_on_wq k' = t_blocked_on_wq k \<Longrightarrow> calm1 k k'"
  by (simp add: calm1_def ident_def)

lemma calm_relinked: "relinked s s' \<Longrightarrow> calm T s s'"
  by (auto simp: calm_def relinked_tcb intro!: calm1_same)

lemma upd_task_field: "(\<And>k. f (g k) = f k) \<Longrightarrow> f (tk (upd_task i g s) j) = f (tk s j)"
  by (cases "i < length (tasks s)") (auto simp: tk_def upd_task_def nth_list_update list_update_beyond)

lemma calm_upd:
  assumes "\<And>k. t_state (g k) = t_state k" "\<And>k. ident (g k) = ident k" "\<And>k. t_blocked_on_wq (g k) = t_blocked_on_wq k"
  shows "calm T s (upd_task i g s)"
  using upd_task_field [of t_state g i s] upd_task_field [of ident g i s] upd_task_field [of t_blocked_on_wq g i s] assms
  by (simp add: calm_def calm1_def)

lemma calm_slices: "calm T s (charge_tick c s)" "calm T s (refill_slice c s)"
  by (auto simp: charge_tick_def refill_slice_def intro!: calm_upd simp: ident_def)

section \<open>Steps\<close>

lemma add_calm:
  assumes ok: "sched_ok s q xs" and t: "t < 32" "alive (t_state (tk s t))" and s': "scheduler_add_task (Some t) s = Some s'"
  shows "calm {t} s s'" and "t_state (tk s t) \<noteq> TASK_STATE_BLOCKED \<Longrightarrow> calm {} s s'"
    and "alive (t_state (tk s' t))" and "ident (tk s' t) = ident (tk s t)" and "t_blocked_on_wq (tk s' t) = t_blocked_on_wq (tk s t)"
    and "t_state (tk s' t) = TASK_STATE_READY \<or> s' = s \<and> active (t_state (tk s t))"
proof -
  have len: "t < length (tasks s)" using sched_okD(1) [OF ok] t(1) by simp
  consider "t \<in> set q" "s' = s" | "relinked (made_ready t s) s'" using add_ok [OF ok t] s' by auto
  then have "calm {t} s s' \<and> (t_state (tk s t) \<noteq> TASK_STATE_BLOCKED \<longrightarrow> calm {} s s') \<and> alive (t_state (tk s' t)) \<and>
    ident (tk s' t) = ident (tk s t) \<and> t_blocked_on_wq (tk s' t) = t_blocked_on_wq (tk s t) \<and>
    (t_state (tk s' t) = TASK_STATE_READY \<or> s' = s \<and> active (t_state (tk s t)))"
  proof cases
    case 1
    then show ?thesis using t slot_okD(1) [OF sched_okD(7) [OF ok t(1)]] by simp
  next
    case 2
    then show ?thesis
      using t len unfolding calm_def calm1_def ident_def by (auto simp: relinked_tcb made_ready_def)
  qed
  then show "calm {t} s s'" "t_state (tk s t) \<noteq> TASK_STATE_BLOCKED \<Longrightarrow> calm {} s s'" "alive (t_state (tk s' t))"
    "ident (tk s' t) = ident (tk s t)" "t_blocked_on_wq (tk s' t) = t_blocked_on_wq (tk s t)"
    "t_state (tk s' t) = TASK_STATE_READY \<or> s' = s \<and> active (t_state (tk s t))" by blast+
qed

lemma add_others:
  assumes ok: "sched_ok s q xs" and t: "t < 32" "alive (t_state (tk s t))" and s': "scheduler_add_task (Some t) s = Some s'" and i: "i \<noteq> t"
  shows "t_state (tk s' i) = t_state (tk s i)"
proof -
  consider "s' = s" | "relinked (made_ready t s) s'" using add_ok [OF ok t] s' by auto
  then show ?thesis using i t(1) sched_okD(1) [OF ok] by cases (auto simp: relinked_tcb made_ready_def)
qed

lemma wake_calm:
  assumes "sched_ok s q xs" and "\<forall>i \<in> set is. i < 32"
  shows "wlp (wake_sleepers now is s) (calm {} s)"
  using assms
proof (induction "is" arbitrary: s q)
  case (Cons i "is")
  show ?case
  proof (cases "t_state (tk s i) = TASK_STATE_SLEEPING \<and> now \<ge> t_wake_tick (tk s i)")
    case True
    then obtain s1 q1 where s1: "scheduler_add_task (Some i) s = Some s1" "sched_ok s1 q1 xs"
      using add_grown [OF Cons.prems(1), of i] Cons.prems(2) by auto
    have "calm {} s s1" using add_calm(2) [OF Cons.prems(1) _ _ s1(1)] True Cons.prems(2) by simp
    moreover have "wlp (wake_sleepers now is s1) (calm {} s1)" using Cons.IH [OF s1(2)] Cons.prems(2) by simp
    ultimately have "wlp (wake_sleepers now is s1) (calm {} s)" by (auto elim!: wlp_mono intro: calm_trans)
    then show ?thesis using True s1(1) by simp
  next
    case False
    then have "wake_sleepers now (i # is) s = wake_sleepers now is s" by auto
    then show ?thesis using Cons.IH [OF Cons.prems(1)] Cons.prems(2) by simp
  qed
qed (simp add: wlp_rules)

lemma reap_calm:
  assumes ok: "sched_ok s q (i # xs)" and s': "reap_task i (snd (cleanup_queue_dequeue s)) = Some s'"
  shows "calm {} s s'"
proof -
  let ?s1 = "snd (cleanup_queue_dequeue s)"
  have i: "i < 32" using sched_okD(6) [OF ok] by simp
  have d: "\<not> alive (t_state (tk s i))" and nq: "i \<notin> set q"
    using slot_okD(1,6) [OF sched_okD(7) [OF ok i]] active_alive by auto
  have tk1: "tk ?s1 = tk s" "length (tasks ?s1) = 32" "ready_queue ?s1 q"
    using sched_okD(1,3) [OF ok] by (auto simp: cleanup_queue_dequeue_def tk_def fun_eq_iff ready_queue_def)
  have "scheduler_remove_task_locked (Some i) ?s1 = Some ?s1" using remove_absent [OF tk1(3) _ nq] tk1(2) by simp
  then have "tk s' j = (if j = i then (tk s i)\<lparr>t_state := TASK_STATE_TERMINATED, t_pid := 0\<rparr> else tk s j)" for j
    using s' i tk1 by (auto simp: reap_task_def Let_def scheduler_fpu_release_def task_free_slot_for_task_def split: if_splits)
  then show ?thesis using d by (simp add: calm_def calm1_def)
qed

lemma drain_calm:
  assumes "sched_ok s q xs" and "length xs \<le> k"
  shows "wlp (drain_cleanup k s) (calm {} s)"
  using assms
proof (induction k arbitrary: s xs)
  case 0
  then have "cleanup_queue_count s = 0" using sched_okD(4) [OF 0(1)] by (simp add: pending_def unat_eq_zero)
  then show ?case by (subst drain_cleanup.simps) (simp add: wlp_rules)
next
  case (Suc k)
  show ?case
  proof (cases xs)
    case Nil
    then have "cleanup_queue_count s = 0" using sched_okD(4) [OF Suc.prems(1)] by (simp add: pending_def unat_eq_zero)
    then show ?thesis by (subst drain_cleanup.simps) (simp add: wlp_rules)
  next
    case (Cons i ys)
    have c: "cleanup_queue_count s \<noteq> 0" using sched_okD(4) [OF Suc.prems(1)] Cons by (auto simp: pending_def)
    have dq: "cleanup_queue_dequeue s = (Some i, snd (cleanup_queue_dequeue s))"
      using cleanup_dequeue_pending(1) [of s i ys] sched_okD(4) [OF Suc.prems(1)] Cons by (metis prod.collapse)
    obtain s1 where s1: "reap_task i (snd (cleanup_queue_dequeue s)) = Some s1" "sched_ok s1 q ys"
      using reap_ok [OF Suc.prems(1) [unfolded Cons] refl] by blast
    have "calm {} s s1" by (rule reap_calm [OF Suc.prems(1) [unfolded Cons] s1(1)])
    moreover have "wlp (drain_cleanup k s1) (calm {} s1)" using Suc.IH [OF s1(2)] Suc.prems(2) Cons by simp
    ultimately have "wlp (drain_cleanup k s1) (calm {} s)" by (auto elim!: wlp_mono intro: calm_trans)
    then show ?thesis by (subst drain_cleanup.simps, subst dq) (use c s1(1) in simp)
  qed
qed

lemma switch_counted_calm:
  assumes ok: "sched_ok s q xs" and n: "n \<in> set q" "n \<noteq> p" and p: "p < 32"
  shows "calm {} s (switch_counted p n s)"
proof -
  have len: "length (tasks s) = 32" "n < 32" using ready_queue_bound [OF sched_okD(3) [OF ok] n(1)] sched_okD(1) [OF ok] by auto
  then have pl: "p < length (tasks s)" using p by simp
  note rt = retired [OF pl]
  have nr: "n < length (tasks (retire_prev p s))" using len rt by simp
  note mc = made_current [OF nr]
  have "active (t_state (tk s n))" using slot_okD(1) [OF sched_okD(7) [OF ok len(2)]] n(1) by simp
  then show ?thesis
    using n(2) by (auto simp: calm_def calm1_def ident_def switch_counted_def Let_def mc rt active_def)
qed

lemma kernel_switch_calm: "wlp (scheduler_switch_kernel_context p n s) (calm T s)"
proof -
  have "calm T s (upd_task p (\<lambda>k. k\<lparr>t_saved_int_depth := a, t_saved_crit_depth := b, t_saved_crit_flags := c\<rparr>) s')"
    if "tk s' = tk s" for a b c s'
    using calm_trans [OF calm_tk [OF that]] calm_upd by (simp add: ident_def)
  then show ?thesis
    by (auto simp: scheduler_switch_kernel_context_def tss_set_kernel_stack_def Let_def wlp_def bind_eq_Some_conv calm_def split: if_splits)
qed

lemma decide_calm:
  \<comment> \<open>the scheduling decision of \<^verbatim>\<open>scheduler_schedule\<close> and of the timer interrupt\<close>
  assumes ok: "sched_ok s q xs" and q: "q \<noteq> []" and p: "p < 32"
    and k: "\<And>n s q xs. sched_ok s q xs \<Longrightarrow> n \<in> set q \<Longrightarrow> n \<noteq> p \<Longrightarrow> wlp (switch n s) (calm {} s)"
  shows "wlp (Option.bind (scheduler_get_next_task s) (\<lambda>(next, s). case next of
      None \<Rightarrow> Some (refill_slice p s) | Some n \<Rightarrow> if n = p then Some (refill_slice p s) else switch n s)) (calm {} s)"
proof -
  obtain n r where n: "q = n # r" using q by (cases q) auto
  obtain s1 where s1: "scheduler_get_next_task s = Some (Some n, s1)" "sched_ok s1 (r @ [n]) xs" "relinked s s1"
    using pick_ok [OF ok [unfolded n]] by blast
  note c = calm_relinked [OF s1(3), of "{}"]
  have "calm {} s (refill_slice p s1)" by (rule calm_trans [OF c calm_slices(2)])
  moreover have "wlp (switch n s1) (calm {} s)" if "n \<noteq> p"
    using k [OF s1(2) _ that] by (auto elim!: wlp_mono intro: calm_trans [OF c])
  ultimately show ?thesis using s1(1) by (simp add: wlp_rules)
qed

lemma schedule_switch_calm:
  assumes "sched_ok s q xs" "n \<in> set q" "n \<noteq> p" "p < 32"
  shows "wlp (schedule_switch p n s) (calm {} s)"
proof -
  let ?a = "switch_counted p n s"
  let ?b = "if t_state (tk ?a p) \<noteq> TASK_STATE_TERMINATED \<and> t_state (tk ?a p) \<noteq> TASK_STATE_ZOMBIE
    then upd_task p (\<lambda>k. k\<lparr>t_has_run_before := True\<rparr>) ?a else ?a"
  let ?c = "upd_task n (\<lambda>k. k\<lparr>t_has_run_before := True\<rparr>) ?b"
  have "calm {} ?a ?b" by (auto intro!: calm_upd simp: ident_def)
  then have "calm {} s ?b" by (rule calm_trans [OF switch_counted_calm [OF assms]])
  moreover have "calm {} ?b ?c" by (rule calm_upd) (simp_all add: ident_def)
  ultimately have "calm {} s ?c" by (rule calm_trans)
  then have "wlp (scheduler_switch_kernel_context p n ?c) (calm {} s)"
    by (rule wlp_mono [OF kernel_switch_calm calm_trans])
  then show ?thesis unfolding schedule_switch_def Let_def .
qed

lemma yield_calm:
  assumes ok: "sched_ok s q xs" and q: "q \<noteq> []" and p: "current_running_task s = Some p" "p < 32" and en: "scheduler_enabled s"
  shows "wlp (scheduler_yield s) (calm {} s)"
proof -
  let ?h = "if ready_queue_head s = Some p then s\<lparr>ready_queue_head := t_next (tk s p)\<rparr> else s"
  let ?s = "upd_task p (\<lambda>k. k\<lparr>t_ticks_remaining := 0\<rparr>) ?h"
  obtain q' where q': "sched_ok ?h q' xs" "q' \<noteq> []" using yield_rotated [OF ok q, of p] by blast
  have ok2: "sched_ok ?s q' xs" by (rule sched_ok_tick [OF q'(1) p(2)]) (simp_all add: same_slot_def)
  have "calm {} s ?h" by (rule calm_tk) simp
  moreover have "calm {} ?h ?s" by (rule calm_upd) (simp_all add: ident_def)
  ultimately have c: "calm {} s ?s" by (rule calm_trans)
  have pl: "p < length (tasks ?h)" using sched_okD(1) [OF q'(1)] p(2) by simp
  have nt: "\<not> all_terminated ?s"
    using ready_queue_empty [OF sched_okD(3) [OF ok2]] q'(2) by (simp add: all_terminated_def)
  have z: "t_ticks_remaining (tk ?s p) = 0" using pl by simp
  then have ch: "charge_tick p ?s = ?s" by (simp add: charge_tick_def)
  have "wlp (Option.bind (scheduler_get_next_task ?s) (\<lambda>(next, s). case next of
      None \<Rightarrow> Some (refill_slice p s) | Some n \<Rightarrow> if n = p then Some (refill_slice p s) else schedule_switch p n s)) (calm {} ?s)"
    by (rule decide_calm [OF ok2 q'(2) p(2)]) (rule schedule_switch_calm [OF _ _ _ p(2)])
  then have "wlp (Option.bind (scheduler_get_next_task ?s) (\<lambda>(next, s). case next of
      None \<Rightarrow> Some (refill_slice p s) | Some n \<Rightarrow> if n = p then Some (refill_slice p s) else schedule_switch p n s)) (calm {} s)"
    by (rule wlp_mono) (rule calm_trans [OF c])
  moreover have "scheduler_yield s = scheduler_schedule ?s" using p en by (simp add: scheduler_yield_def Let_def)
  moreover have "scheduler_enabled ?s" "current_running_task ?s = Some p" using p en by auto
  ultimately show ?thesis using nt z ch by (simp add: scheduler_schedule_def Let_def)
qed

lemma tick_calm:
  assumes ok: "sched_ok s q xs" and q: "q \<noteq> []" and p: "current_running_task s = Some p" "p < 32"
  shows "wlp (scheduler_schedule_from_interrupt now s) (calm {} s)"
proof (cases "scheduler_enabled s")
  case en: True
  have "wp (wake_sleepers now (task_get_all s) s) (\<lambda>s'. \<exists>q'. sched_ok s' q' xs \<and> grown s q s' q')"
    "wlp (wake_sleepers now (task_get_all s) s) (calm {} s)"
    using wake_sleepers_ok [OF ok] wake_calm [OF ok] by (auto simp: task_get_all_def)
  then obtain s1 q1 where s1: "wake_sleepers now (task_get_all s) s = Some s1" "sched_ok s1 q1 xs" "grown s q s1 q1" "calm {} s s1"
    by (auto simp: wp_iff wlp_def)
  have len: "length xs \<le> unat (cleanup_queue_count s1)" using sched_okD(4) [OF s1(2)] by (simp add: pending_def)
  obtain s2 where s2: "drain_cleanup (unat (cleanup_queue_count s1)) s1 = Some s2" "sched_ok s2 q1 []" "calm {} s1 s2"
    using drain_ok [OF s1(2) len] drain_calm [OF s1(2) len] by (auto simp: wp_iff wlp_def)
  have q1: "q1 \<noteq> []" using s1(3) q by (auto simp: grown_def)
  have nt: "\<not> all_terminated s2" using q1 ready_queue_empty [OF sched_okD(3) [OF s2(2)]] by (simp add: all_terminated_def)
  let ?s = "charge_tick p s2"
  have c: "calm {} s ?s" by (rule calm_trans [OF calm_trans [OF s1(4) s2(3)] calm_slices(1)])
  have ok3: "sched_ok ?s q1 []" by (rule charged(1) [OF s2(2) p(2)])
  have "wlp (Option.bind (scheduler_get_next_task ?s) (\<lambda>(next, s). case next of
      None \<Rightarrow> Some (refill_slice p s) | Some n \<Rightarrow> if n = p then Some (refill_slice p s)
      else scheduler_switch_kernel_context p n (switch_counted p n s))) (calm {} ?s)"
    by (rule decide_calm [OF ok3 q1 p(2)])
      (rule wlp_mono [OF kernel_switch_calm calm_trans [OF switch_counted_calm [OF _ _ _ p(2)]]])
  then have "wlp (Option.bind (scheduler_get_next_task ?s) (\<lambda>(next, s). case next of
      None \<Rightarrow> Some (refill_slice p s) | Some n \<Rightarrow> if n = p then Some (refill_slice p s)
      else scheduler_switch_kernel_context p n (switch_counted p n s))) (calm {} s)"
    by (rule wlp_mono) (rule calm_trans [OF c])
  then show ?thesis
    using en p s1(1) s2(1) nt c by (simp add: scheduler_schedule_from_interrupt_def Let_def wlp_Some)
qed (simp add: scheduler_schedule_from_interrupt_def wlp_rules)

lemma calm_upd_at: "t < length (tasks s) \<Longrightarrow> t \<in> T \<Longrightarrow> calm T s (upd_task t f s)"
  by (auto simp: calm_def)

lemma fault_calm:
  assumes inv: "sched_inv False s" and o: "others_ready s" and c: "current_running_task s = Some c"
  shows "wlp (scheduler_terminate_current_from_interrupt s) (\<lambda>s'. calm {c} s s' \<and> t_state (tk s' c) = TASK_STATE_TERMINATED)"
proof -
  let ?f = "\<lambda>k. k\<lparr>t_state := TASK_STATE_TERMINATED, t_ticks_remaining := 0\<rparr>"
  obtain s1 q xs where s1: "scheduler_remove_task_locked (Some c) (upd_task c ?f s) = Some s1" "sched_ok s1 q xs" "q \<noteq> []"
    "relinked (upd_task c ?f s) s1" "c < 32" "c \<notin> set q"
    using leave_ok [OF inv o c, of ?f] by auto
  have len: "c < length (tasks s)" using relinked_sel(1) [OF s1(4)] sched_okD(1) [OF s1(2)] s1(5) by simp
  let ?e = "snd (cleanup_queue_enqueue (Some c) s1)"
  have tke: "tk ?e = tk s1" by (simp add: tk_def cleanup_enqueue_sel fun_eq_iff)
  have c1: "calm {c} s ?e" "t_state (tk ?e c) = TASK_STATE_TERMINATED"
    using calm_trans [OF calm_upd_at [OF len, of "{c}" ?f] calm_relinked [OF s1(4)]] calm_trans [OF _ calm_tk [OF tke]] len
      relinked_tcb(1) [OF s1(4), of c] by (auto simp: tke)
  obtain n r where n: "q = n # r" using s1(3) by (cases q) auto
  have run: "runnable ?e n" "active (t_state (tk ?e n))" "n < 32" "n \<noteq> c"
    using queued_runnable [OF s1(2), of n] ready_queue_bound [OF sched_okD(3) [OF s1(2)], of n] sched_okD(1) [OF s1(2)] s1(6) n
    by (auto simp: runnable_def task_slot_is_live_def tke cleanup_enqueue_sel active_def)
  let ?p = "?e\<lparr>ready_queue_head := t_next (tk ?e n)\<rparr>"
  have pick: "scheduler_get_next_task ?e = Some (Some n, ?p)"
    using ready_queue_head [of s1 n r] sched_okD(3) [OF s1(2)] n run(1)
    by (subst scheduler_get_next_task.simps) (simp add: cleanup_enqueue_sel)
  define m where "m = upd_task n (\<lambda>k. k\<lparr>t_has_run_before := True\<rparr>) (make_current n ?p)"
  define t where "t = m\<lparr>total_context_switches := total_context_switches m + 1\<rparr>"
  have nl: "n < length (tasks ?p)" using run(3) sched_okD(1) [OF s1(2)] by (simp add: cleanup_enqueue_sel)
  have tkt: "tk t j = (if j = n then (tk ?e n)\<lparr>t_state := TASK_STATE_RUNNING, t_ticks_remaining := t_time_slice (tk ?e n), t_has_run_before := True\<rparr>
    else tk ?e j)" for j
    using nl by (simp add: t_def m_def made_current [OF nl])
  have "calm1 (tk ?e n) (tk t n)" using run(2) by (auto simp: tkt calm1_def ident_def active_def)
  then have c2: "calm {c} ?e t" by (simp add: calm_def tkt)
  have c3: "t_state (tk t c) = TASK_STATE_TERMINATED" using run(4) c1(2) by (simp add: tkt)
  have fin: "calm {c} s s' \<and> t_state (tk s' c) = TASK_STATE_TERMINATED" if s': "calm {} t s'" for s'
  proof
    show "calm {c} s s'" by (rule calm_trans [OF calm_trans [OF c1(1) c2] calm_mono [OF s']]) simp
    show "t_state (tk s' c) = TASK_STATE_TERMINATED" using calmD [OF s' s1(5)] c3 by (auto simp: calm1_def)
  qed
  have "wlp (scheduler_switch_kernel_context c n t) (\<lambda>s'. calm {c} s s' \<and> t_state (tk s' c) = TASK_STATE_TERMINATED)"
    by (rule wlp_mono [OF kernel_switch_calm fin])
  moreover have "scheduler_terminate_current_from_interrupt s = (if \<not> scheduler_enabled s then None else if \<not> task_slot_is_live s c then None
     else if t_is_kernel_task (tk s c) then None else scheduler_switch_kernel_context c n t)"
    using c s1(1) pick run(4) by (simp add: scheduler_terminate_current_from_interrupt_def Let_def t_def m_def)
  ultimately show ?thesis by (simp add: wlp_def)
qed

lemma leave_calm:
  assumes inv: "sched_inv False s" and o: "others_ready s" and c: "current_running_task s = Some c"
    and f: "\<And>k. t_next (f k) = t_next k" "\<And>k. \<not> active (t_state (f k))"
      "\<And>k. alive (t_state (f k)) \<Longrightarrow> same_slot ((f k)\<lparr>t_state := t_state k\<rparr>) k" "\<And>k. t_saved_int_depth (f k) = t_saved_int_depth k"
  shows "wlp (scheduler_remove_task (Some c) (upd_task c f s)) (\<lambda>s'. calm {c} s s' \<and> c < 32 \<and> t_state (tk s' c) = t_state (f (tk s c)) \<and>
    ident (tk s' c) = ident (f (tk s c)) \<and> t_blocked_on_wq (tk s' c) = t_blocked_on_wq (f (tk s c)) \<and> active (t_state (tk s c)))"
proof -
  obtain s' q xs where s': "scheduler_remove_task (Some c) (upd_task c f s) = Some s'" "relinked (upd_task c f s) s'" "sched_ok s' q xs" "c < 32"
    using leave_ok [OF inv o c f] by blast
  have len: "c < length (tasks s)" using relinked_sel(1) [OF s'(2)] sched_okD(1) [OF s'(3)] s'(4) by simp
  obtain q0 xs0 where "sched_ok s q0 xs0" "c \<in> set q0" using inv c by (auto elim: sched_invE)
  then have "active (t_state (tk s c))" using slot_okD(1) [OF sched_okD(7) [OF _ s'(4)]] by blast
  moreover have "calm {c} s s'" by (rule calm_trans [OF calm_upd_at [OF len] calm_relinked [OF s'(2)]]) simp
  ultimately show ?thesis using s' len by (simp add: wlp_rules relinked_tcb [OF s'(2)] ident_def)
qed

lemma block_calm:
  assumes inv: "sched_inv False s" and o: "others_ready s" and c: "current_running_task s = Some c"
  shows "wlp (scheduler_block_task (Some c) s) (\<lambda>s'. calm {c} s s' \<and> t_state (tk s' c) = TASK_STATE_BLOCKED \<and>
    ident (tk s' c) = ident (tk s c) \<and> t_blocked_on_wq (tk s' c) = t_blocked_on_wq (tk s c))"
proof -
  obtain q xs where q: "sched_ok s q xs" "c < 32" "c \<in> set q" "tail_ok s q" "interrupt_context_depth s = 0"
    using inv c by (auto elim: sched_invE)
  obtain s1 where s1: "scheduler_remove_task_locked (Some c) s = Some s1" "relinked s s1"
    using remove_task_ok [OF sched_okD(3,1) [OF q(1)] current_detachable [OF q(1) c q(3,4)]] by blast
  have len: "c < length (tasks s1)" using relinked_sel(1) [OF s1(2)] sched_okD(1) [OF q(1)] q(2) by simp
  have "calm {c} s (upd_task c (\<lambda>k. k\<lparr>t_state := TASK_STATE_BLOCKED\<rparr>) s1)"
    by (rule calm_trans [OF calm_relinked [OF s1(2)] calm_upd_at [OF len]]) simp
  then show ?thesis
    using s1(1) q(5) len by (simp add: scheduler_block_task_def wlp_rules ident_def relinked_tcb [OF s1(2)])
qed

lemma kill_calm:
  assumes inv: "sched_inv False s" and t: "t < 32" "alive (t_state (tk s t))" "detachable s t"
  shows "wlp (terminate_other t s) (\<lambda>s'. calm {t} s s' \<and> t_state (tk s' t) = TASK_STATE_TERMINATED)"
proof -
  let ?f = "\<lambda>k. k\<lparr>t_state := TASK_STATE_TERMINATED, t_pid := 0\<rparr>"
  obtain q xs where q: "sched_ok s q xs" "q \<noteq> []" using inv by (blast elim: sched_invE)
  let ?h = "scheduler_fpu_release (Some t) s"
  have h: "tk ?h = tk s" "length (tasks ?h) = 32" "sched_ok ?h q xs" "detachable ?h t"
    using q(1) t(3) sched_okD(1) [OF q(1)] by (auto simp: scheduler_fpu_release_def sched_ok_fpu detachable_def split: option.splits)
  have al: "alive (t_state (tk ?h t))" using t(2) by (simp add: h)
  obtain s1 where s1: "scheduler_remove_task_locked (Some t) (upd_task t ?f ?h) = Some s1" "relinked (upd_task t ?f ?h) s1"
    using remove_ok [OF h(3) t(1) h(4) refl _ _ _ _ al, of ?f] by auto
  have tl: "t < length (tasks ?h)" using h t(1) by simp
  have "calm {t} s s1"
    by (rule calm_trans [OF calm_tk [OF h(1)] calm_trans [OF calm_upd_at [OF tl] calm_relinked [OF s1(2)]]]) simp
  moreover have "tk (task_free_slot_for_task t s1) = tk s1" by (simp add: task_free_slot_for_task_def)
  moreover have "t_state (tk s1 t) = TASK_STATE_TERMINATED" using tl by (simp add: relinked_tcb [OF s1(2)])
  moreover have "terminate_other t s = Some (task_free_slot_for_task t s1)"
    using s1(1) ready_queue_empty [OF sched_okD(3) [OF h(3)]] q(2) by (auto simp: terminate_other_def scheduler_remove_task_def Let_def)
  ultimately show ?thesis by (simp add: wlp_rules calm_def)
qed

lemma spawn_calm:
  assumes ok: "sched_ok s q xs" and k: "t_pid k \<noteq> 0" and i: "find (\<lambda>i. bit (free_slot_bitmap s) i) [0..<32] = Some i"
  shows "wlp (spawn k s) (\<lambda>s'. calm {i} s s' \<and> i < 32 \<and> t_state (tk s i) = TASK_STATE_TERMINATED \<and>
    t_state (tk s' i) = TASK_STATE_READY \<and> t_pid (tk s' i) = t_pid k \<and> t_blocked_on_wq (tk s' i) = t_blocked_on_wq k)"
proof -
  have b: "i < 32" "bit (free_slot_bitmap s) i" using find_upt_SomeD [OF i] by blast+
  note sl = slot_okD [OF sched_okD(7) [OF ok b(1)]]
  define s1 where "s1 = upd_task i (\<lambda>_. k\<lparr>t_generation := slot_generations s ! i, t_state := TASK_STATE_READY\<rparr>)
    (s\<lparr>free_slot_bitmap := free_slot_bitmap s AND NOT (push_bit i 1)\<rparr>)"
  have len: "i < length (tasks s)" using sched_okD(1) [OF ok] b by simp
  have nq: "i \<notin> set q" using sl(1,8) b(2) by auto
  have tk1: "tk s1 j = (if j = i then k\<lparr>t_generation := slot_generations s ! i, t_state := TASK_STATE_READY\<rparr> else tk s j)" for j
    using len by (simp add: s1_def)
  have "ready_queue s1 q" by (rule ready_queue_same [OF sched_okD(3) [OF ok]]) (use nq in \<open>auto simp: tk1, auto simp: s1_def\<close>)
  then have q1: "ready_queue s1 q" "length (tasks s1) = 32" "t_pid (tk s1 i) \<noteq> 0"
    using k sched_okD(1) [OF ok] by (simp_all add: tk1, simp add: s1_def)
  obtain s' where s': "scheduler_add_task (Some i) s1 = Some s'" "relinked (made_ready i s1) s'"
    using add_task_ok [OF q1(1,2) b(1) q1(3) nq] by blast
  have c1: "calm {i} s s1" by (simp add: calm_def tk1)
  have c2: "calm {i} s1 (made_ready i s1)" unfolding made_ready_def by (rule calm_upd_at) (use q1(2) b in simp_all)
  have "calm {i} s s'" by (rule calm_trans [OF calm_trans [OF c1 c2] calm_relinked [OF s'(2)]])
  moreover have "t_state (tk s' i) = TASK_STATE_READY \<and> t_pid (tk s' i) = t_pid k \<and> t_blocked_on_wq (tk s' i) = t_blocked_on_wq k"
    using len q1(2) b(1) unfolding relinked_tcb [OF s'(2)] made_ready_def by (simp add: tk1)
  moreover have "spawn k s = Some s'" using s'(1) i by (simp add: spawn_def task_find_free_slot_def s1_def)
  ultimately show ?thesis using sl(8) b by (simp add: wlp_rules)
qed

section \<open>Operations\<close>

definition touched :: "sched_op \<Rightarrow> sched \<Rightarrow> nat set" where
  \<comment> \<open>the slots an operation is about\<close>
  "touched op s = (case op of
     Block \<Rightarrow> set_option (current_running_task s) | Exit \<Rightarrow> set_option (current_running_task s)
   | Fault \<Rightarrow> set_option (current_running_task s) | Add t \<Rightarrow> {t} | Wake t \<Rightarrow> {t} | Kill t \<Rightarrow> {t}
   | Spawn k \<Rightarrow> set_option (find (\<lambda>i. bit (free_slot_bitmap s) i) [0..<32]) | _ \<Rightarrow> {})"

definition outcome :: "sched_op \<Rightarrow> tcb \<Rightarrow> tcb \<Rightarrow> bool" where
  \<comment> \<open>what becomes of them\<close>
  "outcome op k k' = (case op of
     Block \<Rightarrow> t_state k' = TASK_STATE_BLOCKED \<and> ident k' = ident k \<and> t_blocked_on_wq k' = t_blocked_on_wq k
   | Spawn n \<Rightarrow> t_state k = TASK_STATE_TERMINATED \<and> t_state k' = TASK_STATE_READY \<and> t_pid k' = t_pid n \<and> t_blocked_on_wq k' = t_blocked_on_wq n
   | Add t \<Rightarrow> alive (t_state k') \<and> ident k' = ident k \<and> t_blocked_on_wq k' = t_blocked_on_wq k \<and> t_state k' \<noteq> TASK_STATE_BLOCKED
   | Wake t \<Rightarrow> (if t_state k = TASK_STATE_BLOCKED then t_state k' = TASK_STATE_READY \<and> ident k' = ident k \<and> t_blocked_on_wq k' = t_blocked_on_wq k
       else k' = k)
   | Exit \<Rightarrow> t_state k' = TASK_STATE_ZOMBIE \<and> ident k' = ident k
   | _ \<Rightarrow> t_state k' = TASK_STATE_TERMINATED)"

lemma exec_calm_leave:
  assumes inv: "sched_inv False s" and o: "others_ready s" and c: "current_running_task s = Some c"
  shows "wlp (sched_exec Block (s, False)) (\<lambda>(s', b'). calm {c} s s' \<and> outcome Block (tk s c) (tk s' c))"
    and "wlp (sched_exec Exit (s, False)) (\<lambda>(s', b'). calm {c} s s' \<and> outcome Exit (tk s c) (tk s' c))"
    and "wlp (sched_exec (Sleep now ticks) (s, False)) (\<lambda>(s', b'). calm {} s s')"
proof -
  show "wlp (sched_exec Block (s, False)) (\<lambda>(s', b'). calm {c} s s' \<and> outcome Block (tk s c) (tk s' c))"
    using block_calm [OF inv o c] c by (simp add: sched_exec_def outcome_def wlp_def)
  show "wlp (sched_exec Exit (s, False)) (\<lambda>(s', b'). calm {c} s s' \<and> outcome Exit (tk s c) (tk s' c))"
    using leave_calm [OF inv o c, of "\<lambda>k. k\<lparr>t_state := TASK_STATE_ZOMBIE\<rparr>"] c
    by (simp add: sched_exec_def outcome_def wlp_def exit_mark_def ident_def)
  let ?f = "\<lambda>k. k\<lparr>t_wake_tick := now + ticks, t_state := TASK_STATE_SLEEPING\<rparr>"
  have "wlp (scheduler_remove_task (Some c) (upd_task c ?f s)) (calm {} s)"
  proof (rule wlp_mono [OF leave_calm [OF inv o c]])
    fix s' assume a: "calm {c} s s' \<and> c < 32 \<and> t_state (tk s' c) = t_state (?f (tk s c)) \<and> ident (tk s' c) = ident (?f (tk s c)) \<and>
      t_blocked_on_wq (tk s' c) = t_blocked_on_wq (?f (tk s c)) \<and> active (t_state (tk s c))"
    then have "calm1 (tk s c) (tk s' c)" by (auto simp: calm1_def ident_def active_def)
    then show "calm {} s s'" using a by (auto simp: calm_def)
  qed (simp_all add: same_slot_def)
  then show "wlp (sched_exec (Sleep now ticks) (s, False)) (\<lambda>(s', b'). calm {} s s')"
    using c by (simp add: sched_exec_def wlp_def sleep_mark_def)
qed

lemma calm_exit: "calm T s (interrupt_context_exit s') = calm T s s'" "tk (interrupt_context_exit s) = tk s" "tk (interrupt_context_enter s) = tk s"
  by (simp_all add: calm_def interrupt_context_exit_def interrupt_context_enter_def)

lemma exec_calm:
  assumes inv: "sched_inv b s" and al: "allowed op (s, b)"
  shows "wlp (sched_exec op (s, b)) (\<lambda>(s', b'). calm (touched op s) s s' \<and> (\<forall>i \<in> touched op s. outcome op (tk s i) (tk s' i)))"
proof -
  obtain q xs c where q: "sched_ok s q xs" "q \<noteq> []" "c < 32" "current_running_task s = Some c" "scheduler_enabled s"
    using inv by (blast elim: sched_invE)
  have e: "sched_ok (interrupt_context_enter s) q xs" "current_running_task (interrupt_context_enter s) = Some c"
    using q by (simp_all add: interrupt_context_enter_def sched_ok_depth)
  show ?thesis
  proof (cases op)
    case Yield
    then show ?thesis using yield_calm [OF q(1,2,4,3,5)] by (auto simp: sched_exec_def touched_def wlp_def calm_exit)
  next
    case (Tick now)
    then show ?thesis using tick_calm [OF e(1) q(2) e(2) q(3), of now] by (auto simp: sched_exec_def touched_def wlp_def calm_exit calm_def)
  next
    case Fault
    then show ?thesis using fault_calm [of s c] inv al q(4)
      by (auto simp: sched_exec_def touched_def wlp_def calm_exit allowed_def outcome_def)
  next
    case (Add t)
    then have t: "t < 32" "alive (t_state (tk s t))" using al by (simp_all add: allowed_def)
    have "calm {t} s s' \<and> outcome (Add t) (tk s t) (tk s' t)" if s': "scheduler_add_task (Some t) s = Some s'" for s'
      using add_calm [OF q(1) t s'] by (auto simp: outcome_def active_def)
    then show ?thesis using Add by (simp add: sched_exec_def touched_def wlp_def)
  next
    case (Wake t)
    then have t: "t < 32" using al by (simp add: allowed_def)
    have "calm {t} s s' \<and> outcome (Wake t) (tk s t) (tk s' t)" if s': "scheduler_wakeup_task (Some t) s = Some s'" for s'
    proof (cases "t_state (tk s t) = TASK_STATE_BLOCKED")
      case True
      then have "scheduler_add_task (Some t) s = Some s'" using s' by (simp add: scheduler_wakeup_task_def)
      then show ?thesis using add_calm [OF q(1) t] True by (auto simp: outcome_def)
    qed (use s' in \<open>simp add: scheduler_wakeup_task_def outcome_def\<close>)
    then show ?thesis using Wake by (simp add: sched_exec_def touched_def wlp_def)
  next
    case (Kill t)
    then show ?thesis using kill_calm [of s t] inv al
      by (auto simp: sched_exec_def touched_def wlp_def allowed_def outcome_def)
  next
    case (Spawn k)
    show ?thesis
    proof (cases "find (\<lambda>i. bit (free_slot_bitmap s) i) [0..<32]")
      case None
      then show ?thesis using Spawn by (simp add: sched_exec_def touched_def wlp_def spawn_def task_find_free_slot_def)
    next
      case (Some i)
      then show ?thesis using spawn_calm [OF q(1) _ Some] Spawn al
        by (auto simp: sched_exec_def touched_def wlp_def allowed_def outcome_def)
    qed
  next
    case (Priority t p)
    have "calm {} s (task_set_priority (Some t) p s)"
      by (auto simp: task_set_priority_def Let_def ident_def intro!: calm_upd)
    then show ?thesis using Priority by (simp add: sched_exec_def touched_def wlp_def)
  qed (use exec_calm_leave [of s c] inv al q(4) in \<open>auto simp: allowed_def touched_def wlp_def\<close>)
qed

section \<open>The running task and the slots\<close>

lemma current_active: "sched_inv False s \<Longrightarrow> current_running_task s = Some c \<Longrightarrow> c < 32 \<and> active (t_state (tk s c))"
  by (erule sched_invE) (auto dest: sched_okD(7) slot_okD(1))

lemma inv_slots: "sched_inv b s \<Longrightarrow> length (tasks s) = 32"
  by (erule sched_invE) (rule sched_okD(1))

section \<open>The cleanup queue as a first-in first-out queue\<close>

definition pending_list :: "sched \<Rightarrow> nat list" where
  "pending_list s = map (\<lambda>j. the (cleanup_queue s ! ((unat (cleanup_queue_head s) + j) mod 8))) [0..<unat (cleanup_queue_count s)]"

definition pending_ok :: "sched \<Rightarrow> bool" where
  "pending_ok s \<longleftrightarrow> pending s (pending_list s)"

lemma pending_list: "pending s xs \<Longrightarrow> pending_list s = xs"
  by (rule nth_equalityI) (auto simp: pending_def pending_list_def)

interpretation cq: fifo_queue pending_ok pending_list 8 "\<lambda>i s. snd (cleanup_queue_enqueue (Some i) s)"
  "\<lambda>s. the (fst (cleanup_queue_dequeue s))" "\<lambda>s. snd (cleanup_queue_dequeue s)"
proof
  fix s :: sched and i :: nat
  assume ok: "pending_ok s"
  show "pending_ok (snd (cleanup_queue_enqueue (Some i) s))" "pending_list (snd (cleanup_queue_enqueue (Some i) s)) = pending_list s @ [i]"
    if "length (pending_list s) < 8"
    using cleanup_enqueue_pending [OF _ that] ok pending_list unfolding pending_ok_def by metis+
  assume "pending_list s \<noteq> []"
  then obtain x xs where x: "pending_list s = x # xs" by (cases "pending_list s") auto
  have "pending s (x # xs)" using ok x by (simp add: pending_ok_def)
  note d = cleanup_dequeue_pending [OF this]
  show "pending_ok (snd (cleanup_queue_dequeue s))"
    "pending_list s = the (fst (cleanup_queue_dequeue s)) # pending_list (snd (cleanup_queue_dequeue s))"
    using d pending_list [OF d(2)] x by (simp_all add: pending_ok_def)
qed

text \<open>A task queued for cleanup is reaped after exactly the tasks queued before it.\<close>

lemmas cleanup_in_order = cq.pushed_last cq.nth_front

end
