(* ===== verification/Mutex.thy ===== *)
theory Mutex
  imports Sched_Frame Array_Queue
begin

text \<open>
  Mutexes, \<^verbatim>\<open>src/src/mutex.c\<close>: the operations on a mutex and the scheduler's state, and the
  arrays of waiters as a first-in first-out queue. Each operation is one critical section; \<^verbatim>\<open>mutex_lock\<close> of a waiting
  task yields after its critical section and returns when the task runs again.
\<close>

section \<open>Model\<close>

abbreviation (input) MUTEX_MAX_WAITERS :: u32 where "MUTEX_MAX_WAITERS \<equiv> 16"
abbreviation (input) MUTEX_FLAG_RECURSIVE :: u8 where "MUTEX_FLAG_RECURSIVE \<equiv> 0x01"

record mutex_t =
  m_locked :: bool
  m_owner_pid :: u32
  m_lock_count :: u32
  m_waiters :: "u32 list"
  m_waiter_gens :: "u32 list"
  m_num_waiters :: u32
  m_flags :: u8

definition mutex_init :: "u8 \<Rightarrow> mutex_t" where
  "mutex_init flags = \<lparr>m_locked = False, m_owner_pid = 0, m_lock_count = 0, m_waiters = replicate (unat MUTEX_MAX_WAITERS) 0,
     m_waiter_gens = replicate (unat MUTEX_MAX_WAITERS) 0, m_num_waiters = 0, m_flags = flags\<rparr>"

datatype lock_outcome = Returned int | Waits

definition acquire :: "u32 \<Rightarrow> mutex_t \<Rightarrow> mutex_t" where
  "acquire pid m = m\<lparr>m_locked := True, m_owner_pid := pid, m_lock_count := 1\<rparr>"

definition release :: "mutex_t \<Rightarrow> mutex_t" where
  "release m = m\<lparr>m_locked := False, m_owner_pid := 0, m_lock_count := 0\<rparr>"

definition push_waiter :: "u32 \<times> u32 \<Rightarrow> mutex_t \<Rightarrow> mutex_t" where
  "push_waiter e m = m\<lparr>m_waiters := (m_waiters m)[unat (m_num_waiters m) := fst e],
     m_waiter_gens := (m_waiter_gens m)[unat (m_num_waiters m) := snd e], m_num_waiters := m_num_waiters m + 1\<rparr>"

definition mutex_lock_section :: "mutex_t \<Rightarrow> sched \<Rightarrow> (lock_outcome \<times> mutex_t \<times> sched) option" where
  "mutex_lock_section m s =
     (case current_running_task s of
        None \<Rightarrow> Some (Returned 0, acquire 0 m, s)
      | Some c \<Rightarrow>
          let pid = t_pid (tk s c) in
          if m_locked m \<and> m_owner_pid m = pid then
            (if m_flags m AND MUTEX_FLAG_RECURSIVE \<noteq> 0
             then Some (Returned 0, m\<lparr>m_lock_count := m_lock_count m + 1\<rparr>, s)
             else Some (Returned (- 1), m, s))
          else if \<not> m_locked m then Some (Returned 0, acquire pid m, s)
          else if m_num_waiters m \<ge> MUTEX_MAX_WAITERS then None
          else do {
            let m = push_waiter (pid, t_generation (tk s c)) m;
            s \<leftarrow> scheduler_block_task (Some c) s;
            Some (Waits, m, s)
          })"

definition mutex_lock :: "mutex_t \<Rightarrow> sched \<Rightarrow> (lock_outcome \<times> mutex_t \<times> sched) option" where
  \<comment> \<open>a waiting task returns 0 when it runs again\<close>
  "mutex_lock m s = do {
     (r, m, s) \<leftarrow> mutex_lock_section m s;
     if r = Waits then map_option (\<lambda>s. (r, m, s)) (scheduler_yield s) else Some (r, m, s)
   }"

definition mutex_trylock :: "mutex_t \<Rightarrow> sched \<Rightarrow> bool \<times> mutex_t" where
  "mutex_trylock m s =
     (case current_running_task s of
        None \<Rightarrow> (False, m)
      | Some c \<Rightarrow>
          let pid = t_pid (tk s c) in
          if m_locked m \<and> m_owner_pid m = pid \<and> m_flags m AND MUTEX_FLAG_RECURSIVE \<noteq> 0
          then (True, m\<lparr>m_lock_count := m_lock_count m + 1\<rparr>)
          else if \<not> m_locked m then (True, acquire pid m)
          else (False, m))"

definition shift_waiters :: "mutex_t \<Rightarrow> mutex_t" where
  "shift_waiters m = m\<lparr>m_waiters := shift_from 0 (unat (m_num_waiters m) - 1) (m_waiters m),
     m_waiter_gens := shift_from 0 (unat (m_num_waiters m) - 1) (m_waiter_gens m), m_num_waiters := m_num_waiters m - 1\<rparr>"

fun hand_over :: "nat \<Rightarrow> mutex_t \<Rightarrow> sched \<Rightarrow> (bool \<times> mutex_t \<times> sched) option" where
  \<comment> \<open>the loop over the waiters, at most \<open>k\<close> of them dead\<close>
  "hand_over k m s =
     (if m_num_waiters m = 0 then Some (False, m, s)
      else
        let waiter_pid = m_waiters m ! 0; waiter_gen = m_waiter_gens m ! 0; m = shift_waiters m in
        case task_get_validated waiter_pid waiter_gen s of
          Some w \<Rightarrow> map_option (\<lambda>s. (True, m\<lparr>m_owner_pid := waiter_pid, m_lock_count := 1\<rparr>, s)) (scheduler_wakeup_task (Some w) s)
        | None \<Rightarrow> (case k of 0 \<Rightarrow> None | Suc k' \<Rightarrow> hand_over k' m s))"

declare hand_over.simps [simp del]

definition mutex_unlock :: "mutex_t \<Rightarrow> sched \<Rightarrow> (int \<times> mutex_t \<times> sched) option" where
  "mutex_unlock m s =
     (case current_running_task s of
        None \<Rightarrow> Some (0, release m, s)
      | Some c \<Rightarrow>
          if \<not> m_locked m \<or> m_owner_pid m \<noteq> t_pid (tk s c) then Some (- 1, m, s)
          else if m_lock_count m > 1 then Some (0, m\<lparr>m_lock_count := m_lock_count m - 1\<rparr>, s)
          else do {
            (transferred, m, s) \<leftarrow> hand_over (unat (m_num_waiters m)) m s;
            Some (0, if transferred then m else release m, s)
          })"

definition mutex_is_locked :: "mutex_t \<Rightarrow> bool" where
  "mutex_is_locked m = m_locked m"

definition mutex_get_owner :: "mutex_t \<Rightarrow> u32" where
  "mutex_get_owner m = m_owner_pid m"

definition mutex_destroy :: "mutex_t \<Rightarrow> mutex_t" where
  "mutex_destroy m = (release m)\<lparr>m_num_waiters := 0\<rparr>"

section \<open>The queue of waiters\<close>

definition mutex_ok :: "mutex_t \<Rightarrow> bool" where
  "mutex_ok m \<longleftrightarrow> length (m_waiters m) = 16 \<and> length (m_waiter_gens m) = 16 \<and> m_num_waiters m \<le> 16"

definition queue :: "mutex_t \<Rightarrow> (u32 \<times> u32) list" where
  "queue m = take (unat (m_num_waiters m)) (zip (m_waiters m) (m_waiter_gens m))"

lemma mutex_ok_num: "mutex_ok m \<Longrightarrow> unat (m_num_waiters m) \<le> 16"
  by (simp add: mutex_ok_def word_le_nat_alt)

lemma queue_length: "mutex_ok m \<Longrightarrow> length (queue m) = unat (m_num_waiters m)"
  using mutex_ok_num [of m] by (simp add: queue_def mutex_ok_def)

lemma queue_sel [simp]: "queue (acquire p m) = queue m" "mutex_ok (acquire p m) = mutex_ok m" "queue (release m) = queue m" "mutex_ok (release m) = mutex_ok m"
  "queue (m\<lparr>m_lock_count := n\<rparr>) = queue m" "mutex_ok (m\<lparr>m_lock_count := n\<rparr>) = mutex_ok m"
  "queue (m\<lparr>m_owner_pid := p\<rparr>) = queue m" "mutex_ok (m\<lparr>m_owner_pid := p\<rparr>) = mutex_ok m"
  by (simp_all add: queue_def mutex_ok_def acquire_def release_def)

lemma queue_push:
  assumes "mutex_ok m" and "m_num_waiters m < 16"
  shows "queue (push_waiter e m) = queue m @ [e]" and "mutex_ok (push_waiter e m)"
proof -
  let ?n = "unat (m_num_waiters m)"
  have n: "?n < 16" using assms(2) by (simp add: word_less_nat_alt)
  then have u: "unat (m_num_waiters m + 1) = Suc ?n" by (simp add: unat_u32_inc)
  have "zip ((m_waiters m)[?n := fst e]) ((m_waiter_gens m)[?n := snd e]) = (zip (m_waiters m) (m_waiter_gens m))[?n := e]"
    by (simp add: zip_update)
  then show "queue (push_waiter e m) = queue m @ [e]"
    using assms(1) n by (simp add: queue_def push_waiter_def u take_push mutex_ok_def)
  show "mutex_ok (push_waiter e m)" using assms(1) n u by (simp add: mutex_ok_def push_waiter_def word_le_nat_alt)
qed

lemma shift_from_zip: "length xs = length ys \<Longrightarrow> i + k < length xs \<Longrightarrow> shift_from i k (zip xs ys) = zip (shift_from i k xs) (shift_from i k ys)"
  by (induction i k xs arbitrary: ys rule: shift_from.induct) (auto simp: update_zip)

lemma queue_shift:
  assumes "mutex_ok m" and "m_num_waiters m \<noteq> 0"
  shows "queue m = (m_waiters m ! 0, m_waiter_gens m ! 0) # queue (shift_waiters m)" and "mutex_ok (shift_waiters m)"
proof -
  let ?n = "unat (m_num_waiters m)" and ?z = "zip (m_waiters m) (m_waiter_gens m)"
  have n: "0 < ?n" "?n \<le> 16" using assms mutex_ok_num [of m] by (auto simp: unat_gt_0)
  have u: "unat (m_num_waiters m - 1) = ?n - 1" using unat_u32_dec [OF assms(2)] by simp
  have "queue (shift_waiters m) = take (?n - 1) (shift_from 0 (?n - 1) ?z)"
    using assms(1) n by (simp add: queue_def shift_waiters_def u mutex_ok_def shift_from_zip)
  also have "\<dots> = drop 1 (take ?n ?z)" using take_shift [of 0 ?n ?z] assms(1) n by (simp add: mutex_ok_def)
  finally have "queue (shift_waiters m) = tl (queue m)" by (simp add: queue_def drop_Suc)
  moreover have "queue m \<noteq> []" using queue_length [OF assms(1)] n by auto
  moreover have "hd (queue m) = (m_waiters m ! 0, m_waiter_gens m ! 0)"
    using assms(1) n by (cases "m_waiters m"; cases "m_waiter_gens m") (auto simp: queue_def hd_take mutex_ok_def)
  ultimately show "queue m = (m_waiters m ! 0, m_waiter_gens m ! 0) # queue (shift_waiters m)" by (cases "queue m") auto
  show "mutex_ok (shift_waiters m)" using assms(1) n u by (simp add: mutex_ok_def shift_waiters_def word_le_nat_alt)
qed

interpretation mq: fifo_queue mutex_ok queue 16 push_waiter "\<lambda>m. (m_waiters m ! 0, m_waiter_gens m ! 0)" shift_waiters
proof
  fix m :: mutex_t and e :: "u32 \<times> u32"
  assume ok: "mutex_ok m"
  show "mutex_ok (push_waiter e m)" "queue (push_waiter e m) = queue m @ [e]" if "length (queue m) < 16"
    using queue_push [OF ok] that queue_length [OF ok] by (simp_all add: word_less_nat_alt)
  show "mutex_ok (shift_waiters m)" "queue m = (m_waiters m ! 0, m_waiter_gens m ! 0) # queue (shift_waiters m)" if "queue m \<noteq> []"
    using queue_shift [OF ok] queue_length [OF ok] that by (cases "m_num_waiters m = 0", auto)+
qed

lemma shift_waiters_sel [simp]: "m_locked (shift_waiters m) = m_locked m" "m_owner_pid (shift_waiters m) = m_owner_pid m"
  "m_lock_count (shift_waiters m) = m_lock_count m" "m_flags (shift_waiters m) = m_flags m"
  by (simp_all add: shift_waiters_def)

definition found :: "sched \<Rightarrow> u32 \<times> u32 \<Rightarrow> nat option" where
  \<comment> \<open>the task a queue entry stands for\<close>
  "found s e = task_get_validated (fst e) (snd e) s"

lemma hand_over_fifo:
  assumes "mutex_ok m" and "unat (m_num_waiters m) \<le> k"
  shows "case dropWhile (\<lambda>e. found s e = None) (queue m) of
      [] \<Rightarrow> \<exists>m'. hand_over k m s = Some (False, m', s) \<and> mutex_ok m' \<and> queue m' = []
    | e # r \<Rightarrow> \<exists>m'. hand_over k m s = map_option (\<lambda>s'. (True, m', s')) (scheduler_wakeup_task (found s e) s) \<and>
        mutex_ok m' \<and> queue m' = r \<and> m_locked m' = m_locked m \<and> m_owner_pid m' = fst e \<and> m_lock_count m' = 1"
  using assms
proof (induction k arbitrary: m)
  case 0
  then have "m_num_waiters m = 0" by (simp add: unat_eq_zero)
  then have "queue m = []" by (simp add: queue_def)
  then show ?case using 0 \<open>m_num_waiters m = 0\<close> by (subst hand_over.simps) simp
next
  case (Suc k)
  show ?case
  proof (cases "m_num_waiters m = 0")
    case True
    then have "queue m = []" by (simp add: queue_def)
    then show ?thesis using True Suc.prems(1) by (subst hand_over.simps) simp
  next
    case False
    let ?e = "(m_waiters m ! 0, m_waiter_gens m ! 0)"
    note sh = queue_shift [OF Suc.prems(1) False]
    show ?thesis
    proof (cases "found s ?e")
      case None
      have "unat (m_num_waiters (shift_waiters m)) \<le> k"
        using Suc.prems(2) unat_u32_dec [OF False] by (simp add: shift_waiters_def)
      moreover have "hand_over (Suc k) m s = hand_over k (shift_waiters m) s"
        using None False by (subst hand_over.simps) (simp add: found_def Let_def)
      ultimately show ?thesis using Suc.IH [OF sh(2)] sh(1) None
        by (cases "dropWhile (\<lambda>e. found s e = None) (queue (shift_waiters m))")
          (simp_all del: dropWhile_eq_Nil_conv)
    next
      case (Some w)
      have "hand_over (Suc k) m s = map_option (\<lambda>s'. (True, (shift_waiters m)\<lparr>m_owner_pid := fst ?e, m_lock_count := 1\<rparr>, s'))
        (scheduler_wakeup_task (Some w) s)"
        using Some False by (subst hand_over.simps) (simp add: found_def Let_def)
      then show ?thesis
        using Some sh by (auto intro!: exI [of _ "(shift_waiters m)\<lparr>m_owner_pid := fst ?e, m_lock_count := 1\<rparr>"])
    qed
  qed
qed

end
