(* ===== verification/Mutex_Props.thy ===== *)
theory Mutex_Props
  imports Mutex Sched_Props
begin

text \<open>
  Properties of the mutexes: first-in first-out hand-over of ownership, and mutual exclusion in
  every history of mutex and scheduler operations.
\<close>

section \<open>Operations in a running system\<close>

lemma found_slot: "found s e = Some w \<Longrightarrow> w < 32 \<and> ident (tk s w) = e \<and> t_state (tk s w) \<noteq> TASK_STATE_TERMINATED"
  by (auto simp: found_def task_get_validated_def find_Some_iff ident_def)

lemma found_None: "found s e = None \<longleftrightarrow> (\<forall>i < 32. t_state (tk s i) \<noteq> TASK_STATE_TERMINATED \<longrightarrow> ident (tk s i) \<noteq> e)"
  by (auto simp: found_def task_get_validated_def find_None_iff ident_def prod_eq_iff)

lemma wakeup_inv:
  assumes "sched_inv b s" and "w < 32"
  shows "\<exists>s'. scheduler_wakeup_task (Some w) s = Some s' \<and> sched_inv b s'"
  using add_inv [OF assms] assms(1) by (auto simp: scheduler_wakeup_task_def)

type_synonym abs_mutex = "(u32 \<times> u32) option \<times> (u32 \<times> u32) list"

definition abs_mutex :: "mutex_t \<Rightarrow> abs_mutex" where
  \<comment> \<open>the owner with its depth, and the waiters\<close>
  "abs_mutex m = (if m_locked m then Some (m_owner_pid m, m_lock_count m) else None, queue m)"

fun lock_spec :: "bool \<Rightarrow> u32 \<times> u32 \<Rightarrow> abs_mutex \<Rightarrow> lock_outcome \<times> abs_mutex" where
  "lock_spec rec e (None, q) = (Returned 0, Some (fst e, 1), q)"
| "lock_spec rec e (Some (p, n), q) =
     (if p = fst e then (if rec then (Returned 0, Some (p, n + 1), q) else (Returned (- 1), Some (p, n), q))
      else (Waits, Some (p, n), q @ [e]))"

fun unlock_spec :: "(u32 \<times> u32 \<Rightarrow> bool) \<Rightarrow> u32 \<Rightarrow> abs_mutex \<Rightarrow> int \<times> (u32 \<times> u32) option \<times> abs_mutex" where
  \<comment> \<open>the result, the waiter that is woken, and the mutex after\<close>
  "unlock_spec dead pid (None, q) = (- 1, None, None, q)"
| "unlock_spec dead pid (Some (p, n), q) =
     (if p \<noteq> pid then (- 1, None, Some (p, n), q)
      else if n > 1 then (0, None, Some (p, n - 1), q)
      else case dropWhile dead q of [] \<Rightarrow> (0, None, None, []) | e # r \<Rightarrow> (0, Some e, Some (fst e, 1), r))"

lemma lock_refines:
  assumes inv: "sched_inv False s" and o: "others_ready s" and c: "current_running_task s = Some c"
    and m: "mutex_ok m" "m_num_waiters m < 16"
  shows "\<exists>r m' s'. mutex_lock_section m s = Some (r, m', s') \<and> mutex_ok m' \<and> m_flags m' = m_flags m \<and>
    (r, abs_mutex m') = lock_spec (m_flags m AND 1 \<noteq> 0) (ident (tk s c)) (abs_mutex m) \<and>
    (if r = Waits then scheduler_block_task (Some c) s = Some s' else s' = s)"
proof -
  obtain s1 where s1: "scheduler_block_task (Some c) s = Some s1" using block_ok [OF inv o c] by blast
  note q = queue_push [OF m, of "ident (tk s c)"]
  show ?thesis
    using c s1 m q by (auto simp: mutex_lock_section_def abs_mutex_def ident_def Let_def acquire_def push_waiter_def not_le [symmetric] mutex_ok_def queue_def)
qed

lemma unlock_refines:
  assumes inv: "sched_inv False s" and c: "current_running_task s = Some c" and m: "mutex_ok m"
  shows "\<exists>i w m' s'. mutex_unlock m s = Some (i, m', s') \<and> mutex_ok m' \<and> sched_inv False s' \<and>
    (i, w, abs_mutex m') = unlock_spec (\<lambda>e. found s e = None) (t_pid (tk s c)) (abs_mutex m) \<and>
    (case w of None \<Rightarrow> s' = s | Some e \<Rightarrow> scheduler_wakeup_task (found s e) s = Some s' \<and> found s e \<noteq> None)"
proof (cases "m_locked m \<and> m_owner_pid m = t_pid (tk s c) \<and> \<not> m_lock_count m > 1")
  case False
  then show ?thesis using c m inv by (auto simp: mutex_unlock_def abs_mutex_def)
next
  case True
  let ?d = "dropWhile (\<lambda>e. found s e = None) (queue m)"
  note h = hand_over_fifo [OF m order.refl, of s]
  show ?thesis
  proof (cases ?d)
    case Nil
    then obtain m' where "hand_over (unat (m_num_waiters m)) m s = Some (False, m', s)" "mutex_ok m'" "queue m' = []"
      using h by (auto simp del: dropWhile_eq_Nil_conv)
    then show ?thesis using True c inv Nil
      by (auto simp: mutex_unlock_def abs_mutex_def release_def queue_def mutex_ok_def simp del: dropWhile_eq_Nil_conv)
  next
    case (Cons e r)
    then have "found s e \<noteq> None" using hd_dropWhile [of "\<lambda>e. found s e = None" "queue m"] by simp
    then obtain w where w: "found s e = Some w" by blast
    obtain s' where s': "scheduler_wakeup_task (Some w) s = Some s'" "sched_inv False s'"
      using wakeup_inv [OF inv] found_slot [OF w] by blast
    obtain m' where m': "hand_over (unat (m_num_waiters m)) m s = map_option (\<lambda>s'. (True, m', s')) (scheduler_wakeup_task (found s e) s)"
      "mutex_ok m'" "queue m' = r" "m_locked m' = m_locked m" "m_owner_pid m' = fst e" "m_lock_count m' = 1"
      using h Cons by auto
    have "mutex_unlock m s = Some (0, m', s')" using True c m'(1) w s'(1) by (simp add: mutex_unlock_def)
    then show ?thesis
      using True m' s' w Cons by (intro exI [of _ 0] exI [of _ "Some e"] exI [of _ m'] exI [of _ s']) (simp add: abs_mutex_def)
  qed
qed

text \<open>
  C10: The mutex hands its lock over in order. On a state with a running task, \<^verbatim>\<open>mutex_lock\<close> and
  \<^verbatim>\<open>mutex_unlock\<close> refine a lock with a first-in first-out queue of waiters. A lock takes a free mutex,
  deepens or refuses one the caller owns, and otherwise appends the caller to the queue and blocks it.
  An unlock fails for everybody but the owner, undoes one level of a recursive lock, and otherwise
  gives the mutex to the first waiter whose PID and generation still name a task, drops the dead
  waiters before it, keeps the rest in order and wakes just that waiter; without one the mutex is free
  and the queue empty. The arrays of sixteen waiters with their shifting loop compute the list operations.
\<close>

theorem mutex_refines_fifo:
  assumes "sched_inv False s" and "others_ready s" and "current_running_task s = Some c" and "mutex_ok m" and "m_num_waiters m < 16"
  shows "(\<exists>r m' s'. mutex_lock_section m s = Some (r, m', s') \<and> mutex_ok m' \<and>
      (r, abs_mutex m') = lock_spec (m_flags m AND 1 \<noteq> 0) (ident (tk s c)) (abs_mutex m) \<and>
      (if r = Waits then scheduler_block_task (Some c) s = Some s' else s' = s)) \<and>
    (\<exists>i w m' s'. mutex_unlock m s = Some (i, m', s') \<and> mutex_ok m' \<and>
      (i, w, abs_mutex m') = unlock_spec (\<lambda>e. found s e = None) (t_pid (tk s c)) (abs_mutex m) \<and>
      (case w of None \<Rightarrow> s' = s | Some e \<Rightarrow> scheduler_wakeup_task (found s e) s = Some s'))"
  using lock_refines [OF assms] unlock_refines [OF assms(1,3,4)] by (fastforce split: option.splits)

section \<open>Mutual exclusion\<close>

definition pids_ok :: "sched \<Rightarrow> bool" where
  \<comment> \<open>what \<^verbatim>\<open>task_alloc_pid\<close> provides: PIDs in use are different\<close>
  "pids_ok s \<longleftrightarrow> (\<forall>i < 32. \<forall>j < 32. t_state (tk s i) \<noteq> TASK_STATE_TERMINATED \<longrightarrow> t_state (tk s j) \<noteq> TASK_STATE_TERMINATED \<longrightarrow>
     t_pid (tk s i) = t_pid (tk s j) \<longrightarrow> i = j)"

definition owns :: "mutex_t \<Rightarrow> tcb \<Rightarrow> bool" where
  "owns m k \<longleftrightarrow> m_locked m \<and> m_owner_pid m = t_pid k"

record msys =
  ms_mutex :: mutex_t
  ms_sched :: sched
  ms_leaving :: bool
  inside :: "nat set" \<comment> \<open>tasks between the return of a lock and the last unlock\<close>
  waiting :: "nat set" \<comment> \<open>tasks in \<^verbatim>\<open>mutex_lock\<close> after its critical section\<close>

datatype mutex_op = Lock | Trylock | Unlock | Resume | Sched sched_op

abbreviation (input) current_is :: "(nat \<Rightarrow> bool) \<Rightarrow> sched \<Rightarrow> bool" where
  "current_is P s \<equiv> case current_running_task s of None \<Rightarrow> True | Some c \<Rightarrow> P c"

definition mutex_allowed :: "mutex_op \<Rightarrow> msys \<Rightarrow> bool" where
  "mutex_allowed op st = (let m = ms_mutex st; s = ms_sched st in case op of
     Lock \<Rightarrow> \<not> ms_leaving st \<and> others_ready s \<and> current_is (\<lambda>c. c \<notin> waiting st) s \<and>
       m_lock_count m < 0xFFFFFFFF \<and> m_num_waiters m < 16
   | Trylock \<Rightarrow> \<not> ms_leaving st \<and> current_is (\<lambda>c. c \<notin> waiting st) s \<and> m_lock_count m < 0xFFFFFFFF
   | Unlock \<Rightarrow> \<not> ms_leaving st \<and> current_is (\<lambda>c. c \<notin> waiting st) s
   | Resume \<Rightarrow> \<not> ms_leaving st \<and> current_is (\<lambda>c. c \<in> waiting st) s
   | Sched sop \<Rightarrow> allowed sop (s, ms_leaving st) \<and> (case sop of
       Block \<Rightarrow> current_is (\<lambda>c. c \<notin> waiting st) s
     | Sleep now ticks \<Rightarrow> current_is (\<lambda>c. c \<notin> waiting st) s
     | Exit \<Rightarrow> current_is (\<lambda>c. c \<notin> waiting st \<and> \<not> owns m (tk s c)) s
     | Fault \<Rightarrow> current_is (\<lambda>c. c \<notin> waiting st \<and> \<not> owns m (tk s c)) s
     | Add t \<Rightarrow> t \<notin> waiting st
     | Wake t \<Rightarrow> t \<notin> waiting st
     | Kill t \<Rightarrow> \<not> owns m (tk s t)
     | Spawn k \<Rightarrow> t_pid k \<notin> fst ` set (queue m) \<and> list_all (\<lambda>i. t_state (tk s i) = TASK_STATE_TERMINATED \<or> t_pid (tk s i) \<noteq> t_pid k) [0..<32]
     | _ \<Rightarrow> True))"

definition mutex_exec :: "mutex_op \<Rightarrow> msys \<Rightarrow> msys option" where
  "mutex_exec op st = (let m = ms_mutex st; s = ms_sched st; c = the (current_running_task s) in case op of
     Lock \<Rightarrow> map_option (\<lambda>(r, m', s'). case r of
         Returned i \<Rightarrow> st\<lparr>ms_mutex := m', ms_sched := s', inside := (if i = 0 then insert c (inside st) else inside st)\<rparr>
       | Waits \<Rightarrow> st\<lparr>ms_mutex := m', ms_sched := s', ms_leaving := True, waiting := insert c (waiting st)\<rparr>) (mutex_lock_section m s)
   | Trylock \<Rightarrow> (let (r, m') = mutex_trylock m s in
       Some (st\<lparr>ms_mutex := m', inside := (if r then insert c (inside st) else inside st)\<rparr>))
   | Unlock \<Rightarrow> map_option (\<lambda>(i, m', s'). st\<lparr>ms_mutex := m', ms_sched := s',
         inside := (if i = 0 \<and> \<not> m_lock_count m > 1 then inside st - {c} else inside st)\<rparr>) (mutex_unlock m s)
   | Resume \<Rightarrow> Some (st\<lparr>inside := insert c (inside st), waiting := waiting st - {c}\<rparr>)
   | Sched sop \<Rightarrow> map_option (\<lambda>(s', b'). st\<lparr>ms_sched := s', ms_leaving := b',
         waiting := (case sop of Kill t \<Rightarrow> waiting st - {t} | _ \<Rightarrow> waiting st)\<rparr>) (sched_exec sop (s, ms_leaving st)))"

definition mutex_inv :: "mutex_t \<Rightarrow> sched \<Rightarrow> nat set \<Rightarrow> nat set \<Rightarrow> bool" where
  "mutex_inv m s I W \<longleftrightarrow> mutex_ok m \<and> pids_ok s \<and> distinct (queue m) \<and>
     (\<forall>i \<in> I. i < 32 \<and> alive (t_state (tk s i)) \<and> owns m (tk s i)) \<and>
     (\<forall>w \<in> W. w < 32 \<and> alive (t_state (tk s w)) \<and> w \<notin> I \<and>
        (t_state (tk s w) = TASK_STATE_BLOCKED \<longrightarrow> ident (tk s w) \<in> set (queue m)) \<and>
        (t_state (tk s w) \<noteq> TASK_STATE_BLOCKED \<longrightarrow> owns m (tk s w) \<and> I = {})) \<and>
     (\<forall>i < 32. t_state (tk s i) \<noteq> TASK_STATE_TERMINATED \<longrightarrow> ident (tk s i) \<in> set (queue m) \<longrightarrow>
        i \<in> W \<and> t_state (tk s i) = TASK_STATE_BLOCKED) \<and>
     (m_locked m \<longrightarrow> m_lock_count m \<noteq> 0 \<and> (\<exists>i < 32. alive (t_state (tk s i)) \<and> owns m (tk s i) \<and>
        (i \<in> I \<or> i \<in> W \<and> t_state (tk s i) \<noteq> TASK_STATE_BLOCKED)))"

definition kept :: "tcb \<Rightarrow> tcb \<Rightarrow> bool" where
  "kept k k' \<longleftrightarrow> (t_state k' \<noteq> TASK_STATE_TERMINATED \<longrightarrow> t_state k \<noteq> TASK_STATE_TERMINATED \<and> ident k' = ident k)"

lemma calm1_kept: "calm1 k k' \<Longrightarrow> kept k k'"
  by (auto simp: calm1_def kept_def alive_def split: if_splits)

lemma alive_not_terminated: "alive st \<Longrightarrow> st \<noteq> TASK_STATE_TERMINATED"
  by (auto simp: alive_def)

lemma owns_ident: "ident k' = ident k \<Longrightarrow> owns m k' = owns m k"
  by (simp add: owns_def ident_def)

lemma keptD: "kept k k' \<Longrightarrow> t_state k' \<noteq> TASK_STATE_TERMINATED \<Longrightarrow> t_state k \<noteq> TASK_STATE_TERMINATED \<and> t_pid k' = t_pid k"
  by (simp add: kept_def ident_def)

lemma pids_kept:
  assumes "pids_ok s" and kept: "\<And>i. i < 32 \<Longrightarrow> kept (tk s i) (tk s' i)"
  shows "pids_ok s'"
  unfolding pids_ok_def
proof (intro allI impI)
  fix i j assume a: "i < 32" "j < 32" "t_state (tk s' i) \<noteq> TASK_STATE_TERMINATED" "t_state (tk s' j) \<noteq> TASK_STATE_TERMINATED"
    "t_pid (tk s' i) = t_pid (tk s' j)"
  have i: "t_state (tk s i) \<noteq> TASK_STATE_TERMINATED \<and> t_pid (tk s' i) = t_pid (tk s i)" by (rule keptD [OF kept [OF a(1)] a(3)])
  have j: "t_state (tk s j) \<noteq> TASK_STATE_TERMINATED \<and> t_pid (tk s' j) = t_pid (tk s j)" by (rule keptD [OF kept [OF a(2)] a(4)])
  have "t_pid (tk s i) = t_pid (tk s j)" using i j a(5) by simp
  then show "i = j" using i j a(1,2) assms(1) unfolding pids_ok_def by blast
qed

lemma mutex_invD:
  assumes "mutex_inv m s I W"
  shows "mutex_ok m" "pids_ok s" "distinct (queue m)"
    "i \<in> I \<Longrightarrow> i < 32 \<and> alive (t_state (tk s i)) \<and> owns m (tk s i)"
    "w \<in> W \<Longrightarrow> w < 32 \<and> alive (t_state (tk s w)) \<and> w \<notin> I"
    "w \<in> W \<Longrightarrow> t_state (tk s w) = TASK_STATE_BLOCKED \<Longrightarrow> ident (tk s w) \<in> set (queue m)"
    "w \<in> W \<Longrightarrow> t_state (tk s w) \<noteq> TASK_STATE_BLOCKED \<Longrightarrow> owns m (tk s w) \<and> I = {}"
    "i < 32 \<Longrightarrow> t_state (tk s i) \<noteq> TASK_STATE_TERMINATED \<Longrightarrow> ident (tk s i) \<in> set (queue m) \<Longrightarrow> i \<in> W \<and> t_state (tk s i) = TASK_STATE_BLOCKED"
    "m_locked m \<Longrightarrow> m_lock_count m \<noteq> 0"
    "m_locked m \<Longrightarrow> \<exists>i < 32. alive (t_state (tk s i)) \<and> owns m (tk s i) \<and> (i \<in> I \<or> i \<in> W \<and> t_state (tk s i) \<noteq> TASK_STATE_BLOCKED)"
  using assms unfolding mutex_inv_def by blast+

lemma mutex_invI:
  assumes "mutex_ok m" "pids_ok s" "distinct (queue m)"
    and "\<And>i. i \<in> I \<Longrightarrow> i < 32 \<and> alive (t_state (tk s i)) \<and> owns m (tk s i)"
    and "\<And>w. w \<in> W \<Longrightarrow> w < 32 \<and> alive (t_state (tk s w)) \<and> w \<notin> I"
    and "\<And>w. w \<in> W \<Longrightarrow> t_state (tk s w) = TASK_STATE_BLOCKED \<Longrightarrow> ident (tk s w) \<in> set (queue m)"
    and "\<And>w. w \<in> W \<Longrightarrow> t_state (tk s w) \<noteq> TASK_STATE_BLOCKED \<Longrightarrow> owns m (tk s w) \<and> I = {}"
    and "\<And>i. i < 32 \<Longrightarrow> t_state (tk s i) \<noteq> TASK_STATE_TERMINATED \<Longrightarrow> ident (tk s i) \<in> set (queue m) \<Longrightarrow> i \<in> W \<and> t_state (tk s i) = TASK_STATE_BLOCKED"
    and "m_locked m \<Longrightarrow> m_lock_count m \<noteq> 0"
    and "m_locked m \<Longrightarrow> \<exists>i < 32. alive (t_state (tk s i)) \<and> owns m (tk s i) \<and> (i \<in> I \<or> i \<in> W \<and> t_state (tk s i) \<noteq> TASK_STATE_BLOCKED)"
  shows "mutex_inv m s I W"
  unfolding mutex_inv_def by (intro conjI ballI allI impI) (use assms in blast)+

lemma mutex_inv_frame:
  \<comment> \<open>a step of the scheduler; \<open>W - W'\<close> are killed waiters\<close>
  assumes inv: "mutex_inv m s I W" and pids: "pids_ok s'" and sub: "W' \<subseteq> W"
    and kept: "\<And>i. i < 32 \<Longrightarrow> kept (tk s i) (tk s' i) \<or> t_pid (tk s' i) \<notin> fst ` set (queue m)"
    and I: "\<And>i. i \<in> I \<Longrightarrow> alive (t_state (tk s' i)) \<and> ident (tk s' i) = ident (tk s i)"
    and W: "\<And>w. w \<in> W' \<Longrightarrow> calm1 (tk s w) (tk s' w)"
    and killed: "\<And>w. w \<in> W - W' \<Longrightarrow> t_state (tk s' w) = TASK_STATE_TERMINATED \<and> \<not> owns m (tk s w)"
  shows "mutex_inv m s' I W'"
proof -
  note d = mutex_invD [OF inv]
  have w: "alive (t_state (tk s' w)) \<and> ident (tk s' w) = ident (tk s w) \<and> (t_state (tk s' w) = TASK_STATE_BLOCKED \<longleftrightarrow> t_state (tk s w) = TASK_STATE_BLOCKED)"
    if "w \<in> W'" for w using W [OF that] d(5) [of w] sub that by (auto simp: calm1_def)
  show ?thesis
  proof (rule mutex_invI [OF d(1) pids d(3)])
    fix i assume "i \<in> I"
    then show "i < 32 \<and> alive (t_state (tk s' i)) \<and> owns m (tk s' i)" using d(4) I owns_ident by blast
  next
    fix w assume "w \<in> W'"
    then show "w < 32 \<and> alive (t_state (tk s' w)) \<and> w \<notin> I" using d(5) w sub by blast
  next
    fix v assume "v \<in> W'" "t_state (tk s' v) = TASK_STATE_BLOCKED"
    then show "ident (tk s' v) \<in> set (queue m)" using d(6) [of v] w [of v] sub by auto
  next
    fix v assume "v \<in> W'" "t_state (tk s' v) \<noteq> TASK_STATE_BLOCKED"
    then show "owns m (tk s' v) \<and> I = {}" using d(7) [of v] w [of v] sub owns_ident by blast
  next
    fix i assume i: "i < 32" "t_state (tk s' i) \<noteq> TASK_STATE_TERMINATED" "ident (tk s' i) \<in> set (queue m)"
    then have "t_pid (tk s' i) \<in> fst ` set (queue m)" by (force simp: ident_def)
    then have "kept (tk s i) (tk s' i)" using kept [OF i(1)] by blast
    then have "i \<in> W \<and> t_state (tk s i) = TASK_STATE_BLOCKED" using i d(8) [of i] by (auto simp: kept_def)
    then show "i \<in> W' \<and> t_state (tk s' i) = TASK_STATE_BLOCKED" using killed [of i] w [of i] i(2) by blast
  next
    assume l: "m_locked m"
    then show "m_lock_count m \<noteq> 0" by (rule d(9))
    obtain i where i: "i < 32" "alive (t_state (tk s i))" "owns m (tk s i)" "i \<in> I \<or> i \<in> W \<and> t_state (tk s i) \<noteq> TASK_STATE_BLOCKED"
      using d(10) [OF l] by blast
    have "i \<in> I \<or> i \<in> W' \<and> t_state (tk s' i) \<noteq> TASK_STATE_BLOCKED" using i(3,4) killed [of i] w [of i] by blast
    moreover from this have "alive (t_state (tk s' i))" "owns m (tk s' i)" using i(3) I [of i] w [of i] owns_ident by blast+
    ultimately show "\<exists>i < 32. alive (t_state (tk s' i)) \<and> owns m (tk s' i) \<and> (i \<in> I \<or> i \<in> W' \<and> t_state (tk s' i) \<noteq> TASK_STATE_BLOCKED)"
      using i(1) by blast
  qed
qed

lemma calm1_alive: "calm1 k k' \<Longrightarrow> alive (t_state k) \<Longrightarrow> alive (t_state k') \<and> ident k' = ident k"
  by (simp add: calm1_def)

lemma inv_calm:
  \<comment> \<open>nobody but the slots of \<open>T\<close> changes, and these keep their identity or end\<close>
  assumes inv: "mutex_inv m s I W" and calm: "calm T s s'" and W: "T \<inter> W = {}"
    and T: "\<And>i. i \<in> T \<Longrightarrow> i < 32 \<Longrightarrow> kept (tk s i) (tk s' i) \<and> (i \<in> I \<longrightarrow> alive (t_state (tk s' i)) \<and> ident (tk s' i) = ident (tk s i))"
  shows "mutex_inv m s' I W"
proof -
  note d = mutex_invD [OF inv]
  have k: "kept (tk s i) (tk s' i)" if "i < 32" for i
    using T [of i] calm1_kept [OF calmD [OF calm that]] that by blast
  show ?thesis
  proof (rule mutex_inv_frame [OF inv])
    show "pids_ok s'" by (rule pids_kept [OF d(2) k])
    fix i assume "i \<in> I"
    then show "alive (t_state (tk s' i)) \<and> ident (tk s' i) = ident (tk s i)"
      using d(4) [of i] T [of i] calm1_alive [OF calmD [OF calm, of i]] by blast
  next
    fix w assume "w \<in> W"
    then show "calm1 (tk s w) (tk s' w)" using d(5) [of w] W calmD [OF calm, of w] by blast
  qed (use k in auto)
qed

lemma inv_kill:
  assumes inv: "mutex_inv m s I W" and calm: "calm {t} s s'" and t: "t_state (tk s' t) = TASK_STATE_TERMINATED" "\<not> owns m (tk s t)"
  shows "mutex_inv m s' I (W - {t})"
proof -
  note d = mutex_invD [OF inv]
  have k: "kept (tk s i) (tk s' i)" if "i < 32" for i
    using t(1) calm1_kept [OF calmD [OF calm that]] by (cases "i = t") (auto simp: kept_def)
  have tI: "t \<notin> I" using d(4) t(2) by blast
  show ?thesis
  proof (rule mutex_inv_frame [OF inv])
    show "pids_ok s'" by (rule pids_kept [OF d(2) k])
    fix i assume i: "i \<in> I"
    then show "alive (t_state (tk s' i)) \<and> ident (tk s' i) = ident (tk s i)"
      using d(4) [OF i] calm1_alive [OF calmD [OF calm, of i]] tI by blast
  next
    fix w assume "w \<in> W - {t}"
    then show "calm1 (tk s w) (tk s' w)" using d(5) [of w] calmD [OF calm, of w] by blast
  qed (use k t in auto)
qed

lemma inv_spawn:
  assumes inv: "mutex_inv m s I W" and calm: "calm {t} s s'" and t: "t < 32" "t_state (tk s t) = TASK_STATE_TERMINATED"
    and fresh: "t_pid (tk s' t) \<notin> fst ` set (queue m)"
      "\<forall>i < 32. t_state (tk s i) \<noteq> TASK_STATE_TERMINATED \<longrightarrow> t_pid (tk s i) \<noteq> t_pid (tk s' t)"
  shows "mutex_inv m s' I W"
proof -
  note d = mutex_invD [OF inv]
  have k: "kept (tk s i) (tk s' i)" if "i < 32" "i \<noteq> t" for i using calm1_kept [OF calmD [OF calm that(1)]] that(2) by simp
  have old: "t_pid (tk s' i) \<noteq> t_pid (tk s' t)" if "i < 32" "i \<noteq> t" "t_state (tk s' i) \<noteq> TASK_STATE_TERMINATED" for i
    using keptD [OF k [OF that(1,2)] that(3)] fresh(2) that(1) by simp
  have p: "i = j" if "i < 32" "j < 32" "t_state (tk s' i) \<noteq> TASK_STATE_TERMINATED" "t_state (tk s' j) \<noteq> TASK_STATE_TERMINATED"
    "t_pid (tk s' i) = t_pid (tk s' j)" for i j
  proof (cases "i = t \<or> j = t")
    case True
    then show ?thesis using that old [of i] old [of j] by metis
  next
    case False
    then show ?thesis using keptD [OF k [OF that(1)] that(3)] keptD [OF k [OF that(2)] that(4)] that(1,2,5) d(2)
      unfolding pids_ok_def by metis
  qed
  have tn: "t \<notin> I" "t \<notin> W" using d(4) [of t] d(5) [of t] t(2) by auto
  show ?thesis
  proof (rule mutex_inv_frame [OF inv])
    show "pids_ok s'" unfolding pids_ok_def using p by blast
    fix i :: nat assume i: "i < 32"
    show "kept (tk s i) (tk s' i) \<or> t_pid (tk s' i) \<notin> fst ` set (queue m)" using k [OF i] fresh(1) by blast
  next
    fix i assume i: "i \<in> I"
    then have "i \<noteq> t" using tn by blast
    then show "alive (t_state (tk s' i)) \<and> ident (tk s' i) = ident (tk s i)"
      using d(4) [OF i] calm1_alive [OF calmD [OF calm, of i]] by blast
  next
    fix w assume w: "w \<in> W"
    then have "w \<noteq> t" using tn by blast
    then show "calm1 (tk s w) (tk s' w)" using d(5) [OF w] calmD [OF calm, of w] by blast
  qed auto
qed

lemma sched_step_inv:
  assumes inv: "mutex_inv m s I W" and si: "sched_inv b s"
    and al: "mutex_allowed (Sched op) \<lparr>ms_mutex = m, ms_sched = s, ms_leaving = b, inside = I, waiting = W\<rparr>"
    and e: "sched_exec op (s, b) = Some (s', b')"
  shows "mutex_inv m s' I (case op of Kill t \<Rightarrow> W - {t} | _ \<Rightarrow> W)"
proof -
  note d = mutex_invD [OF inv]
  have ops: "allowed op (s, b)" using al by (simp add: mutex_allowed_def Let_def)
  have calm: "calm (touched op s) s s'" and out: "\<And>i. i \<in> touched op s \<Longrightarrow> outcome op (tk s i) (tk s' i)"
    using exec_calm [OF si ops] e by (auto simp: wlp_def)
  obtain c where c: "current_running_task s = Some c" using si by (blast elim: sched_invE)
  have cur: "t_state (tk s c) \<noteq> TASK_STATE_TERMINATED" if "\<not> b"
    using current_active [OF _ c] si that by (cases b) (auto simp: active_def)
  have none: "mutex_inv m s' I W" if "touched op s = {}" using inv_calm [OF inv calm] that by simp
  have self: "mutex_inv m s' I W" if "touched op s = {c}" "c \<notin> W" "\<not> b" "outcome op (tk s c) (tk s' c) \<Longrightarrow>
      t_state (tk s' c) = TASK_STATE_BLOCKED \<and> ident (tk s' c) = ident (tk s c) \<or>
      c \<notin> I \<and> (t_state (tk s' c) = TASK_STATE_TERMINATED \<or> ident (tk s' c) = ident (tk s c))"
    using inv_calm [OF inv calm] that cur out by (auto simp: kept_def)
  have other: "mutex_inv m s' I W" if "touched op s = {t}" "t \<notin> W" "kept (tk s t) (tk s' t)"
    "t \<in> I \<Longrightarrow> alive (t_state (tk s' t)) \<and> ident (tk s' t) = ident (tk s t)" for t
    using inv_calm [OF inv calm] that by auto
  show ?thesis
  proof (cases op)
    case Block
    then show ?thesis using self al c ops by (auto simp: touched_def outcome_def mutex_allowed_def allowed_def Let_def)
  next
    case Exit
    have "c \<notin> I" if "\<not> owns m (tk s c)" using d(4) that by blast
    then show ?thesis using Exit self al c ops by (auto simp: touched_def outcome_def mutex_allowed_def allowed_def Let_def)
  next
    case Fault
    have "c \<notin> I" if "\<not> owns m (tk s c)" using d(4) that by blast
    then show ?thesis using Fault self al c ops by (auto simp: touched_def outcome_def mutex_allowed_def allowed_def Let_def)
  next
    case (Add t)
    then have "outcome (Add t) (tk s t) (tk s' t)" "alive (t_state (tk s t))" "t \<notin> W"
      using out al ops by (auto simp: touched_def mutex_allowed_def allowed_def Let_def)
    then show ?thesis using other [of t] Add alive_not_terminated by (auto simp: touched_def outcome_def kept_def)
  next
    case (Wake t)
    then have o: "outcome (Wake t) (tk s t) (tk s' t)" and tW: "t \<notin> W"
      using out al by (auto simp: touched_def mutex_allowed_def Let_def)
    have "kept (tk s t) (tk s' t)" using o by (auto simp: outcome_def kept_def split: if_splits)
    moreover have "alive (t_state (tk s' t)) \<and> ident (tk s' t) = ident (tk s t)" if "t \<in> I"
      using o d(4) [OF that] by (auto simp: outcome_def split: if_splits)
    ultimately show ?thesis using other [of t] Wake tW by (simp add: touched_def)
  next
    case (Kill t)
    then show ?thesis using inv_kill [OF inv, of t s'] calm out al by (auto simp: touched_def outcome_def mutex_allowed_def Let_def)
  next
    case (Spawn k)
    show ?thesis
    proof (cases "find (\<lambda>i. bit (free_slot_bitmap s) i) [0..<32]")
      case None
      then show ?thesis using none Spawn by (simp add: touched_def)
    next
      case (Some t)
      have t: "t < 32" using find_upt_SomeD [OF Some] by blast
      have "touched op s = {t}" using Some Spawn by (simp add: touched_def)
      moreover have f: "t_pid k \<notin> fst ` set (queue m)" "\<forall>i < 32. t_state (tk s i) \<noteq> TASK_STATE_TERMINATED \<longrightarrow> t_pid (tk s i) \<noteq> t_pid k"
        using al Spawn by (auto simp: mutex_allowed_def Let_def list_all_iff)
      ultimately show ?thesis
        using inv_spawn [OF inv, of t s'] calm out [of t] t Spawn by (simp add: outcome_def)
    qed
  qed (use none in \<open>auto simp: touched_def\<close>)
qed

section \<open>Steps of the mutex\<close>

lemma same_pid: "pids_ok s \<Longrightarrow> i < 32 \<Longrightarrow> j < 32 \<Longrightarrow> t_state (tk s i) \<noteq> TASK_STATE_TERMINATED \<Longrightarrow> t_state (tk s j) \<noteq> TASK_STATE_TERMINATED \<Longrightarrow>
    t_pid (tk s i) = t_pid (tk s j) \<Longrightarrow> i = j"
  unfolding pids_ok_def by blast

lemma owner_unique:
  assumes "mutex_inv m s I W" and "owns m (tk s i)" "owns m (tk s j)" and "i < 32" "j < 32"
    and "alive (t_state (tk s i))" "alive (t_state (tk s j))"
  shows "i = j"
  using same_pid [OF mutex_invD(2) [OF assms(1)] assms(4,5)] assms(2,3,6,7) alive_not_terminated by (auto simp: owns_def)

lemma acquire_inv:
  assumes inv: "mutex_inv m s I W" and free: "\<not> m_locked m" and c: "c < 32" "alive (t_state (tk s c))" "c \<notin> W"
  shows "mutex_inv (acquire (t_pid (tk s c)) m) s (insert c I) W"
proof -
  note d = mutex_invD [OF inv]
  let ?m = "acquire (t_pid (tk s c)) m"
  have I: "I = {}" using d(4) free by (auto simp: owns_def)
  have W: "t_state (tk s w) = TASK_STATE_BLOCKED" if "w \<in> W" for w using d(7) [OF that] free by (auto simp: owns_def)
  have o: "owns ?m (tk s c)" "m_lock_count ?m \<noteq> 0" by (simp_all add: owns_def acquire_def)
  show ?thesis
  proof (rule mutex_invI)
    show "mutex_ok ?m" "pids_ok s" "distinct (queue ?m)" using d(1-3) by simp_all
    fix i assume "i \<in> insert c I"
    then show "i < 32 \<and> alive (t_state (tk s i)) \<and> owns ?m (tk s i)" using I o c by simp
  next
    fix w assume w: "w \<in> W"
    then show "w < 32 \<and> alive (t_state (tk s w)) \<and> w \<notin> insert c I" using d(5) [OF w] c(3) by auto
    show "ident (tk s w) \<in> set (queue ?m)" using d(6) [OF w W [OF w]] by simp
  next
    fix w assume "w \<in> W" "t_state (tk s w) \<noteq> TASK_STATE_BLOCKED"
    then show "owns ?m (tk s w) \<and> insert c I = {}" using W by blast
  next
    fix i assume "i < 32" "t_state (tk s i) \<noteq> TASK_STATE_TERMINATED" "ident (tk s i) \<in> set (queue ?m)"
    then show "i \<in> W \<and> t_state (tk s i) = TASK_STATE_BLOCKED" using d(8) by simp
  next
    show "m_lock_count ?m \<noteq> 0" "\<exists>i < 32. alive (t_state (tk s i)) \<and> owns ?m (tk s i) \<and> (i \<in> insert c I \<or> i \<in> W \<and> t_state (tk s i) \<noteq> TASK_STATE_BLOCKED)"
      using o c by blast+
  qed
qed

lemma recurse_inv:
  assumes inv: "mutex_inv m s I W" and n: "n \<noteq> 0"
  shows "mutex_inv (m\<lparr>m_lock_count := n\<rparr>) s I W"
proof -
  note d = mutex_invD [OF inv]
  have o: "owns (m\<lparr>m_lock_count := n\<rparr>) k = owns m k" for k by (simp add: owns_def)
  show ?thesis
    by (rule mutex_invI) (use d(1-3) n in \<open>simp_all add: o\<close>, use d in \<open>blast+\<close>)
qed

lemma push_inv:
  assumes inv: "mutex_inv m s I W" and c: "c < 32" "t_state (tk s c) = TASK_STATE_BLOCKED" "c \<notin> W" "c \<notin> I"
    and m': "mutex_ok m'" "queue m' = queue m @ [ident (tk s c)]" "m_locked m' = m_locked m" "m_owner_pid m' = m_owner_pid m"
      "m_lock_count m' = m_lock_count m"
  shows "mutex_inv m' s I (insert c W)"
proof -
  note d = mutex_invD [OF inv]
  have o: "owns m' k = owns m k" for k by (simp add: owns_def m')
  have nq: "ident (tk s c) \<notin> set (queue m)" using d(8) [OF c(1)] c(2,3) by auto
  show ?thesis
  proof (rule mutex_invI [OF m'(1) d(2)])
    show "distinct (queue m')" using d(3) nq by (simp add: m')
    fix i assume i: "i < 32" "t_state (tk s i) \<noteq> TASK_STATE_TERMINATED" "ident (tk s i) \<in> set (queue m')"
    show "i \<in> insert c W \<and> t_state (tk s i) = TASK_STATE_BLOCKED"
    proof (cases "ident (tk s i) \<in> set (queue m)")
      case False
      then have "t_pid (tk s i) = t_pid (tk s c)" using i(3) by (simp add: m' ident_def)
      then have "i = c" using same_pid [OF d(2) i(1) c(1) i(2)] c(2) by simp
      then show ?thesis using c(2) by simp
    qed (use d(8) [OF i(1,2)] in blast)
  next
    fix w assume "w \<in> insert c W" "t_state (tk s w) = TASK_STATE_BLOCKED"
    then show "ident (tk s w) \<in> set (queue m')" using d(6) [of w] by (auto simp: m')
  next
    fix w assume "w \<in> insert c W" "t_state (tk s w) \<noteq> TASK_STATE_BLOCKED"
    then show "owns m' (tk s w) \<and> I = {}" using d(7) [of w] c(2) o by auto
  next
    assume "m_locked m'"
    then have l: "m_locked m" by (simp add: m')
    show "m_lock_count m' \<noteq> 0" using d(9) [OF l] by (simp add: m')
    show "\<exists>i < 32. alive (t_state (tk s i)) \<and> owns m' (tk s i) \<and> (i \<in> I \<or> i \<in> insert c W \<and> t_state (tk s i) \<noteq> TASK_STATE_BLOCKED)"
      using d(10) [OF l] o by blast
  qed (use d(4,5) c o in auto)
qed

lemma handed_inv:
  assumes inv: "mutex_inv m s {c} W" and q: "queue m = ds @ e # r" "\<forall>d \<in> set ds. found s d = None" and w: "found s e = Some w"
    and calm: "calm {w} s s'" and woken: "t_state (tk s' w) = TASK_STATE_READY" "ident (tk s' w) = ident (tk s w)"
    and m': "mutex_ok m'" "queue m' = r" "m_locked m'" "m_owner_pid m' = fst e" "m_lock_count m' = 1"
  shows "mutex_inv m' s' {} W"
proof -
  note d = mutex_invD [OF inv]
  have ws: "w < 32" "ident (tk s w) = e" "t_state (tk s w) \<noteq> TASK_STATE_TERMINATED" using found_slot [OF w] by auto
  have wW: "w \<in> W" "t_state (tk s w) = TASK_STATE_BLOCKED" using d(8) [OF ws(1,3)] ws(2) q(1) by auto
  have ow: "owns m' (tk s' w)" using ws(2) woken(2) m'(3,4) by (auto simp: owns_def ident_def)
  have W: "t_state (tk s v) = TASK_STATE_BLOCKED" if "v \<in> W" for v using d(7) [OF that] by blast
  have v: "v < 32 \<and> alive (t_state (tk s' v)) \<and> ident (tk s' v) = ident (tk s v) \<and> t_state (tk s' v) = TASK_STATE_BLOCKED"
    if "v \<in> W" "v \<noteq> w" for v
    using calmD [OF calm, of v] d(5) [OF that(1)] W [OF that(1)] that(2) by (auto simp: calm1_def)
  have vr: "ident (tk s v) \<in> set r" if "v \<in> W" "v \<noteq> w" for v
  proof -
    have a: "v < 32" "t_state (tk s v) \<noteq> TASK_STATE_TERMINATED" using d(5) [OF that(1)] alive_not_terminated by blast+
    have "ident (tk s v) \<in> set (queue m)" by (rule d(6) [OF that(1) W [OF that(1)]])
    moreover have "found s (ident (tk s v)) \<noteq> None" using a by (auto simp: found_None)
    moreover have "ident (tk s v) \<noteq> e" using same_pid [OF d(2) a(1) ws(1) a(2) ws(3)] that(2) ws(2) by (auto simp: ident_def)
    ultimately show ?thesis using q by auto
  qed
  have k: "kept (tk s i) (tk s' i)" if "i < 32" for i
    using calm1_kept [OF calmD [OF calm that]] woken(2) ws(3) by (cases "i = w") (auto simp: kept_def)
  have er: "e \<notin> set r" "distinct r" using d(3) q(1) by auto
  show ?thesis
  proof (rule mutex_invI [OF m'(1) pids_kept [OF d(2) k]])
    show "distinct (queue m')" using er by (simp add: m')
    fix i assume i: "i < 32" "t_state (tk s' i) \<noteq> TASK_STATE_TERMINATED" "ident (tk s' i) \<in> set (queue m')"
    have ki: "t_state (tk s i) \<noteq> TASK_STATE_TERMINATED" "ident (tk s' i) = ident (tk s i)" using k [OF i(1)] i(2) by (auto simp: kept_def)
    then have "i \<in> W" using d(8) [OF i(1) ki(1)] i(3) q(1) m'(2) by auto
    moreover have "i \<noteq> w" using ki(2) i(3) er(1) ws(2) m'(2) by auto
    ultimately show "i \<in> W \<and> t_state (tk s' i) = TASK_STATE_BLOCKED" using v [of i] by blast
  next
    fix u assume u: "u \<in> W"
    then show "u < 32 \<and> alive (t_state (tk s' u)) \<and> u \<notin> {}" using v [of u] ws(1) woken(1) by (cases "u = w") auto
    show "ident (tk s' u) \<in> set (queue m')" if "t_state (tk s' u) = TASK_STATE_BLOCKED"
      using v [OF u] vr [OF u] that woken(1) m'(2) by (cases "u = w") auto
    show "owns m' (tk s' u) \<and> ({} :: nat set) = {}" if "t_state (tk s' u) \<noteq> TASK_STATE_BLOCKED"
      using v [OF u] that ow by (cases "u = w") auto
  next
    show "m_lock_count m' \<noteq> 0" by (simp add: m')
    show "\<exists>i < 32. alive (t_state (tk s' i)) \<and> owns m' (tk s' i) \<and> (i \<in> {} \<or> i \<in> W \<and> t_state (tk s' i) \<noteq> TASK_STATE_BLOCKED)"
      using ws(1) wW(1) woken(1) ow by (intro exI [of _ w]) simp
  qed auto
qed

lemma released_inv:
  assumes inv: "mutex_inv m s {c} W" and dead: "\<forall>d \<in> set (queue m). found s d = None" and m': "mutex_ok m'" "queue m' = []" "\<not> m_locked m'"
  shows "mutex_inv m' s {} W"
proof -
  note d = mutex_invD [OF inv]
  have "w \<notin> W" for w
  proof
    assume w: "w \<in> W"
    then have "ident (tk s w) \<in> set (queue m)" using d(6,7) by blast
    then show False using dead d(5) [OF w] alive_not_terminated unfolding found_None by blast
  qed
  then show ?thesis using d(1-3) m' by (intro mutex_invI) auto
qed

lemma resume_inv:
  assumes inv: "mutex_inv m s I W" and c: "c \<in> W" "t_state (tk s c) \<noteq> TASK_STATE_BLOCKED"
  shows "mutex_inv m s (insert c I) (W - {c})"
proof -
  note d = mutex_invD [OF inv]
  have o: "owns m (tk s c)" "I = {}" "c < 32" "alive (t_state (tk s c))" using d(7) [OF c] d(5) [OF c(1)] by auto
  have W: "t_state (tk s w) = TASK_STATE_BLOCKED" if "w \<in> W - {c}" for w
    using owner_unique [OF inv _ o(1) _ o(3) _ o(4), of w] d(5,7) [of w] that by blast
  show ?thesis
  proof (rule mutex_invI [OF d(1-3)])
    fix w assume w: "w \<in> W - {c}"
    then show "w < 32 \<and> alive (t_state (tk s w)) \<and> w \<notin> insert c I" using d(5) [of w] by auto
    show "ident (tk s w) \<in> set (queue m)" using d(6) [of w] W [OF w] w by auto
  next
    fix w assume "w \<in> W - {c}" "t_state (tk s w) \<noteq> TASK_STATE_BLOCKED"
    then show "owns m (tk s w) \<and> insert c I = {}" using W by blast
  next
    fix i assume "i < 32" "t_state (tk s i) \<noteq> TASK_STATE_TERMINATED" "ident (tk s i) \<in> set (queue m)"
    then show "i \<in> W - {c} \<and> t_state (tk s i) = TASK_STATE_BLOCKED" using d(8) c(2) by blast
  next
    assume "m_locked m"
    then show "m_lock_count m \<noteq> 0" by (rule d(9))
    show "\<exists>i < 32. alive (t_state (tk s i)) \<and> owns m (tk s i) \<and> (i \<in> insert c I \<or> i \<in> W - {c} \<and> t_state (tk s i) \<noteq> TASK_STATE_BLOCKED)"
      using o by blast
  qed (use o in auto)
qed

definition msys_ok :: "msys \<Rightarrow> bool" where
  "msys_ok st \<longleftrightarrow> sched_inv (ms_leaving st) (ms_sched st) \<and> mutex_inv (ms_mutex st) (ms_sched st) (inside st) (waiting st)"

lemma u32_inc_nonzero:
  fixes n :: u32
  assumes "n < 0xFFFFFFFF"
  shows "n + 1 \<noteq> 0"
proof
  assume "n + 1 = 0"
  then have "n = - 1" by (simp only: eq_neg_iff_add_eq_0)
  then show False using assms by simp
qed

lemma lock_step:
  assumes ok: "msys_ok st" and al: "mutex_allowed Lock st" and e: "mutex_exec Lock st = Some st'"
  shows "msys_ok st'"
proof -
  let ?m = "ms_mutex st" and ?s = "ms_sched st" and ?I = "inside st" and ?W = "waiting st"
  have si: "sched_inv False ?s" and inv: "mutex_inv ?m ?s ?I ?W" and o: "others_ready ?s"
    and n: "m_lock_count ?m < 0xFFFFFFFF" "m_num_waiters ?m < 16" and b: "\<not> ms_leaving st"
    using ok al by (auto simp: msys_ok_def mutex_allowed_def Let_def)
  obtain c where c: "current_running_task ?s = Some c" using si by (blast elim: sched_invE)
  have cW: "c \<notin> ?W" using al c by (simp add: mutex_allowed_def Let_def)
  have ca: "c < 32" "alive (t_state (tk ?s c))" using current_active [OF si c] active_alive by blast+
  note d = mutex_invD [OF inv]
  obtain r m' s' where l: "mutex_lock_section ?m ?s = Some (r, m', s')" using lock_refines [OF si o c d(1) n(2)] by blast
  consider (own) "owns ?m (tk ?s c)" | (free) "\<not> m_locked ?m" | (wait) "m_locked ?m" "\<not> owns ?m (tk ?s c)" by (auto simp: owns_def)
  then show ?thesis
  proof cases
    case own
    have "c \<in> ?I" using d(10) own owner_unique [OF inv _ own _ ca(1) _ ca(2)] cW by (auto simp: owns_def)
    moreover have "m_lock_count ?m + 1 \<noteq> 0" by (rule u32_inc_nonzero [OF n(1)])
    ultimately show ?thesis
      using l own c e b ok recurse_inv [OF inv]
      by (auto simp: mutex_lock_section_def mutex_exec_def owns_def Let_def msys_ok_def insert_absorb split: if_splits)
  next
    case free
    then show ?thesis
      using l c e b ok acquire_inv [OF inv free ca cW]
      by (auto simp: mutex_lock_section_def mutex_exec_def Let_def msys_ok_def)
  next
    case wait
    have cI: "c \<notin> ?I" using d(4) wait(2) by blast
    let ?n = "push_waiter (ident (tk ?s c)) ?m"
    obtain s1 where s1: "scheduler_block_task (Some c) ?s = Some s1" "sched_inv True s1" using block_ok [OF si o c] by blast
    have bc: "calm {c} ?s s1" "t_state (tk s1 c) = TASK_STATE_BLOCKED" "ident (tk s1 c) = ident (tk ?s c)"
      using block_calm [OF si o c] s1(1) by (auto simp: wlp_def)
    have "mutex_inv ?m s1 ?I ?W"
      by (rule inv_calm [OF inv bc(1)]) (use bc cW ca alive_not_terminated in \<open>auto simp: kept_def\<close>)
    moreover have "mutex_ok ?n" "queue ?n = queue ?m @ [ident (tk s1 c)]" using queue_push [OF d(1) n(2)] bc(3) by simp_all
    ultimately have "mutex_inv ?n s1 ?I (insert c ?W)"
      by (intro push_inv [of ?m]) (use ca bc cW cI in \<open>simp_all add: push_waiter_def\<close>)
    moreover have "mutex_lock_section ?m ?s = Some (Waits, ?n, s1)"
      using wait c n(2) s1(1) by (auto simp: mutex_lock_section_def owns_def Let_def ident_def)
    ultimately show ?thesis using e c s1(2) by (auto simp: mutex_exec_def Let_def msys_ok_def)
  qed
qed

lemma trylock_step:
  assumes ok: "msys_ok st" and al: "mutex_allowed Trylock st" and e: "mutex_exec Trylock st = Some st'"
  shows "msys_ok st'"
proof -
  let ?m = "ms_mutex st" and ?s = "ms_sched st" and ?I = "inside st" and ?W = "waiting st"
  have si: "sched_inv False ?s" and inv: "mutex_inv ?m ?s ?I ?W" and n: "m_lock_count ?m < 0xFFFFFFFF" and b: "\<not> ms_leaving st"
    using ok al by (auto simp: msys_ok_def mutex_allowed_def Let_def)
  obtain c where c: "current_running_task ?s = Some c" using si by (blast elim: sched_invE)
  have cW: "c \<notin> ?W" using al c by (simp add: mutex_allowed_def Let_def)
  have ca: "c < 32" "alive (t_state (tk ?s c))" using current_active [OF si c] active_alive by blast+
  note d = mutex_invD [OF inv]
  have "m_lock_count ?m + 1 \<noteq> 0" by (rule u32_inc_nonzero [OF n])
  note rec = recurse_inv [OF inv this]
  have own: "c \<in> ?I" if "owns ?m (tk ?s c)"
    using d(10) that owner_unique [OF inv _ that _ ca(1) _ ca(2)] cW by (auto simp: owns_def)
  show ?thesis
  proof (cases "m_locked ?m")
    case True
    then show ?thesis using e c b ok rec own
      by (auto simp: mutex_exec_def mutex_trylock_def Let_def msys_ok_def owns_def insert_absorb split: if_splits)
  next
    case False
    then show ?thesis using e c b ok acquire_inv [OF inv False ca cW]
      by (auto simp: mutex_exec_def mutex_trylock_def Let_def msys_ok_def)
  qed
qed

lemma unlock_inside:
  assumes ok: "msys_ok st" and al: "mutex_allowed Unlock st" and e: "mutex_exec Unlock st = Some st'"
    and c: "current_running_task (ms_sched st) = Some c" and cI: "c \<in> inside st"
  shows "msys_ok st'"
proof -
  let ?m = "ms_mutex st" and ?s = "ms_sched st" and ?I = "inside st" and ?W = "waiting st"
  have si: "sched_inv False ?s" and inv: "mutex_inv ?m ?s ?I ?W" and b: "\<not> ms_leaving st"
    using ok al by (auto simp: msys_ok_def mutex_allowed_def Let_def)
  note d = mutex_invD [OF inv]
  have oc: "owns ?m (tk ?s c)" "c < 32" "alive (t_state (tk ?s c))" using d(4) [OF cI] by auto
  have I: "?I = {c}" using owner_unique [OF inv _ oc(1) _ oc(2) _ oc(3)] d(4) cI by blast
  note inv1 = inv [unfolded I]
  show ?thesis
  proof (cases "m_lock_count ?m > 1")
    case True
    then have "m_lock_count ?m - 1 \<noteq> 0" by auto
    then show ?thesis using True e c b ok oc(1) recurse_inv [OF inv]
      by (auto simp: mutex_exec_def mutex_unlock_def owns_def Let_def msys_ok_def)
  next
    case False
    note h = hand_over_fifo [OF d(1) order.refl, of ?s]
    show ?thesis
    proof (cases "dropWhile (\<lambda>e. found ?s e = None) (queue ?m)")
      case Nil
      then obtain m' where m': "hand_over (unat (m_num_waiters ?m)) ?m ?s = Some (False, m', ?s)" "mutex_ok m'" "queue m' = []"
        using h by (auto simp del: dropWhile_eq_Nil_conv)
      have "mutex_inv (release m') ?s {} ?W"
        by (rule released_inv [OF inv1]) (use Nil m' in \<open>auto simp: release_def queue_def mutex_ok_def\<close>)
      then show ?thesis using m'(1) False e c b si oc(1) I
        by (auto simp: mutex_exec_def mutex_unlock_def owns_def Let_def msys_ok_def)
    next
      case (Cons x r)
      define ds where "ds = takeWhile (\<lambda>e. found ?s e = None) (queue ?m)"
      have q: "queue ?m = ds @ x # r" "\<forall>d \<in> set ds. found ?s d = None"
        using takeWhile_dropWhile_id [of "\<lambda>e. found ?s e = None" "queue ?m"] Cons by (auto simp: ds_def dest: set_takeWhileD)
      have "found ?s x \<noteq> None" using hd_dropWhile [of "\<lambda>e. found ?s e = None" "queue ?m"] Cons by simp
      then obtain w where w: "found ?s x = Some w" by blast
      obtain m' where m': "hand_over (unat (m_num_waiters ?m)) ?m ?s = map_option (\<lambda>s'. (True, m', s')) (scheduler_wakeup_task (found ?s x) ?s)"
        "mutex_ok m'" "queue m' = r" "m_locked m' = m_locked ?m" "m_owner_pid m' = fst x" "m_lock_count m' = 1"
        using h Cons by auto
      have w32: "w < 32" and wid: "ident (tk ?s w) = x" "t_state (tk ?s w) \<noteq> TASK_STATE_TERMINATED" using found_slot [OF w] by blast+
      obtain s' where s': "scheduler_wakeup_task (Some w) ?s = Some s'" "sched_inv False s'" using wakeup_inv [OF si w32] by blast
      have bl: "t_state (tk ?s w) = TASK_STATE_BLOCKED" using d(8) [OF w32 wid(2)] wid(1) q(1) by auto
      have "calm {w} ?s s'" "outcome (Wake w) (tk ?s w) (tk s' w)"
        using exec_calm [OF si, of "Wake w"] s'(1) w32 by (auto simp: wlp_def sched_exec_def allowed_def touched_def)
      then have "mutex_inv m' s' {} ?W"
        using bl m' oc(1) by (intro handed_inv [OF inv1 q w]) (auto simp: outcome_def owns_def)
      then show ?thesis using m'(1) s' w False e c b oc(1) I
        by (auto simp: mutex_exec_def mutex_unlock_def owns_def Let_def msys_ok_def)
    qed
  qed
qed

lemma unlock_step:
  assumes ok: "msys_ok st" and al: "mutex_allowed Unlock st" and e: "mutex_exec Unlock st = Some st'"
  shows "msys_ok st'"
proof -
  let ?m = "ms_mutex st" and ?s = "ms_sched st"
  have si: "sched_inv False ?s" and inv: "mutex_inv ?m ?s (inside st) (waiting st)" and b: "\<not> ms_leaving st"
    using ok al by (auto simp: msys_ok_def mutex_allowed_def Let_def)
  obtain c where c: "current_running_task ?s = Some c" using si by (blast elim: sched_invE)
  have cW: "c \<notin> waiting st" using al c by (simp add: mutex_allowed_def Let_def)
  have ca: "c < 32" "alive (t_state (tk ?s c))" using current_active [OF si c] active_alive by blast+
  show ?thesis
  proof (cases "c \<in> inside st")
    case True
    then show ?thesis by (rule unlock_inside [OF ok al e c])
  next
    case False
    have "\<not> owns ?m (tk ?s c)"
    proof
      assume o: "owns ?m (tk ?s c)"
      then have "m_locked ?m" by (simp add: owns_def)
      then obtain i where i: "i < 32" "alive (t_state (tk ?s i))" "owns ?m (tk ?s i)" "i \<in> inside st \<or> i \<in> waiting st"
        using mutex_invD(10) [OF inv] by blast
      then have "i = c" using owner_unique [OF inv i(3) o i(1) ca(1) i(2) ca(2)] by blast
      then show False using i(4) cW False by blast
    qed
    then have "st' = st" using e c by (auto simp: mutex_exec_def mutex_unlock_def owns_def Let_def)
    then show ?thesis using ok by simp
  qed
qed

lemma mutex_returns:
  assumes ok: "msys_ok st" and al: "mutex_allowed op st"
  shows "\<exists>st'. mutex_exec op st = Some st'"
proof -
  have inv: "mutex_ok (ms_mutex st)" using ok by (auto simp: msys_ok_def dest: mutex_invD(1))
  have si: "sched_inv False (ms_sched st)" if "\<not> ms_leaving st" using ok that by (simp add: msys_ok_def)
  obtain c where c: "current_running_task (ms_sched st) = Some c" using ok by (auto simp: msys_ok_def elim: sched_invE)
  show ?thesis
  proof (cases op)
    case Lock
    then have "\<not> ms_leaving st" "others_ready (ms_sched st)" "m_num_waiters (ms_mutex st) < 16"
      using al by (simp_all add: mutex_allowed_def Let_def)
    then show ?thesis using lock_refines [OF si _ c inv] Lock by (auto simp: mutex_exec_def Let_def)
  next
    case Unlock
    then have "\<not> ms_leaving st" using al by (simp add: mutex_allowed_def Let_def)
    then show ?thesis using unlock_refines [OF si c inv] Unlock by (auto simp: mutex_exec_def Let_def)
  next
    case (Sched sop)
    then have "allowed sop (ms_sched st, ms_leaving st)" using al by (simp add: mutex_allowed_def Let_def)
    then show ?thesis using exec_ok [of "ms_leaving st" "ms_sched st" sop] ok Sched
      by (auto simp: msys_ok_def wp_iff mutex_exec_def Let_def)
  qed (simp_all add: mutex_exec_def Let_def split: prod.splits)
qed

lemma mutex_step:
  assumes ok: "msys_ok st" and al: "mutex_allowed op st" and e: "mutex_exec op st = Some st'"
  shows "msys_ok st'"
proof (cases op)
  case Resume
  have si: "sched_inv False (ms_sched st)" and b: "\<not> ms_leaving st" using ok al Resume by (auto simp: msys_ok_def mutex_allowed_def Let_def)
  obtain c where c: "current_running_task (ms_sched st) = Some c" using si by (blast elim: sched_invE)
  have "t_state (tk (ms_sched st) c) \<noteq> TASK_STATE_BLOCKED" using current_active [OF si c] by auto
  then show ?thesis
    using resume_inv [of "ms_mutex st" "ms_sched st" "inside st" "waiting st" c] ok al e c Resume b
    by (auto simp: mutex_exec_def mutex_allowed_def msys_ok_def Let_def)
next
  case (Sched sop)
  have st: "st = \<lparr>ms_mutex = ms_mutex st, ms_sched = ms_sched st, ms_leaving = ms_leaving st, inside = inside st, waiting = waiting st\<rparr>" by simp
  obtain s' b' where s': "sched_exec sop (ms_sched st, ms_leaving st) = Some (s', b')"
    and st': "st' = st\<lparr>ms_sched := s', ms_leaving := b', waiting := (case sop of Kill t \<Rightarrow> waiting st - {t} | _ \<Rightarrow> waiting st)\<rparr>"
    using e Sched by (auto simp: mutex_exec_def Let_def)
  have "allowed sop (ms_sched st, ms_leaving st)" using al Sched by (simp add: mutex_allowed_def Let_def)
  then have "sched_inv b' s'" using exec_ok [of "ms_leaving st" "ms_sched st" sop] ok s' by (auto simp: msys_ok_def wp_iff)
  moreover have "mutex_inv (ms_mutex st) s' (inside st) (case sop of Kill t \<Rightarrow> waiting st - {t} | _ \<Rightarrow> waiting st)"
    by (rule sched_step_inv [OF _ _ _ s']) (use ok al Sched in \<open>simp_all add: msys_ok_def st [symmetric]\<close>)
  ultimately show ?thesis by (simp add: msys_ok_def st')
qed (use lock_step trylock_step unlock_step ok al e in blast)+

inductive mutex_reach :: "msys \<Rightarrow> msys \<Rightarrow> bool" for start where
  mutex_start: "mutex_reach start start"
| mutex_next: "mutex_reach start st \<Longrightarrow> mutex_allowed op st \<Longrightarrow> mutex_exec op st = Some st' \<Longrightarrow> mutex_reach start st'"

definition mutex_boot :: "u8 \<Rightarrow> sched \<Rightarrow> msys" where
  "mutex_boot flags s = \<lparr>ms_mutex = mutex_init flags, ms_sched = s, ms_leaving = False, inside = {}, waiting = {}\<rparr>"

lemma mutex_boot_ok: "sched_inv False s \<Longrightarrow> pids_ok s \<Longrightarrow> msys_ok (mutex_boot flags s)"
  unfolding msys_ok_def mutex_boot_def
  by (auto intro!: mutex_invI simp: mutex_init_def mutex_ok_def queue_def)

lemma mutex_reach_ok: "mutex_reach start st \<Longrightarrow> msys_ok start \<Longrightarrow> msys_ok st"
  by (induction rule: mutex_reach.induct) (auto intro: mutex_step)

text \<open>
  C1: Mutual exclusion. Start with a freshly initialised mutex in any state of the booted scheduler in which
  the PIDs in use differ, and let the tasks lock, try, unlock, be preempted, sleep, block, be woken,
  created and killed in any order. Then every operation returns; at most one task is inside, that is, between
  the return of its lock and its last unlock; the mutex is locked and names that task's PID as owner; and when a
  task that had to wait in \<^verbatim>\<open>mutex_lock\<close> runs again, it is the owner and nobody is inside. Assumed of the
  history: the owner is not killed and does not exit, nobody but \<^verbatim>\<open>mutex_unlock\<close> wakes a waiter, a new PID differs from
  those in use and in the queue, at most sixteen tasks wait (the code panics otherwise), the recursion depth stays
  below the end of 32 bits, and the contexts of the scheduler's operations are those of \<^verbatim>\<open>allowed\<close>.
\<close>

theorem mutex_mutual_exclusion:
  assumes "sched_inv False s" and "pids_ok s" and "mutex_reach (mutex_boot flags s) st"
  shows "(\<exists>c. inside st \<subseteq> {c}) \<and>
    (\<forall>c \<in> inside st. mutex_is_locked (ms_mutex st) \<and> mutex_get_owner (ms_mutex st) = t_pid (tk (ms_sched st) c)) \<and>
    (\<forall>c \<in> waiting st. current_running_task (ms_sched st) = Some c \<longrightarrow> \<not> ms_leaving st \<longrightarrow>
       mutex_get_owner (ms_mutex st) = t_pid (tk (ms_sched st) c) \<and> inside st = {}) \<and>
    (\<forall>op. mutex_allowed op st \<longrightarrow> (\<exists>st'. mutex_exec op st = Some st'))"
proof -
  have ok: "msys_ok st" by (rule mutex_reach_ok [OF assms(3) mutex_boot_ok [OF assms(1,2)]])
  then have inv: "mutex_inv (ms_mutex st) (ms_sched st) (inside st) (waiting st)" by (simp add: msys_ok_def)
  note d = mutex_invD [OF inv]
  have "i = j" if "i \<in> inside st" "j \<in> inside st" for i j
    using owner_unique [OF inv] d(4) [OF that(1)] d(4) [OF that(2)] by blast
  then have "\<exists>c. inside st \<subseteq> {c}" by blast
  moreover have "mutex_get_owner (ms_mutex st) = t_pid (tk (ms_sched st) c) \<and> inside st = {}"
    if "c \<in> waiting st" "current_running_task (ms_sched st) = Some c" "\<not> ms_leaving st" for c
    using d(7) [OF that(1)] current_active [of "ms_sched st" c] ok that(2,3) by (auto simp: msys_ok_def owns_def mutex_get_owner_def active_def)
  moreover have "mutex_is_locked (ms_mutex st) \<and> mutex_get_owner (ms_mutex st) = t_pid (tk (ms_sched st) c)" if "c \<in> inside st" for c
    using d(4) [OF that] by (simp add: owns_def mutex_is_locked_def mutex_get_owner_def)
  ultimately show ?thesis using mutex_returns [OF ok] by blast
qed

section \<open>Witnesses\<close>

fun mutex_run :: "mutex_op list \<Rightarrow> msys \<Rightarrow> msys option" where
  "mutex_run [] st = Some st"
| "mutex_run (op # ops) st = (if mutex_allowed op st then Option.bind (mutex_exec op st) (mutex_run ops) else None)"

lemma mutex_run_reach: "mutex_run ops st = Some st' \<Longrightarrow> mutex_reach start st \<Longrightarrow> mutex_reach start st'"
  by (induction ops arbitrary: st) (auto simp: bind_eq_Some_conv split: if_splits intro: mutex_next)

lemma pids_distinct:
  assumes "distinct (map (\<lambda>i. t_pid (tk s i)) (filter (\<lambda>i. t_state (tk s i) \<noteq> TASK_STATE_TERMINATED) [0..<32]))"
  shows "pids_ok s"
proof -
  have "inj_on (\<lambda>i. t_pid (tk s i)) {i. i < 32 \<and> t_state (tk s i) \<noteq> TASK_STATE_TERMINATED}"
    using assms by (simp add: distinct_map inj_on_def)
  then show ?thesis unfolding pids_ok_def inj_on_def by blast
qed

lemma boot4_view:
  "map_option (\<lambda>s. (map (\<lambda>i. t_pid (tk s i)) (filter (\<lambda>i. t_state (tk s i) \<noteq> TASK_STATE_TERMINATED) [0..<32]),
     others_ready s, current_running_task s, t_pid (tk s 0))) (sched_boot boot4) = Some ([101, 102, 103, 104], True, Some 0, 101)"
  by code_simp

lemma boot4_pids:
  assumes "sched_boot boot4 = Some s"
  shows "pids_ok s" "others_ready s" "current_running_task s = Some 0" "t_pid (tk s 0) = 101"
proof -
  have "map (\<lambda>i. t_pid (tk s i)) (filter (\<lambda>i. t_state (tk s i) \<noteq> TASK_STATE_TERMINATED) [0..<32]) = [101, 102, 103, 104]"
    using boot4_view assms by simp
  then have "distinct (map (\<lambda>i. t_pid (tk s i)) (filter (\<lambda>i. t_state (tk s i) \<noteq> TASK_STATE_TERMINATED) [0..<32]))"
    by (simp only:) simp
  then show "pids_ok s" by (rule pids_distinct)
  show "others_ready s" "current_running_task s = Some 0" "t_pid (tk s 0) = 101" using boot4_view assms by simp_all
qed

lemma boot4_contended:
  "map_option (\<lambda>st. (0 \<in> inside st, 1 \<in> waiting st))
     (Option.bind (sched_boot boot4) (\<lambda>s. mutex_run [Lock, Sched Yield, Lock] (mutex_boot 0 s))) = Some (True, True)"
  by code_simp

theorem mutex_refines_fifo_witness:
  "\<exists>s m' s'. sched_boot boot4 = Some s \<and> mutex_lock_section (mutex_init 0) s = Some (Returned 0, m', s') \<and> mutex_get_owner m' = 101"
proof -
  obtain s where s: "sched_boot boot4 = Some s" "sched_inv False s" using boot_ok [OF boot4_startable] by (auto simp: wp_iff)
  note p = boot4_pids [OF s(1)]
  have m: "mutex_ok (mutex_init 0)" "m_num_waiters (mutex_init 0) < 16" by (simp_all add: mutex_init_def mutex_ok_def)
  obtain r m' s' where l: "mutex_lock_section (mutex_init 0) s = Some (r, m', s')"
    "(r, abs_mutex m') = lock_spec (m_flags (mutex_init 0) AND 1 \<noteq> 0) (ident (tk s 0)) (abs_mutex (mutex_init 0))"
    using mutex_refines_fifo [OF s(2) p(2,3) m] by blast
  then have "r = Returned 0" "mutex_get_owner m' = 101"
    using p(4) by (auto simp: abs_mutex_def mutex_init_def queue_def ident_def mutex_get_owner_def split: if_splits)
  then show ?thesis using s(1) l(1) by blast
qed

theorem mutex_mutual_exclusion_witness:
  "\<exists>s st. sched_boot boot4 = Some s \<and> mutex_reach (mutex_boot 0 s) st \<and> 0 \<in> inside st \<and> 1 \<in> waiting st \<and> 1 \<notin> inside st \<and>
     mutex_get_owner (ms_mutex st) = t_pid (tk (ms_sched st) 0)"
proof -
  obtain s where s: "sched_boot boot4 = Some s" "sched_inv False s" using boot_ok [OF boot4_startable] by (auto simp: wp_iff)
  note p = boot4_pids(1) [OF s(1)]
  obtain st where st: "mutex_run [Lock, Sched Yield, Lock] (mutex_boot 0 s) = Some st" "0 \<in> inside st" "1 \<in> waiting st"
    using boot4_contended s(1) by auto
  have r: "mutex_reach (mutex_boot 0 s) st" by (rule mutex_run_reach [OF st(1) mutex_start])
  note x = mutex_mutual_exclusion [OF s(2) p r]
  have "1 \<notin> inside st" using x st(2) by (metis insertE empty_iff subsetD zero_neq_one)
  then show ?thesis using s(1) r st x by blast
qed

end
