(* ===== verification/Wait_Queue.thy ===== *)
theory Wait_Queue
  imports Sched_Frame
begin

text \<open>
  Wait queues, \<^verbatim>\<open>src/src/wait_queue.c\<close>: a store of queues, each an array of tasks with a count, over the
  scheduler's state. A \<^verbatim>\<open>wait_queue_t*\<close> is an index into the store. Each operation runs in one
  critical section; a task that sleeps yields after it.
\<close>

section \<open>Model\<close>

record wait_queue =
  waiting_tasks :: "task_ptr list"
  wq_count :: int

definition empty_queue :: wait_queue where
  "empty_queue = \<lparr>waiting_tasks = replicate MAX_TASKS None, wq_count = 0\<rparr>"

definition wait_queue_init :: "nat option \<Rightarrow> wait_queue list \<Rightarrow> wait_queue list" where
  "wait_queue_init wq ws = (case wq of None \<Rightarrow> ws | Some w \<Rightarrow> ws[w := empty_queue])"

definition wait_queue_count :: "nat option \<Rightarrow> wait_queue list \<Rightarrow> int" where
  "wait_queue_count wq ws = (case wq of None \<Rightarrow> 0 | Some w \<Rightarrow> wq_count (ws ! w))"

definition wait_queue_is_empty :: "nat option \<Rightarrow> wait_queue list \<Rightarrow> bool" where
  "wait_queue_is_empty wq ws \<longleftrightarrow> wait_queue_count wq ws = 0"

definition push_task :: "nat \<Rightarrow> wait_queue \<Rightarrow> wait_queue" where
  "push_task t q = q\<lparr>waiting_tasks := (waiting_tasks q)[nat (wq_count q) := Some t], wq_count := wq_count q + 1\<rparr>"

definition remove_at :: "nat \<Rightarrow> wait_queue \<Rightarrow> wait_queue" where
  \<comment> \<open>shift the tasks behind position \<open>i\<close> down, clear the last cell\<close>
  "remove_at i q = q\<lparr>waiting_tasks := (shift_from i (nat (wq_count q) - 1 - i) (waiting_tasks q))[nat (wq_count q) - 1 := None],
     wq_count := wq_count q - 1\<rparr>"

definition wait_queue_sleep_section :: "nat option \<Rightarrow> wait_queue list \<Rightarrow> sched \<Rightarrow> (bool \<times> wait_queue list \<times> sched) option" where
  \<comment> \<open>the result tells whether the task goes on to yield\<close>
  "wait_queue_sleep_section wq ws s =
     (case wq of
        None \<Rightarrow> Some (False, ws, s)
      | Some w \<Rightarrow> (case current_running_task s of
            None \<Rightarrow> Some (False, ws, s)
          | Some c \<Rightarrow>
              if wq_count (ws ! w) \<ge> int MAX_TASKS then Some (False, ws, s)
              else do {
                let ws = ws[w := push_task c (ws ! w)];
                s \<leftarrow> scheduler_block_task (Some c) (upd_task c (\<lambda>k. k\<lparr>t_blocked_on_wq := Some w\<rparr>) s);
                Some (True, ws, s)
              }))"

definition wait_queue_sleep :: "nat option \<Rightarrow> wait_queue list \<Rightarrow> sched \<Rightarrow> (wait_queue list \<times> sched) option" where
  "wait_queue_sleep wq ws s = do {
     (yields, ws, s) \<leftarrow> wait_queue_sleep_section wq ws s;
     if yields then map_option (\<lambda>s. (ws, s)) (scheduler_yield s) else Some (ws, s)
   }"

definition wake_first :: "nat \<Rightarrow> wait_queue list \<Rightarrow> sched \<Rightarrow> (wait_queue list \<times> sched) option" where
  \<comment> \<open>take the first task off a queue that is not empty and wake it\<close>
  "wake_first w ws s =
     (case waiting_tasks (ws ! w) ! 0 of
        None \<Rightarrow> Some (ws[w := (ws ! w)\<lparr>wq_count := 0\<rparr>], s)
      | Some t \<Rightarrow> map_option (\<lambda>s. (ws[w := remove_at 0 (ws ! w)], s))
          (scheduler_wakeup_task (Some t) (upd_task t (\<lambda>k. k\<lparr>t_blocked_on_wq := None\<rparr>) s)))"

definition wait_queue_wakeup :: "nat option \<Rightarrow> wait_queue list \<Rightarrow> sched \<Rightarrow> (wait_queue list \<times> sched) option" where
  "wait_queue_wakeup wq ws s =
     (case wq of
        None \<Rightarrow> Some (ws, s)
      | Some w \<Rightarrow> if wq_count (ws ! w) = 0 then Some (ws, s) else wake_first w ws s)"

fun wake_loop :: "nat \<Rightarrow> nat \<Rightarrow> wait_queue list \<Rightarrow> sched \<Rightarrow> (wait_queue list \<times> sched) option" where
  \<comment> \<open>at most \<open>k\<close> rounds: each takes one task off the queue\<close>
  "wake_loop k w ws s =
     (if wq_count (ws ! w) > 0
      then (case k of 0 \<Rightarrow> None | Suc k' \<Rightarrow> Option.bind (wake_first w ws s) (\<lambda>(ws, s). wake_loop k' w ws s))
      else Some (ws, s))"

declare wake_loop.simps [simp del]

definition wait_queue_wakeup_all :: "nat option \<Rightarrow> wait_queue list \<Rightarrow> sched \<Rightarrow> (wait_queue list \<times> sched) option" where
  "wait_queue_wakeup_all wq ws s =
     (case wq of
        None \<Rightarrow> Some (ws, s)
      | Some w \<Rightarrow> if wq_count (ws ! w) = 0 then Some (ws, s) else wake_loop (nat (wq_count (ws ! w))) w ws s)"

definition wait_queue_remove_task :: "task_ptr \<Rightarrow> wait_queue list \<Rightarrow> sched \<Rightarrow> wait_queue list \<times> sched" where
  "wait_queue_remove_task task ws s =
     (case task of
        None \<Rightarrow> (ws, s)
      | Some t \<Rightarrow> (case t_blocked_on_wq (tk s t) of
            None \<Rightarrow> (ws, s)
          | Some w \<Rightarrow>
              let q = ws ! w;
                  ws = (case find (\<lambda>i. waiting_tasks q ! i = Some t) [0..<nat (wq_count q)] of
                          None \<Rightarrow> ws | Some i \<Rightarrow> ws[w := remove_at i q])
              in (ws, upd_task t (\<lambda>k. k\<lparr>t_blocked_on_wq := None\<rparr>) s)))"

section \<open>The queue as a list\<close>

definition wq_ok :: "wait_queue \<Rightarrow> bool" where
  "wq_ok q \<longleftrightarrow> length (waiting_tasks q) = 32 \<and> 0 \<le> wq_count q \<and> wq_count q \<le> 32 \<and>
     (\<forall>i < nat (wq_count q). waiting_tasks q ! i \<noteq> None)"

definition tasks_of :: "wait_queue \<Rightarrow> nat list" where
  "tasks_of q = map the (take (nat (wq_count q)) (waiting_tasks q))"

lemma tasks_of_length: "wq_ok q \<Longrightarrow> length (tasks_of q) = nat (wq_count q)"
  by (simp add: tasks_of_def wq_ok_def min_def) linarith

lemma tasks_of_nth: "wq_ok q \<Longrightarrow> i < nat (wq_count q) \<Longrightarrow> waiting_tasks q ! i = Some (tasks_of q ! i)"
  by (auto simp: tasks_of_def wq_ok_def)

lemma empty_queue_ok [simp]: "wq_ok empty_queue" "tasks_of empty_queue = []"
  by (simp_all add: wq_ok_def empty_queue_def tasks_of_def)

lemma push_task_list:
  assumes "wq_ok q" and "length (tasks_of q) < 32"
  shows "wq_ok (push_task t q)" and "tasks_of (push_task t q) = tasks_of q @ [t]"
proof -
  have n: "nat (wq_count q) < 32" "nat (wq_count q + 1) = Suc (nat (wq_count q))" "0 \<le> wq_count q"
    using assms tasks_of_length [OF assms(1)] by (auto simp: wq_ok_def)
  show "wq_ok (push_task t q)" using assms(1) n by (auto simp: wq_ok_def push_task_def nth_list_update less_Suc_eq)
  show "tasks_of (push_task t q) = tasks_of q @ [t]"
    using assms(1) n by (simp add: tasks_of_def push_task_def take_push wq_ok_def)
qed

lemma remove_at_list:
  assumes "wq_ok q" and "i < length (tasks_of q)"
  shows "wq_ok (remove_at i q)" and "tasks_of (remove_at i q) = take i (tasks_of q) @ drop (Suc i) (tasks_of q)"
proof -
  let ?n = "nat (wq_count q)" and ?a = "waiting_tasks q"
  have n: "i < ?n" "?n \<le> 32" "length ?a = 32" "nat (wq_count q - 1) = ?n - 1" "0 < wq_count q"
    using assms tasks_of_length [OF assms(1)] by (auto simp: wq_ok_def)
  have t: "take (?n - 1) ((shift_from i (?n - 1 - i) ?a)[?n - 1 := None]) = take i ?a @ drop (Suc i) (take ?n ?a)"
    using take_shift [of i ?n ?a] n by simp
  then show "tasks_of (remove_at i q) = take i (tasks_of q) @ drop (Suc i) (tasks_of q)"
    using n by (simp add: tasks_of_def remove_at_def take_map drop_map min_def)
  have "(shift_from i (?n - 1 - i) ?a)[?n - 1 := None] ! j \<noteq> None" if "j < ?n - 1" for j
    using that n shift_from_nth [of i "?n - 1 - i" ?a j] assms(1) by (auto simp: nth_list_update wq_ok_def)
  then show "wq_ok (remove_at i q)" using n by (simp add: wq_ok_def remove_at_def)
qed

interpretation wq: fifo_queue wq_ok tasks_of 32 push_task "\<lambda>q. the (waiting_tasks q ! 0)" "remove_at 0"
proof
  fix q :: wait_queue and t :: nat
  assume ok: "wq_ok q"
  show "wq_ok (push_task t q)" "tasks_of (push_task t q) = tasks_of q @ [t]" if "length (tasks_of q) < 32"
    using push_task_list [OF ok that] by simp_all
  assume ne: "tasks_of q \<noteq> []"
  then have l: "0 < length (tasks_of q)" by simp
  show "wq_ok (remove_at 0 q)" by (rule remove_at_list(1) [OF ok l])
  have "waiting_tasks q ! 0 = Some (tasks_of q ! 0)" using tasks_of_nth [OF ok, of 0] tasks_of_length [OF ok] l by simp
  then show "tasks_of q = the (waiting_tasks q ! 0) # tasks_of (remove_at 0 q)"
    using remove_at_list(2) [OF ok l] ne by (cases "tasks_of q") auto
qed

end
