(* ===== verification/Wait_Queue_Props.thy ===== *)
theory Wait_Queue_Props
  imports Wait_Queue Sched_Props
begin

text \<open>
  Wait queues in a running system: the invariant that ties the queues to the blocked tasks, that
  every operation keeps it, and the order in which sleepers are woken.
\<close>

section \<open>The invariant\<close>

definition wq_inv :: "wait_queue list \<Rightarrow> sched \<Rightarrow> bool" where
  \<comment> \<open>the queues hold exactly the living tasks that point at them, each once and blocked\<close>
  "wq_inv ws s \<longleftrightarrow>
     (\<forall>w < length ws. wq_ok (ws ! w) \<and> distinct (tasks_of (ws ! w)) \<and>
        (\<forall>t \<in> set (tasks_of (ws ! w)). t < 32 \<and> t_state (tk s t) = TASK_STATE_BLOCKED \<and> t_blocked_on_wq (tk s t) = Some w)) \<and>
     (\<forall>t < 32. \<forall>w. alive (t_state (tk s t)) \<longrightarrow> t_blocked_on_wq (tk s t) = Some w \<longrightarrow> w < length ws \<and> t \<in> set (tasks_of (ws ! w)))"

lemma wq_invD:
  assumes "wq_inv ws s"
  shows "w < length ws \<Longrightarrow> wq_ok (ws ! w)" "w < length ws \<Longrightarrow> distinct (tasks_of (ws ! w))"
    "w < length ws \<Longrightarrow> t \<in> set (tasks_of (ws ! w)) \<Longrightarrow> t < 32 \<and> t_state (tk s t) = TASK_STATE_BLOCKED \<and> t_blocked_on_wq (tk s t) = Some w"
    "t < 32 \<Longrightarrow> alive (t_state (tk s t)) \<Longrightarrow> t_blocked_on_wq (tk s t) = Some w \<Longrightarrow> w < length ws \<and> t \<in> set (tasks_of (ws ! w))"
  using assms unfolding wq_inv_def by blast+

lemma wq_invI:
  assumes "\<And>w. w < length ws \<Longrightarrow> wq_ok (ws ! w) \<and> distinct (tasks_of (ws ! w))"
    and "\<And>w t. w < length ws \<Longrightarrow> t \<in> set (tasks_of (ws ! w)) \<Longrightarrow> t < 32 \<and> t_state (tk s t) = TASK_STATE_BLOCKED \<and> t_blocked_on_wq (tk s t) = Some w"
    and "\<And>w t. t < 32 \<Longrightarrow> alive (t_state (tk s t)) \<Longrightarrow> t_blocked_on_wq (tk s t) = Some w \<Longrightarrow> w < length ws \<and> t \<in> set (tasks_of (ws ! w))"
  shows "wq_inv ws s"
  unfolding wq_inv_def using assms by blast

lemma not_waiting:
  \<comment> \<open>a task that is not blocked is in no queue\<close>
  assumes "wq_inv ws s" and "t_state (tk s t) \<noteq> TASK_STATE_BLOCKED" and "w < length ws"
  shows "t \<notin> set (tasks_of (ws ! w))"
  using wq_invD(3) [OF assms(1,3)] assms(2) by blast

lemma active_free:
  assumes "wq_inv ws s" and "t < 32" and "active (t_state (tk s t))"
  shows "t_blocked_on_wq (tk s t) = None"
proof (cases "t_blocked_on_wq (tk s t)")
  case (Some w)
  then have "w < length ws" "t \<in> set (tasks_of (ws ! w))" using wq_invD(4) [OF assms(1,2) _ Some] assms(3) active_alive by blast+
  then show ?thesis using wq_invD(3) [OF assms(1)] assms(3) by fastforce
qed simp

lemma wq_inv_frame:
  assumes inv: "wq_inv ws s"
    and step: "\<And>i. i < 32 \<Longrightarrow> calm1 (tk s i) (tk s' i) \<or>
      (\<forall>w < length ws. i \<notin> set (tasks_of (ws ! w))) \<and> (alive (t_state (tk s' i)) \<longrightarrow> t_blocked_on_wq (tk s' i) = None)"
  shows "wq_inv ws s'"
proof (rule wq_invI)
  fix w assume "w < length ws"
  then show "wq_ok (ws ! w) \<and> distinct (tasks_of (ws ! w))" using wq_invD(1,2) [OF inv] by blast
next
  fix w t assume w: "w < length ws" "t \<in> set (tasks_of (ws ! w))"
  note d = wq_invD(3) [OF inv w]
  then have "calm1 (tk s t) (tk s' t)" using step [of t] w by blast
  then show "t < 32 \<and> t_state (tk s' t) = TASK_STATE_BLOCKED \<and> t_blocked_on_wq (tk s' t) = Some w" using d by (simp add: calm1_def)
next
  fix w t assume t: "t < 32" "alive (t_state (tk s' t))" "t_blocked_on_wq (tk s' t) = Some w"
  then have c: "calm1 (tk s t) (tk s' t)" using step [OF t(1)] by auto
  then have "alive (t_state (tk s t))" using t(2) by (auto simp: calm1_def split: if_splits)
  then show "w < length ws \<and> t \<in> set (tasks_of (ws ! w))" using wq_invD(4) [OF inv t(1)] c t(3) by (simp add: calm1_def)
qed

lemma room:
  \<comment> \<open>a queue is never full while a task runs\<close>
  assumes inv: "wq_inv ws s" and w: "w < length ws" and c: "c < 32" "t_state (tk s c) \<noteq> TASK_STATE_BLOCKED"
  shows "length (tasks_of (ws ! w)) < 32"
proof -
  have "set (tasks_of (ws ! w)) \<subseteq> {..<32} - {c}" using wq_invD(3) [OF inv w] c(2) by blast
  then have "card (set (tasks_of (ws ! w))) \<le> card ({..<32} - {c})" by (intro card_mono) auto
  also have "\<dots> = 31" using c(1) by simp
  finally show ?thesis using wq_invD(2) [OF inv w] by (simp add: distinct_card)
qed

section \<open>Operations\<close>

lemma sched_inv_upd:
  assumes inv: "sched_inv b s" and t: "t < 32" and f: "\<And>k. same_slot (f k) k" "\<And>k. t_next (f k) = t_next k"
  shows "sched_inv b (upd_task t f s)"
proof -
  obtain q xs c where q: "sched_ok s q xs" "q \<noteq> []" "c < 32" "current_running_task s = Some c" "\<not> b \<Longrightarrow> c \<in> set q"
    "\<not> b \<Longrightarrow> tail_ok s q" "scheduler_enabled s" "interrupt_context_depth s = 0"
    using inv by (blast elim: sched_invE)
  have "sched_ok (upd_task t f s) q xs" by (rule sched_ok_tick [OF q(1) t f])
  then show ?thesis
    unfolding sched_inv_def using q
    by (intro conjI exI [of _ q] exI [of _ xs] exI [of _ c]) (auto simp: tail_ok_def)
qed

abbreviation (input) set_wq :: "nat option \<Rightarrow> nat \<Rightarrow> sched \<Rightarrow> sched" where
  "set_wq x t s \<equiv> upd_task t (\<lambda>k. k\<lparr>t_blocked_on_wq := x\<rparr>) s"

lemma set_wq_sel:
  assumes "t < length (tasks s)"
  shows "tk (set_wq x t s) i = (if i = t then (tk s t)\<lparr>t_blocked_on_wq := x\<rparr> else tk s i)" "others_ready (set_wq x t s) = others_ready s"
    "detachable (set_wq x t s) j = detachable s j"
  using assms by (auto simp: others_ready_def detachable_def list_ex_iff split: option.splits)

lemma sleep_ok:
  assumes inv: "wq_inv ws s" and si: "sched_inv False s" and o: "others_ready s" and w: "w < length ws" and c: "current_running_task s = Some c"
  shows "\<exists>ws' s'. wait_queue_sleep_section (Some w) ws s = Some (True, ws', s') \<and> sched_inv True s' \<and> wq_inv ws' s' \<and>
    ws' = ws[w := push_task c (ws ! w)] \<and> tasks_of (ws' ! w) = tasks_of (ws ! w) @ [c] \<and> t_state (tk s' c) = TASK_STATE_BLOCKED"
proof -
  let ?t = "set_wq (Some w) c s"
  have ca: "c < 32" "active (t_state (tk s c))"
    using current_active [OF si c] by blast+
  have len: "c < length (tasks s)" using inv_slots [OF si] ca(1) by simp
  have nb: "t_state (tk s c) \<noteq> TASK_STATE_BLOCKED" using ca(2) by auto
  note rm = room [OF inv w ca(1) nb]
  have si1: "sched_inv False ?t" by (rule sched_inv_upd [OF si ca(1)]) (simp_all add: same_slot_def)
  have o1: "others_ready ?t" "current_running_task ?t = Some c" using o c set_wq_sel(2) [OF len] by simp_all
  obtain s' where s': "scheduler_block_task (Some c) ?t = Some s'" "sched_inv True s'" using block_ok [OF si1 o1] by blast
  have bc: "calm {c} ?t s'" "t_state (tk s' c) = TASK_STATE_BLOCKED" "t_blocked_on_wq (tk s' c) = Some w"
    using block_calm [OF si1 o1] s'(1) set_wq_sel(1) [OF len] by (auto simp: wlp_def)
  have calm: "calm1 (tk s i) (tk s' i)" if "i < 32" "i \<noteq> c" for i
    using calmD [OF bc(1) that(1)] that(2) set_wq_sel(1) [OF len] by simp
  note p = push_task_list [OF wq_invD(1) [OF inv w] rm, of c]
  let ?ws = "ws[w := push_task c (ws ! w)]"
  have cn: "c \<notin> set (tasks_of (ws ! v))" if "v < length ws" for v by (rule not_waiting [OF inv nb that])
  have v: "wq_ok (?ws ! v) \<and> set (tasks_of (?ws ! v)) = (if v = w then insert c (set (tasks_of (ws ! w))) else set (tasks_of (ws ! v))) \<and>
    distinct (tasks_of (?ws ! v))" if "v < length ws" for v
    using p w wq_invD(1,2) [OF inv that] cn [OF w] that by (cases "v = w") auto
  have "wq_inv ?ws s'"
  proof (rule wq_invI)
    fix v assume "v < length ?ws"
    then show "wq_ok (?ws ! v) \<and> distinct (tasks_of (?ws ! v))" using v [of v] by simp
  next
    fix v t assume a: "v < length ?ws" "t \<in> set (tasks_of (?ws ! v))"
    show "t < 32 \<and> t_state (tk s' t) = TASK_STATE_BLOCKED \<and> t_blocked_on_wq (tk s' t) = Some v"
    proof (cases "t = c")
      case True
      then show ?thesis using a v [of v] cn [of v] bc(2,3) ca(1) by (auto split: if_splits)
    next
      case False
      then have "t \<in> set (tasks_of (ws ! v))" using a v [of v] by (auto split: if_splits)
      then show ?thesis using wq_invD(3) [OF inv, of v t] a(1) calm [of t] False by (simp add: calm1_def)
    qed
  next
    fix v t assume a: "t < 32" "alive (t_state (tk s' t))" "t_blocked_on_wq (tk s' t) = Some v"
    show "v < length ?ws \<and> t \<in> set (tasks_of (?ws ! v))"
    proof (cases "t = c")
      case True
      then show ?thesis using a(3) bc(3) w v [OF w] by simp
    next
      case False
      have "alive (t_state (tk s t))" "t_blocked_on_wq (tk s t) = Some v"
        using calm [OF a(1) False] a(2,3) by (auto simp: calm1_def split: if_splits)
      then have "v < length ws" "t \<in> set (tasks_of (ws ! v))" using wq_invD(4) [OF inv a(1)] by blast+
      then show ?thesis using v [of v] by (auto split: if_splits)
    qed
  qed
  moreover have "wait_queue_sleep_section (Some w) ws s = Some (True, ?ws, s')"
    using c s'(1) rm tasks_of_length [OF wq_invD(1) [OF inv w]] by (simp add: wait_queue_sleep_section_def Let_def)
  ultimately show ?thesis using s'(2) p(2) w bc(2) by auto
qed

lemma left_inv:
  \<comment> \<open>task \<open>t\<close> has left its queue, and is awake or dead\<close>
  assumes inv: "wq_inv ws s" and len: "length ws' = length ws"
    and q: "\<And>v. v < length ws \<Longrightarrow> wq_ok (ws' ! v) \<and> tasks_of (ws' ! v) = removeAll t (tasks_of (ws ! v))"
    and t: "alive (t_state (tk s' t)) \<Longrightarrow> t_blocked_on_wq (tk s' t) = None"
    and calm: "\<And>i. i < 32 \<Longrightarrow> i \<noteq> t \<Longrightarrow> calm1 (tk s i) (tk s' i)"
  shows "wq_inv ws' s'"
proof (rule wq_invI)
  fix v assume "v < length ws'"
  then show "wq_ok (ws' ! v) \<and> distinct (tasks_of (ws' ! v))" using wq_invD(2) [OF inv, of v] q [of v] len by (simp add: distinct_removeAll)
next
  fix v u assume a: "v < length ws'" "u \<in> set (tasks_of (ws' ! v))"
  then have "u \<in> set (tasks_of (ws ! v))" "u \<noteq> t" using q [of v] len by auto
  then show "u < 32 \<and> t_state (tk s' u) = TASK_STATE_BLOCKED \<and> t_blocked_on_wq (tk s' u) = Some v"
    using wq_invD(3) [OF inv, of v u] a(1) len calm [of u] by (simp add: calm1_def)
next
  fix v u assume a: "u < 32" "alive (t_state (tk s' u))" "t_blocked_on_wq (tk s' u) = Some v"
  then have "u \<noteq> t" using t by auto
  then have "alive (t_state (tk s u))" "t_blocked_on_wq (tk s u) = Some v" using calm [OF a(1)] a(2,3) by (auto simp: calm1_def split: if_splits)
  then have "v < length ws" "u \<in> set (tasks_of (ws ! v))" using wq_invD(4) [OF inv a(1)] by blast+
  then show "v < length ws' \<and> u \<in> set (tasks_of (ws' ! v))" using q [of v] \<open>u \<noteq> t\<close> len by simp
qed

lemma other_queue:
  assumes "wq_inv ws s" and "t_blocked_on_wq (tk s t) \<noteq> Some v" and "v < length ws"
  shows "removeAll t (tasks_of (ws ! v)) = tasks_of (ws ! v)"
  using wq_invD(3) [OF assms(1,3)] assms(2) by (intro removeAll_id) blast

lemma cut_distinct: "distinct xs \<Longrightarrow> i < length xs \<Longrightarrow> take i xs @ drop (Suc i) xs = removeAll (xs ! i) xs"
  using id_take_nth_drop [of i xs] by (metis distinct_remove1_removeAll not_distinct_conv_prefix remove1_append remove1.simps(2) distinct_append disjoint_insert(1) list.set(2) Int_commute)

lemma wake_ok:
  assumes inv: "wq_inv ws s" and si: "sched_inv b s" and w: "w < length ws" and q: "tasks_of (ws ! w) = t # r"
  shows "\<exists>ws' s'. wake_first w ws s = Some (ws', s') \<and> sched_inv b s' \<and> wq_inv ws' s' \<and> ws' = ws[w := remove_at 0 (ws ! w)] \<and>
    tasks_of (ws' ! w) = r \<and> t_state (tk s' t) = TASK_STATE_READY \<and>
    (\<forall>i. i \<noteq> t \<longrightarrow> t_state (tk s' i) = t_state (tk s i))"
proof -
  let ?t = "set_wq None t s"
  have wk: "wq_ok (ws ! w)" by (rule wq_invD(1) [OF inv w])
  have t: "t < 32" "t_state (tk s t) = TASK_STATE_BLOCKED" "t_blocked_on_wq (tk s t) = Some w" using wq_invD(3) [OF inv w, of t] q by auto
  have len: "t < length (tasks s)" using inv_slots [OF si] t(1) by simp
  have si1: "sched_inv b ?t" by (rule sched_inv_upd [OF si t(1)]) (simp_all add: same_slot_def)
  have bl: "t_state (tk ?t t) = TASK_STATE_BLOCKED" "t_blocked_on_wq (tk ?t t) = None" using t(2) set_wq_sel(1) [OF len] by simp_all
  obtain s' where s': "scheduler_wakeup_task (Some t) ?t = Some s'" "sched_inv b s'"
    using add_inv [OF si1 t(1)] bl by (auto simp: scheduler_wakeup_task_def)
  have wc: "calm {t} ?t s'" "t_state (tk s' t) = TASK_STATE_READY" "t_blocked_on_wq (tk s' t) = None"
    using exec_calm [OF si1, of "Wake t"] s'(1) t(1) bl by (auto simp: wlp_def sched_exec_def allowed_def touched_def outcome_def)
  have calm: "calm1 (tk s i) (tk s' i)" if "i < 32" "i \<noteq> t" for i
    using calmD [OF wc(1) that(1)] that(2) set_wq_sel(1) [OF len] by simp
  have l: "0 < length (tasks_of (ws ! w))" using q by simp
  note rm = remove_at_list [OF wk l]
  have "waiting_tasks (ws ! w) ! 0 = Some t" using tasks_of_nth [OF wk, of 0] tasks_of_length [OF wk] q by simp
  then have "wake_first w ws s = Some (ws[w := remove_at 0 (ws ! w)], s')" using s'(1) by (simp add: wake_first_def)
  moreover have "wq_inv (ws[w := remove_at 0 (ws ! w)]) s'"
  proof (rule left_inv [OF inv _ _ _ calm])
    fix v assume v: "v < length ws"
    show "wq_ok (ws[w := remove_at 0 (ws ! w)] ! v) \<and> tasks_of (ws[w := remove_at 0 (ws ! w)] ! v) = removeAll t (tasks_of (ws ! v))"
    proof (cases "v = w")
      case True
      then show ?thesis using rm q w wq_invD(2) [OF inv w] by simp
    next
      case False
      then show ?thesis using other_queue [OF inv _ v, of t] wq_invD(1) [OF inv v] t(3) by simp
    qed
  qed (use wc(3) in auto)
  moreover have "t_state (tk s' i) = t_state (tk s i)" if "i \<noteq> t" for i
  proof -
    obtain q xs where "sched_ok ?t q xs" using si1 by (blast elim: sched_invE)
    moreover have "scheduler_add_task (Some t) ?t = Some s'" using s'(1) bl by (simp add: scheduler_wakeup_task_def)
    ultimately show ?thesis using add_others [of ?t q xs t s' i] t(1) bl(1) that set_wq_sel(1) [OF len] by simp
  qed
  ultimately show ?thesis using s'(2) rm(2) q w wc(2) by auto
qed

lemma wake_all_ok:
  assumes "wq_inv ws s" and "sched_inv b s" and "w < length ws" and "length (tasks_of (ws ! w)) \<le> k"
  shows "\<exists>ws' s'. wake_loop k w ws s = Some (ws', s') \<and> sched_inv b s' \<and> wq_inv ws' s' \<and> length ws' = length ws \<and>
    (\<forall>v. v \<noteq> w \<longrightarrow> ws' ! v = ws ! v) \<and> tasks_of (ws' ! w) = [] \<and>
    (\<forall>i. t_state (tk s' i) = (if i \<in> set (tasks_of (ws ! w)) then TASK_STATE_READY else t_state (tk s i)))"
  using assms
proof (induction k arbitrary: ws s)
  case 0
  then have "tasks_of (ws ! w) = []" "wq_count (ws ! w) \<le> 0" using tasks_of_length [OF wq_invD(1) [OF 0(1,3)]] by auto
  then show ?case using 0 by (simp add: wake_loop.simps)
next
  case (Suc k)
  note ok = wq_invD(1) [OF Suc.prems(1,3)]
  show ?case
  proof (cases "tasks_of (ws ! w)")
    case Nil
    then have "\<not> wq_count (ws ! w) > 0" using tasks_of_length [OF ok] by auto
    then show ?thesis using Suc.prems Nil by (simp add: wake_loop.simps)
  next
    case (Cons t r)
    then have pos: "wq_count (ws ! w) > 0" using tasks_of_length [OF ok] by auto
    obtain ws1 s1 where 1: "wake_first w ws s = Some (ws1, s1)" "sched_inv b s1" "wq_inv ws1 s1" "ws1 = ws[w := remove_at 0 (ws ! w)]"
      "tasks_of (ws1 ! w) = r" "t_state (tk s1 t) = TASK_STATE_READY" "\<And>i. i \<noteq> t \<Longrightarrow> t_state (tk s1 i) = t_state (tk s i)"
      using wake_ok [OF Suc.prems(1-3) Cons] by blast
    have l: "w < length ws1" "length (tasks_of (ws1 ! w)) \<le> k" using 1 Cons Suc.prems(3,4) by simp_all
    obtain ws2 s2 where 2: "wake_loop k w ws1 s1 = Some (ws2, s2)" "sched_inv b s2" "wq_inv ws2 s2" "length ws2 = length ws1"
      "\<And>v. v \<noteq> w \<Longrightarrow> ws2 ! v = ws1 ! v" "tasks_of (ws2 ! w) = []"
      "\<And>i. t_state (tk s2 i) = (if i \<in> set (tasks_of (ws1 ! w)) then TASK_STATE_READY else t_state (tk s1 i))"
      using Suc.IH [OF 1(3,2) l] by blast
    have "wake_loop (Suc k) w ws s = Some (ws2, s2)" using pos 1(1) 2(1) by (subst wake_loop.simps) simp
    moreover have "t_state (tk s2 i) = (if i \<in> set (t # r) then TASK_STATE_READY else t_state (tk s i))" for i
      using 2(7) [of i] 1(5-7) by (cases "i = t") auto
    moreover have "ws2 ! v = ws ! v" if "v \<noteq> w" for v using 2(5) [OF that] 1(4) that by simp
    ultimately show ?thesis using 2 1(4) Cons by auto
  qed
qed

lemma remove_task_list:
  assumes inv: "wq_inv ws s" and t: "t < 32" "alive (t_state (tk s t))"
  shows "\<exists>ws'. wait_queue_remove_task (Some t) ws s = (ws', if t_blocked_on_wq (tk s t) = None then s else set_wq None t s) \<and>
    length ws' = length ws \<and> (\<forall>v < length ws. wq_ok (ws' ! v) \<and> tasks_of (ws' ! v) = removeAll t (tasks_of (ws ! v)))"
proof (cases "t_blocked_on_wq (tk s t)")
  case None
  then show ?thesis using other_queue [OF inv] wq_invD(1) [OF inv] by (simp add: wait_queue_remove_task_def)
next
  case (Some w)
  have w: "w < length ws" "t \<in> set (tasks_of (ws ! w))" using wq_invD(4) [OF inv t Some] by auto
  note ok = wq_invD(1) [OF inv w(1)]
  let ?q = "ws ! w" and ?P = "\<lambda>i. waiting_tasks (ws ! w) ! i = Some t"
  obtain j where j: "j < length (tasks_of ?q)" "tasks_of ?q ! j = t" using w(2) by (auto simp: in_set_conv_nth)
  then have "find ?P [0..<nat (wq_count ?q)] \<noteq> None"
    using tasks_of_nth [OF ok, of j] tasks_of_length [OF ok] by (auto simp: find_None_iff)
  then obtain i where i: "find ?P [0..<nat (wq_count ?q)] = Some i" by blast
  then have il: "i < length (tasks_of ?q)" "tasks_of ?q ! i = t"
    using tasks_of_nth [OF ok, of i] tasks_of_length [OF ok] by (auto simp: find_Some_iff)
  note rm = remove_at_list [OF ok il(1)]
  have "tasks_of (remove_at i ?q) = removeAll t (tasks_of ?q)" using rm(2) cut_distinct [OF wq_invD(2) [OF inv w(1)] il(1)] il(2) by simp
  then have "wq_ok (ws[w := remove_at i ?q] ! v) \<and> tasks_of (ws[w := remove_at i ?q] ! v) = removeAll t (tasks_of (ws ! v))"
    if "v < length ws" for v
    using rm(1) w(1) other_queue [OF inv _ that, of t] wq_invD(1) [OF inv that] Some by (cases "v = w") auto
  then show ?thesis using Some i by (simp add: wait_queue_remove_task_def Let_def)
qed

section \<open>Histories\<close>

record wsys =
  ws_queues :: "wait_queue list"
  ws_sched :: sched
  ws_leaving :: bool

datatype wq_op = WSleep nat | WWake nat | WWakeAll nat | WKill nat | WSched sched_op

definition wq_allowed :: "wq_op \<Rightarrow> wsys \<Rightarrow> bool" where
  \<comment> \<open>a sleeper is only woken through its queue, and detached from it when it is killed\<close>
  "wq_allowed op st = (let s = ws_sched st; b = ws_leaving st in case op of
     WSleep w \<Rightarrow> w < length (ws_queues st) \<and> \<not> b \<and> others_ready s
   | WWake w \<Rightarrow> w < length (ws_queues st)
   | WWakeAll w \<Rightarrow> w < length (ws_queues st)
   | WKill t \<Rightarrow> allowed (Kill t) (s, b)
   | WSched sop \<Rightarrow> allowed sop (s, b) \<and> (case sop of
        Kill t \<Rightarrow> False
      | Add t \<Rightarrow> t_blocked_on_wq (tk s t) = None
      | Wake t \<Rightarrow> t_blocked_on_wq (tk s t) = None
      | Spawn k \<Rightarrow> t_blocked_on_wq k = None
      | _ \<Rightarrow> True))"

definition wq_exec :: "wq_op \<Rightarrow> wsys \<Rightarrow> wsys option" where
  "wq_exec op st = (let ws = ws_queues st; s = ws_sched st in case op of
     WSleep w \<Rightarrow> map_option (\<lambda>(b, ws, s). \<lparr>ws_queues = ws, ws_sched = s, ws_leaving = b\<rparr>) (wait_queue_sleep_section (Some w) ws s)
   | WWake w \<Rightarrow> map_option (\<lambda>(ws, s). \<lparr>ws_queues = ws, ws_sched = s, ws_leaving = ws_leaving st\<rparr>) (wait_queue_wakeup (Some w) ws s)
   | WWakeAll w \<Rightarrow> map_option (\<lambda>(ws, s). \<lparr>ws_queues = ws, ws_sched = s, ws_leaving = ws_leaving st\<rparr>) (wait_queue_wakeup_all (Some w) ws s)
   | WKill t \<Rightarrow> (case wait_queue_remove_task (Some t) ws s of (ws, s) \<Rightarrow>
        map_option (\<lambda>s. \<lparr>ws_queues = ws, ws_sched = s, ws_leaving = ws_leaving st\<rparr>) (terminate_other t s))
   | WSched sop \<Rightarrow> map_option (\<lambda>(s, b). \<lparr>ws_queues = ws, ws_sched = s, ws_leaving = b\<rparr>) (sched_exec sop (s, ws_leaving st)))"

definition queues :: "wsys \<Rightarrow> nat list list" where
  "queues st = map tasks_of (ws_queues st)"

fun queue_spec :: "wq_op \<Rightarrow> nat \<Rightarrow> nat list list \<Rightarrow> nat list list" where
  \<comment> \<open>what each operation of the task \<open>c\<close> does to the queues\<close>
  "queue_spec (WSleep w) c qs = qs[w := qs ! w @ [c]]"
| "queue_spec (WWake w) c qs = qs[w := tl (qs ! w)]"
| "queue_spec (WWakeAll w) c qs = qs[w := []]"
| "queue_spec (WKill t) c qs = map (removeAll t) qs"
| "queue_spec (WSched sop) c qs = qs"

fun woken :: "wq_op \<Rightarrow> nat list list \<Rightarrow> nat list" where
  "woken (WWake w) qs = take 1 (qs ! w)"
| "woken (WWakeAll w) qs = qs ! w"
| "woken _ qs = []"

definition wsys_ok :: "wsys \<Rightarrow> bool" where
  "wsys_ok st \<longleftrightarrow> sched_inv (ws_leaving st) (ws_sched st) \<and> wq_inv (ws_queues st) (ws_sched st)"

abbreviation (input) wq_refined :: "wq_op \<Rightarrow> wsys \<Rightarrow> bool" where
  "wq_refined op st \<equiv> \<exists>st'. wq_exec op st = Some st' \<and> wsys_ok st' \<and>
     queues st' = queue_spec op (the (current_running_task (ws_sched st))) (queues st) \<and>
     (\<forall>t \<in> set (woken op (queues st)). t_state (tk (ws_sched st') t) = TASK_STATE_READY)"

lemma map_upd_eq: "w < length ws \<Longrightarrow> length ws' = length ws \<Longrightarrow> (\<And>v. v \<noteq> w \<Longrightarrow> ws' ! v = ws ! v) \<Longrightarrow> map f ws' = (map f ws)[w := f (ws' ! w)]"
  by (rule nth_equalityI) (auto simp: nth_list_update)

lemma sleep_step:
  assumes ok: "wsys_ok st" and al: "wq_allowed (WSleep w) st"
  shows "wq_refined (WSleep w) st"
proof -
  have w: "w < length (ws_queues st)" "\<not> ws_leaving st" "others_ready (ws_sched st)" using al by (simp_all add: wq_allowed_def Let_def)
  have si: "sched_inv False (ws_sched st)" and inv: "wq_inv (ws_queues st) (ws_sched st)" using ok w(2) by (simp_all add: wsys_ok_def)
  obtain c where c: "current_running_task (ws_sched st) = Some c" using si by (blast elim: sched_invE)
  let ?ws = "(ws_queues st)[w := push_task c (ws_queues st ! w)]"
  obtain s' where s': "wait_queue_sleep_section (Some w) (ws_queues st) (ws_sched st) = Some (True, ?ws, s')" "sched_inv True s'" "wq_inv ?ws s'"
    "tasks_of (?ws ! w) = tasks_of (ws_queues st ! w) @ [c]"
    using sleep_ok [OF inv si w(3,1) c] by blast
  then show ?thesis using c w(1) by (simp add: wq_exec_def Let_def wsys_ok_def queues_def map_update)
qed

lemma wake_step:
  assumes ok: "wsys_ok st" and al: "wq_allowed (WWake w) st"
  shows "wq_refined (WWake w) st"
proof -
  have w: "w < length (ws_queues st)" using al by (simp add: wq_allowed_def Let_def)
  have si: "sched_inv (ws_leaving st) (ws_sched st)" and inv: "wq_inv (ws_queues st) (ws_sched st)" using ok by (simp_all add: wsys_ok_def)
  note l = tasks_of_length [OF wq_invD(1) [OF inv w]]
  have n: "0 \<le> wq_count (ws_queues st ! w)" using wq_invD(1) [OF inv w] by (simp add: wq_ok_def)
  show ?thesis
  proof (cases "tasks_of (ws_queues st ! w)")
    case Nil
    then have "wq_count (ws_queues st ! w) = 0" "queues st ! w = []" using l n w by (simp_all add: queues_def)
    moreover from this(2) have "(queues st)[w := []] = queues st" by (metis list_update_id)
    moreover from calculation(1) have "wq_exec (WWake w) st = Some st" by (simp add: wq_exec_def Let_def wait_queue_wakeup_def)
    ultimately show ?thesis using ok by simp
  next
    case (Cons t r)
    then have n0: "wq_count (ws_queues st ! w) \<noteq> 0" using l by auto
    let ?ws = "(ws_queues st)[w := remove_at 0 (ws_queues st ! w)]"
    obtain s' where "wake_first w (ws_queues st) (ws_sched st) = Some (?ws, s')" "sched_inv (ws_leaving st) s'" "wq_inv ?ws s'"
      "tasks_of (?ws ! w) = r" "t_state (tk s' t) = TASK_STATE_READY"
      using wake_ok [OF inv si w Cons] by blast
    then show ?thesis using n0 w Cons by (simp add: wq_exec_def Let_def wait_queue_wakeup_def wsys_ok_def queues_def map_update)
  qed
qed

lemma wake_all_step:
  assumes ok: "wsys_ok st" and al: "wq_allowed (WWakeAll w) st"
  shows "wq_refined (WWakeAll w) st"
proof -
  have w: "w < length (ws_queues st)" using al by (simp add: wq_allowed_def Let_def)
  have si: "sched_inv (ws_leaving st) (ws_sched st)" and inv: "wq_inv (ws_queues st) (ws_sched st)" using ok by (simp_all add: wsys_ok_def)
  let ?k = "nat (wq_count (ws_queues st ! w))"
  have l: "length (tasks_of (ws_queues st ! w)) \<le> ?k" using tasks_of_length [OF wq_invD(1) [OF inv w]] by simp
  obtain ws' s' where 1: "wake_loop ?k w (ws_queues st) (ws_sched st) = Some (ws', s')" "sched_inv (ws_leaving st) s'" "wq_inv ws' s'"
    "length ws' = length (ws_queues st)" "\<And>v. v \<noteq> w \<Longrightarrow> ws' ! v = ws_queues st ! v" "tasks_of (ws' ! w) = []"
    "\<And>i. t_state (tk s' i) = (if i \<in> set (tasks_of (ws_queues st ! w)) then TASK_STATE_READY else t_state (tk (ws_sched st) i))"
    using wake_all_ok [OF inv si w l] by blast
  have "wait_queue_wakeup_all (Some w) (ws_queues st) (ws_sched st) = Some (ws', s')"
    using 1(1) wake_loop.simps [of 0 w] by (auto simp: wait_queue_wakeup_all_def)
  then show ?thesis using 1 w map_upd_eq [OF w 1(4,5), of tasks_of] by (simp add: wq_exec_def Let_def wsys_ok_def queues_def)
qed

lemma kill_step:
  assumes ok: "wsys_ok st" and al: "wq_allowed (WKill t) st"
  shows "wq_refined (WKill t) st"
proof -
  let ?ws = "ws_queues st" and ?s = "ws_sched st"
  have t: "t < 32" "alive (t_state (tk ?s t))" "current_running_task ?s \<noteq> Some t" "detachable ?s t" and b: "\<not> ws_leaving st"
    using al by (simp_all add: wq_allowed_def Let_def allowed_def)
  have si: "sched_inv False ?s" and inv: "wq_inv ?ws ?s" using ok b by (simp_all add: wsys_ok_def)
  have len: "t < length (tasks ?s)" using inv_slots [OF si] t(1) by simp
  let ?t = "if t_blocked_on_wq (tk ?s t) = None then ?s else set_wq None t ?s"
  obtain ws' where r: "wait_queue_remove_task (Some t) ?ws ?s = (ws', ?t)" "length ws' = length ?ws"
    "\<And>v. v < length ?ws \<Longrightarrow> wq_ok (ws' ! v) \<and> tasks_of (ws' ! v) = removeAll t (tasks_of (?ws ! v))"
    using remove_task_list [OF inv t(1,2)] by blast
  have si1: "sched_inv False ?t" using si sched_inv_upd [OF si t(1)] by (simp add: same_slot_def)
  have t1: "alive (t_state (tk ?t t))" "detachable ?t t" "current_running_task ?t \<noteq> Some t"
    using t set_wq_sel [OF len] by simp_all
  obtain s' where s': "terminate_other t ?t = Some s'" "sched_inv False s'" using kill_ok [OF si1 t(1) t1(1,3,2)] by blast
  have kc: "calm {t} ?t s'" "t_state (tk s' t) = TASK_STATE_TERMINATED" using kill_calm [OF si1 t(1) t1(1,2)] s'(1) by (auto simp: wlp_def)
  have "calm1 (tk ?s i) (tk s' i)" if "i < 32" "i \<noteq> t" for i
    using calmD [OF kc(1) that(1)] that(2) set_wq_sel(1) [OF len] by (simp split: if_splits)
  then have "wq_inv ws' s'" using left_inv [OF inv r(2,3), of s'] kc(2) by (simp add: alive_def)
  moreover have "map tasks_of ws' = map (removeAll t) (map tasks_of ?ws)" using r(2,3) by (intro nth_equalityI) simp_all
  ultimately show ?thesis using r(1) s' b by (simp add: wq_exec_def Let_def wsys_ok_def queues_def)
qed

lemma sched_op_step:
  assumes ok: "wsys_ok st" and al: "wq_allowed (WSched sop) st"
  shows "wq_refined (WSched sop) st"
proof -
  let ?ws = "ws_queues st" and ?s = "ws_sched st" and ?b = "ws_leaving st"
  have a: "allowed sop (?s, ?b)" using al by (simp add: wq_allowed_def Let_def)
  have si: "sched_inv ?b ?s" and inv: "wq_inv ?ws ?s" using ok by (simp_all add: wsys_ok_def)
  obtain s' b' where s': "sched_exec sop (?s, ?b) = Some (s', b')" "sched_inv b' s'" using exec_ok [OF si a] by (auto simp: wp_iff)
  have calm: "calm (touched sop ?s) ?s s'" and out: "\<And>i. i \<in> touched sop ?s \<Longrightarrow> outcome sop (tk ?s i) (tk s' i)"
    using exec_calm [OF si a] s'(1) by (auto simp: wlp_def)
  have cur: "t_state (tk ?s i) \<noteq> TASK_STATE_BLOCKED \<and> t_blocked_on_wq (tk ?s i) = None" if "\<not> ?b" "current_running_task ?s = Some i" for i
    using current_active [of ?s i] active_free [OF inv, of i] si that by (auto simp: active_def)
  have in_queue: "t_blocked_on_wq (tk ?s i) = Some w \<and> t_state (tk ?s i) = TASK_STATE_BLOCKED" if "w < length ?ws" "i \<in> set (tasks_of (?ws ! w))" for i w
    using wq_invD(3) [OF inv that] by blast
  have free: "(\<forall>w < length ?ws. i \<notin> set (tasks_of (?ws ! w))) \<and> (alive (t_state (tk s' i)) \<longrightarrow> t_blocked_on_wq (tk s' i) = None)"
    if "i < 32" "i \<in> touched sop ?s" for i
    using al a out [OF that(2)] that cur in_queue
    by (cases sop) (auto simp: touched_def outcome_def wq_allowed_def allowed_def Let_def alive_def split: if_splits)
  have "wq_inv ?ws s'" by (rule wq_inv_frame [OF inv]) (use free calmD [OF calm] in blast)
  then show ?thesis using s' by (simp add: wq_exec_def Let_def wsys_ok_def queues_def)
qed

lemma wq_step: "wsys_ok st \<Longrightarrow> wq_allowed op st \<Longrightarrow> wq_refined op st"
  by (cases op) (blast intro: sleep_step wake_step wake_all_step kill_step sched_op_step)+

inductive wq_reach :: "wsys \<Rightarrow> wsys \<Rightarrow> bool" for start where
  wq_start: "wq_reach start start"
| wq_next: "wq_reach start st \<Longrightarrow> wq_allowed op st \<Longrightarrow> wq_exec op st = Some st' \<Longrightarrow> wq_reach start st'"

definition wq_boot :: "wait_queue list \<Rightarrow> sched \<Rightarrow> wsys" where
  \<comment> \<open>every queue is initialised, whatever its memory holds\<close>
  "wq_boot ws s = \<lparr>ws_queues = fold (\<lambda>w. wait_queue_init (Some w)) [0..<length ws] ws, ws_sched = s, ws_leaving = False\<rparr>"

lemma init_all: "k \<le> length ws \<Longrightarrow> fold (\<lambda>w. wait_queue_init (Some w)) [0..<k] ws = replicate k empty_queue @ drop k ws"
proof (induction k)
  case (Suc k)
  then have "drop k ws = ws ! k # drop (Suc k) ws" by (simp add: Cons_nth_drop_Suc)
  then show ?case using Suc by (simp add: wait_queue_init_def list_update_append replicate_app_Cons_same)
qed simp

lemma wq_boot_ok:
  assumes "sched_inv False s" and "\<forall>t < 32. t_blocked_on_wq (tk s t) = None"
  shows "wsys_ok (wq_boot ws s)"
  unfolding wsys_ok_def wq_boot_def using assms init_all [of "length ws" ws] by (auto intro!: wq_invI)

lemma wq_reach_ok: "wq_reach start st \<Longrightarrow> wsys_ok start \<Longrightarrow> wsys_ok st"
proof (induction rule: wq_reach.induct)
  case (wq_next st op st')
  then show ?case using wq_step [of st op] by auto
qed

text \<open>
  C8: Wait queues are first-in first-out and lose nobody. Initialise any number of wait queues in a state of
  the scheduler in which nobody waits, and let tasks sleep on them, be woken one by one or all at
  once, be killed, preempted, created and so on in any order. Then each queue holds, without repetition, exactly
  the living tasks whose \<^verbatim>\<open>blocked_on_wq\<close> points at it, and these are blocked. Each operation
  returns and does to the lists what its name says: a sleep never finds the queue full and appends the
  running task; a wake-up takes the first sleeper off and makes it READY; a wake-up of all empties the queue in at
  most as many rounds as it has tasks and makes all of them READY; a kill takes the task, wherever it
  stands, off its queue and keeps the order of the rest; nothing else touches a queue.
  (A sleeper is woken only through its queue; a task is killed with \<^verbatim>\<open>task_terminate\<close>, and only if it
  does not stand at the head of a ready queue whose tail pointer is stale, the case of \<^verbatim>\<open>kill_next_loses_tasks\<close>.)
\<close>

theorem wait_queue_refines_fifo:
  assumes "sched_inv False s" and "\<forall>t < 32. t_blocked_on_wq (tk s t) = None" and "wq_reach (wq_boot ws s) st"
  shows "(\<forall>w < length (ws_queues st). distinct (queues st ! w) \<and>
      set (queues st ! w) = {t. t < 32 \<and> alive (t_state (tk (ws_sched st) t)) \<and> t_blocked_on_wq (tk (ws_sched st) t) = Some w} \<and>
      (\<forall>t \<in> set (queues st ! w). t_state (tk (ws_sched st) t) = TASK_STATE_BLOCKED)) \<and>
    (\<forall>op. wq_allowed op st \<longrightarrow> (\<exists>st'. wq_exec op st = Some st' \<and>
      queues st' = queue_spec op (the (current_running_task (ws_sched st))) (queues st) \<and>
      (\<forall>t \<in> set (woken op (queues st)). t_state (tk (ws_sched st') t) = TASK_STATE_READY)))"
proof -
  have ok: "wsys_ok st" by (rule wq_reach_ok [OF assms(3) wq_boot_ok [OF assms(1,2)]])
  then have inv: "wq_inv (ws_queues st) (ws_sched st)" by (simp add: wsys_ok_def)
  note d = wq_invD [OF inv]
  have "set (queues st ! w) = {t. t < 32 \<and> alive (t_state (tk (ws_sched st) t)) \<and> t_blocked_on_wq (tk (ws_sched st) t) = Some w}"
    if "w < length (ws_queues st)" for w
    using d(3) [OF that] d(4) that by (auto simp: queues_def alive_def)
  moreover have "distinct (queues st ! w) \<and> (\<forall>t \<in> set (queues st ! w). t_state (tk (ws_sched st) t) = TASK_STATE_BLOCKED)"
    if "w < length (ws_queues st)" for w
    using d(2,3) [OF that] that by (simp add: queues_def)
  ultimately show ?thesis using wq_step [OF ok] by blast
qed

fun wq_run :: "wq_op list \<Rightarrow> wsys \<Rightarrow> wsys option" where
  "wq_run [] st = Some st"
| "wq_run (op # ops) st = (if wq_allowed op st then Option.bind (wq_exec op st) (wq_run ops) else None)"

lemma wq_run_reach: "wq_run ops st = Some st' \<Longrightarrow> wq_reach start st \<Longrightarrow> wq_reach start st'"
  by (induction ops arbitrary: st) (auto simp: bind_eq_Some_conv split: if_splits intro: wq_next)

abbreviation (input) two_queues :: "wait_queue list" where
  "two_queues \<equiv> replicate 2 \<lparr>waiting_tasks = replicate 32 (Some 7), wq_count = 5\<rparr>"

lemma boot4_unblocked:
  "map_option (\<lambda>s. list_all (\<lambda>t. t_blocked_on_wq (tk s t) = None) [0..<32]) (sched_boot boot4) = Some True"
  by code_simp

lemma boot4_asleep:
  "map_option (\<lambda>st. (queues st, wq_allowed (WWake 1) st, the (current_running_task (ws_sched st))))
     (Option.bind (sched_boot boot4) (\<lambda>s. wq_run [WSleep 1, WSched Yield, WSleep 1, WSched Yield] (wq_boot two_queues s))) =
   Some ([[], [0, 1]], True, 2)"
  by code_simp

theorem wait_queue_refines_fifo_witness:
  "\<exists>s st st'. sched_boot boot4 = Some s \<and> wq_reach (wq_boot two_queues s) st \<and> queues st = [[], [0, 1]] \<and>
     wq_exec (WWake 1) st = Some st' \<and> queues st' = [[], [1]] \<and> t_state (tk (ws_sched st') 0) = TASK_STATE_READY"
proof -
  obtain s where s: "sched_boot boot4 = Some s" "sched_inv False s" using boot_ok [OF boot4_startable] by (auto simp: wp_iff)
  have u: "\<forall>t < 32. t_blocked_on_wq (tk s t) = None" using boot4_unblocked s(1) by (auto simp: list_all_iff)
  obtain st where st: "wq_run [WSleep 1, WSched Yield, WSleep 1, WSched Yield] (wq_boot two_queues s) = Some st"
    "queues st = [[], [0, 1]]" "wq_allowed (WWake 1) st"
    using boot4_asleep s(1) by auto
  have r: "wq_reach (wq_boot two_queues s) st" by (rule wq_run_reach [OF st(1) wq_start])
  obtain st' where "wq_exec (WWake 1) st = Some st'" "queues st' = queue_spec (WWake 1) (the (current_running_task (ws_sched st))) (queues st)"
    "\<forall>t \<in> set (woken (WWake 1) (queues st)). t_state (tk (ws_sched st') t) = TASK_STATE_READY"
    using wait_queue_refines_fifo [OF s(2) u r] st(3) by blast
  then show ?thesis using s(1) r st(2) by auto
qed

end
