(* ===== verification/Spec2Isabelle.thy ===== *)
theory Spec2Isabelle
  imports Pmm_Boot Ramfs_Props Vfs_Props Sched_Props Mutex_Props Wait_Queue_Props
begin

text \<open>
  Verification of the core of the TinyOS kernel: physical memory, the RAM file system with the
  virtual file system above it, the scheduler with its task table, mutexes and wait queues.

  \<^bold>\<open>The program and its model.\<close> The kernel is C with assembly stubs for one 32-bit processor. Every
  public function is modelled as one sequential step: a HOL function from
  the state (a \<^verbatim>\<open>record\<close> with the fields of the C globals and structures) to the result and the new
  state (see the paragraph on granularity below). Integers keep their width where they can wrap (\<open>u8\<close>, \<open>u16\<close>, \<open>u32\<close>, \<open>u64\<close> of \<^verbatim>\<open>Prelude\<close>). Functions
  return their C error codes. Above that, the option type stands for what C leaves undefined or fatal: a
  computation is \<^term>\<open>None\<close> when the code would follow a dangling or NULL pointer, panic, or never return. That it is
  not \<^term>\<open>None\<close> is always part of what is proved, through the predicate \<open>wp m Q\<close> (the computation returns
  and \<open>Q\<close> holds of the result); \<open>wlp\<close> is used where safety is already known.

  \<^bold>\<open>Parts and theories.\<close>

  \<^item> Physical memory, \<^verbatim>\<open>src/src/pmm.c\<close>. \<^verbatim>\<open>Pmm\<close> has the bitmap of frames and every operation on it
    (\<^verbatim>\<open>pmm_alloc\<close>, \<^verbatim>\<open>pmm_alloc_low\<close>, \<^verbatim>\<open>pmm_alloc_contiguous\<close>, \<^verbatim>\<open>pmm_free\<close>, the range marking), \<^verbatim>\<open>Pmm_Boot\<close> the
    Multiboot2 parser \<^verbatim>\<open>pmm_init_from_mb2\<close>. Shown: the counter of free frames is the number of clear bits in
    every history; allocation is first fit, single or contiguous; frames below 1 MiB are never handed out; release
    undoes allocation; after boot no frame of low memory, the kernel image, the boot stack, the bitmap or the boot information is free, and
    boot panics when the stack is outside the image; the parser terminates on well-formed tags. Locale \<open>frame_allocator\<close> is what clients rely on, interpreted for both
    allocators.

  \<^item> RAM file system, \<^verbatim>\<open>src/src/ramfs.c\<close>. \<^verbatim>\<open>Ramfs_Model\<close> has all operations over a heap of nodes and pages in
    frames of the allocator, linked by raw addresses as in the code. \<^verbatim>\<open>Ramfs_Inv\<close> and \<^verbatim>\<open>Ramfs_Safe\<close> have the
    invariant (the sibling chains form a tree, pages are owned once, open descriptors count references) and that
    lookup, creation, open, read, seek and close keep it; \<^verbatim>\<open>Ramfs_Remove\<close> does unlink, rmdir, rename and chmod,
    \<^verbatim>\<open>Ramfs_File\<close> the contents of files, \<^verbatim>\<open>Ramfs_Tree\<close> the effect on path lookup, \<^verbatim>\<open>Ramfs_Ops\<close> histories and the
    access matrix. \<^verbatim>\<open>Ramfs_Props\<close> states the properties: no history follows a dangling pointer, reads and
    writes refine byte lists, truncation discloses nothing, permissions are the documented matrix, creation and
    removal change exactly one path, hidden names cannot be told from absent ones unless the caller may write to
    their directory, failing operations change nothing.

  \<^item> Virtual file system, \<^verbatim>\<open>src/src/vfs.c\<close>. \<^verbatim>\<open>Vfs_Path\<close> has the canonicaliser, equal to a reference definition on
    lists of components, and the test for protected names; \<^verbatim>\<open>Vfs_Model\<close> has the descriptor table, mounts and dispatch
    over an arbitrary driver; \<^verbatim>\<open>Vfs_Safe\<close> proves the layer safe in the locale \<open>driver_world\<close>, the drivers'
    contract. \<^verbatim>\<open>Ramfs_Vfs\<close> models the driver \<^verbatim>\<open>src/src/ramfs_vfs.c\<close> and \<^verbatim>\<open>Ramfs_Vfs_Safe\<close> interprets the locale on it.
    \<^verbatim>\<open>Vfs_Props\<close>: safety of every history after a boot without a FAT32 volume, protected names need \<^verbatim>\<open>CAP_SYS_ADMIN\<close>, descriptor
    limits, round trip of write and read, directory listing.

  \<^item> Scheduler and task table, \<^verbatim>\<open>src/src/scheduler.c\<close> and \<^verbatim>\<open>src/src/process.c\<close>. \<^verbatim>\<open>Task\<close> has the fields of
    \<^verbatim>\<open>task_t\<close> the file systems read, \<^verbatim>\<open>Sched_Model\<close> extends it and has the ready queue through the \<^verbatim>\<open>next\<close>
    fields, the cleanup queue, the timer interrupt, yield, block, wake-up, sleep, exit and kill. \<^verbatim>\<open>Sched_Ring\<close> reads the
    circular list as a list; \<^verbatim>\<open>Sched_Safe\<close> has the invariant and each operation; \<^verbatim>\<open>Sched_Boot\<close> boots;
    \<^verbatim>\<open>Sched_Hist\<close> is the step relation of histories; \<^verbatim>\<open>Sched_Frame\<close> what each step leaves alone. \<^verbatim>\<open>Sched_Props\<close>: safety of all
    histories, round-robin turns without wake-ups, and two defects that come from the stale tail pointer.

  \<^item> Mutexes, \<^verbatim>\<open>src/src/mutex.c\<close> (\<^verbatim>\<open>Mutex\<close>, \<^verbatim>\<open>Mutex_Props\<close>) and wait queues, \<^verbatim>\<open>src/src/wait_queue.c\<close>
    (\<^verbatim>\<open>Wait_Queue\<close>, \<^verbatim>\<open>Wait_Queue_Props\<close>), over the scheduler. \<^verbatim>\<open>Array_Queue\<close> has the shifting loop and the locale
    \<open>fifo_queue\<close>, interpreted for the waiters of a mutex, a wait queue and the cleanup queue. Shown: the
    arrays refine first-in first-out lists; mutual exclusion and ownership of the woken waiter; wait queues hold
    exactly the tasks blocked on them and every operation returns.

  \<^bold>\<open>How the parts meet.\<close> The file systems call the allocator through its operations; the virtual file
  system calls drivers through their table of functions; mutexes and wait queues call the scheduler. Mutex and wait
  queue histories interleave their own operations with all operations of the scheduler at the granularity of
  critical sections; a task that blocks first leaves the ready queue and then, as a separate step, yields.

  \<^bold>\<open>Granularity.\<close> The allocator, the scheduler, mutexes and wait queues run their operations with interrupts off, and
  mkdir, unlink, rmdir, rename and list hold the file system's mutex, so one step per call (or, for a call that
  blocks, per critical section) is what the processor does. It is coarser than the code in three places, and interleavings inside them are not
  covered: \<^verbatim>\<open>ramfs_open\<close> and \<^verbatim>\<open>ramfs_chmod\<close> drop the mutex after the lookup, and \<^verbatim>\<open>ramfs_read\<close>, \<^verbatim>\<open>ramfs_write\<close>, \<^verbatim>\<open>ramfs_truncate\<close> and
  \<^verbatim>\<open>ramfs_seek\<close> take no lock; the descriptor layer above inherits this; and \<open>terminate_other\<close> takes
  the stores to the slot, its removal from the ready queue and its release together, while
  \<^verbatim>\<open>task_terminate_task\<close> masks interrupts only inside the latter two.

  \<^bold>\<open>Assumptions of the histories.\<close> The contexts in which the kernel calls an operation are the predicates \<open>allowed\<close>,
  \<open>mutex_allowed\<close> and \<open>wq_allowed\<close>: some other task is ready when one blocks, sleeps or exits; a killed task is not the running one and is
  \<open>detachable\<close>, that is, not at the head of a ready queue with a stale tail (the excluded case is the defect
  \<open>kill_next_loses_tasks\<close>); the owner of a mutex is not killed, its waiters number at most sixteen and are woken by
  \<^verbatim>\<open>mutex_unlock\<close> only, a fresh PID is not in use or queued, the depth of a recursive lock does not reach the end of
  32 bits; sleepers are woken through their queue.

  \<^bold>\<open>Bounds and fuel.\<close> Loops with a bound in the source recurse on it: the walks over siblings stop at
  the file system's limit, the ready queue scan at the size of the task table, removal from the queue after 33
  steps, where the kernel panics. The loop draining the cleanup queue, \<open>hand_over\<close> and \<open>wake_loop\<close> recurse on the number of queued entries, which
  each round lowers; running out is \<^term>\<open>None\<close>, and is shown not to happen. \<open>find_sibling\<close> and
  \<open>scheduler_get_next_task\<close> have no bound in the source and are partial functions; they return in every reachable state. The boot
  parser takes fuel: \<open>boot_parser_terminates\<close> bounds what it needs by the size of the information, and
  \<open>boot_parser_zero_size_tag_hangs\<close> shows the input on which no fuel is enough.

  \<^bold>\<open>Parameters.\<close> The calling task, the Multiboot2 memory and the addresses of the linker script, the random
  characters of temporary names, the busy hook, the drivers of the virtual file system, the clock and a freshly created
  task (with its random PID and its stack) are arguments of the definitions.

  \<^bold>\<open>Not modelled.\<close> Paging, system call entry and user memory, task creation and the release of a task's memory, a task terminating itself
  through \<^verbatim>\<open>task_terminate_task\<close> (it stays linked until the next switch), \<^verbatim>\<open>task_block\<close> and \<^verbatim>\<open>task_unblock\<close> (no callers), assembly stubs and descriptor tables, device drivers, FAT32, the network stack with firewall and intrusion
  detection, cryptography, the ELF loader, accounts, environment and audit log, endpoint detection, the shell
  with pipes and redirection: hardware state, input and output, or services above the core. Console output is dropped.
  Saving and restoring of FPU registers is reduced to the ownership of the unit. User programs, generated program
  images, tests and tools are outside the kernel.
\<close>

end
